(* ===== verification/Prelude.thy ===== *)
theory Prelude
  imports Complex_Main "HOL-Library.Word" "HOL-Library.AList" "HOL-Library.Multiset"
    "HOL-Library.Char_ord" "HOL-Library.List_Lexorder"
begin

text \<open>
  Shared vocabulary of the development: Python exceptions as values, the result type of a
  fallible operation with its sequencing combinator, Python's list indexing, slicing and
  integer division, insertion-ordered dictionaries, and the collections of facts the
  component theories share.
\<close>

section \<open>Fact collections\<close>

named_theorems codec_simps \<open>equations that evaluate the byte codecs\<close>
named_theorems dict_simps \<open>lookup and key facts of insertion-ordered dictionaries\<close>
named_theorems res_simps \<open>case analysis of fallible computations\<close>

section \<open>Exceptions and results\<close>

text \<open>
  The exception classes the client raises itself or receives from the interpreter, its
  standard library and the socket layer. Only the class is kept: no code path reads the
  message of an exception it has caught.
\<close>

datatype exc =
    StructError | ConnectionError | TimeoutError | RuntimeError | ValueError | IndexError
  | KeyError | ZeroDivisionError | TypeError | AttributeError | OverflowError | OSError
  | BrokenPipeError | ConnectionResetError | SocketTimeout | QueueEmpty | NameError | EOFError

type_synonym 'a res = "exc + 'a"

definition bind_res :: "'a res \<Rightarrow> ('a \<Rightarrow> 'b res) \<Rightarrow> 'b res" where
  "bind_res m f = (case m of Inl e \<Rightarrow> Inl e | Inr x \<Rightarrow> f x)"

lemma bind_res_simps [simp]:
  "bind_res (Inl e) f = Inl e"
  "bind_res (Inr x) f = f x"
  by (simp_all add: bind_res_def)

lemma bind_res_eq_Inr [res_simps]:
  "bind_res m f = Inr y \<longleftrightarrow> (\<exists>x. m = Inr x \<and> f x = Inr y)"
  by (cases m) auto

lemma bind_res_eq_Inl [res_simps]:
  "bind_res m f = Inl e \<longleftrightarrow> m = Inl e \<or> (\<exists>x. m = Inr x \<and> f x = Inl e)"
  by (cases m) auto

lemma bind_res_assoc: "bind_res (bind_res m f) g = bind_res m (\<lambda>x. bind_res (f x) g)"
  by (cases m) auto

text \<open>A fallible function over a list, left to right, stopping at the first exception.\<close>

fun map_res :: "('a \<Rightarrow> 'b res) \<Rightarrow> 'a list \<Rightarrow> 'b list res" where
  "map_res f [] = Inr []"
| "map_res f (x # xs) = bind_res (f x) (\<lambda>y. bind_res (map_res f xs) (\<lambda>ys. Inr (y # ys)))"

lemma map_res_length: "map_res f xs = Inr ys \<Longrightarrow> length ys = length xs"
  by (induction xs arbitrary: ys) (auto simp: res_simps)

lemma map_res_total: "(\<And>x. x \<in> set xs \<Longrightarrow> f x = Inr (g x)) \<Longrightarrow> map_res f xs = Inr (map g xs)"
  by (induction xs) auto

lemma map_res_append:
  "map_res f (xs @ ys) = bind_res (map_res f xs) (\<lambda>us. bind_res (map_res f ys) (\<lambda>vs. Inr (us @ vs)))"
  by (induction xs) (auto simp: bind_res_def split: sum.splits)

lemma map_res_error:
  "map_res f (us @ x # vs) = Inl e" if "map_res f us = Inr ws" and "f x = Inl e"
  using that by (simp add: map_res_append)

lemma map_res_InlD: "map_res f xs = Inl e \<Longrightarrow> \<exists>x \<in> set xs. f x = Inl e"
  by (induction xs) (auto simp: res_simps)

lemma map_res_InrD: "map_res f xs = Inr ys \<Longrightarrow> x \<in> set xs \<Longrightarrow> \<exists>y \<in> set ys. f x = Inr y"
  by (induction xs arbitrary: ys) (auto simp: res_simps)

section \<open>Python lists\<close>

text \<open>Indexing raises outside the list; a negative index counts from the end.\<close>

definition py_index :: "'a list \<Rightarrow> int \<Rightarrow> 'a res" where
  "py_index xs i =
     (if i < - int (length xs) \<or> int (length xs) \<le> i then Inl IndexError
      else Inr (if i < 0 then xs ! nat (int (length xs) + i) else xs ! nat i))"

lemma py_index_in_range: "0 \<le> i \<Longrightarrow> i < int (length xs) \<Longrightarrow> py_index xs i = Inr (xs ! nat i)"
  by (simp add: py_index_def Let_def)

lemma py_index_set: "py_index xs i = Inr x \<Longrightarrow> x \<in> set xs"
  by (auto simp: py_index_def split: if_splits intro!: nth_mem)

text \<open>The position a slice bound denotes: negative bounds count from the end, and every
  bound is clipped to the list.\<close>

definition slice_pos :: "'a list \<Rightarrow> int \<Rightarrow> nat" where
  "slice_pos xs i = nat (if i < 0 then max 0 (int (length xs) + i) else min i (int (length xs)))"

definition py_take :: "int \<Rightarrow> 'a list \<Rightarrow> 'a list" where
  "py_take i xs = take (slice_pos xs i) xs"

definition py_drop :: "int \<Rightarrow> 'a list \<Rightarrow> 'a list" where
  "py_drop i xs = drop (slice_pos xs i) xs"

lemma py_take_drop [simp]: "py_take i xs @ py_drop i xs = xs"
  by (simp add: py_take_def py_drop_def)

lemma py_take_nonneg: "0 \<le> i \<Longrightarrow> py_take i xs = take (nat i) xs"
  by (auto simp: py_take_def slice_pos_def min_def nat_le_iff)

lemma py_drop_nonneg: "0 \<le> i \<Longrightarrow> py_drop i xs = drop (nat i) xs"
  by (auto simp: py_drop_def slice_pos_def min_def nat_le_iff)

text \<open>Integer floor division and remainder raise on a zero divisor.\<close>

definition py_div :: "int \<Rightarrow> int \<Rightarrow> int res" where
  "py_div a b = (if b = 0 then Inl ZeroDivisionError else Inr (a div b))"

definition py_mod :: "int \<Rightarrow> int \<Rightarrow> int res" where
  "py_mod a b = (if b = 0 then Inl ZeroDivisionError else Inr (a mod b))"

lemma py_mod_pos [simp]: "0 < b \<Longrightarrow> py_mod a b = Inr (a mod b)"
  by (simp add: py_mod_def)

lemma py_div_pos [simp]: "0 < b \<Longrightarrow> py_div a b = Inr (a div b)"
  by (simp add: py_div_def)

section \<open>Insertion-ordered dictionaries\<close>

text \<open>
  A Python \<open>dict\<close> whose iteration order is observed is an association list with distinct
  keys: a store to a present key keeps its position, a store to a new key appends.
  \<open>AList.update\<close> of the library is that operation.
\<close>

type_synonym ('k, 'v) dict = "('k \<times> 'v) list"

abbreviation dict_keys :: "('k, 'v) dict \<Rightarrow> 'k list" where
  "dict_keys d \<equiv> map fst d"

definition dict_ok :: "('k, 'v) dict \<Rightarrow> bool" where
  "dict_ok d \<longleftrightarrow> distinct (dict_keys d)"

definition dict_get_default :: "('k, 'v) dict \<Rightarrow> 'k \<Rightarrow> 'v \<Rightarrow> 'v" where
  "dict_get_default d k v = (case map_of d k of None \<Rightarrow> v | Some w \<Rightarrow> w)"

definition dict_index :: "('k, 'v) dict \<Rightarrow> 'k \<Rightarrow> 'v res" where
  "dict_index d k = (case map_of d k of None \<Rightarrow> Inl KeyError | Some v \<Rightarrow> Inr v)"

lemma dict_ok_update [simp, intro]: "dict_ok d \<Longrightarrow> dict_ok (AList.update k v d)"
  by (simp add: dict_ok_def distinct_update)

lemma dict_ok_Nil [simp]: "dict_ok []"
  by (simp add: dict_ok_def)

lemma dict_get_update [dict_simps]:
  "dict_get_default (AList.update k v d) k' w = (if k' = k then v else dict_get_default d k' w)"
  by (simp add: dict_get_default_def update_conv)

lemma dict_index_present: "dict_ok d \<Longrightarrow> (k, v) \<in> set d \<Longrightarrow> dict_index d k = Inr v"
  by (simp add: dict_index_def dict_ok_def)

lemma dict_index_key: "k \<in> set (dict_keys d) \<Longrightarrow> \<exists>v. dict_index d k = Inr v \<and> (k, v) \<in> set d"
  using map_of_SomeD [of d k]
  by (cases "map_of d k") (auto simp: dict_index_def map_of_eq_None_iff)

section \<open>Generic list facts\<close>

text \<open>A window inside a cut list is the same window of the whole list.\<close>

lemma take_drop_cut: "off + k \<le> m \<Longrightarrow> take k (drop off (take m xs)) = take k (drop off xs)"
  by (simp add: drop_take min_def)

lemma find_SomeD: "find P xs = Some x \<Longrightarrow> x \<in> set xs \<and> P x"
  by (induction xs) (auto split: if_splits)

end
