(* ===== verification/Wire_Format.thy ===== *)
theory Wire_Format
  imports Prelude
begin

text \<open>
  Bytes and Python's \<open>struct\<close> module, as the client uses it: the little-endian formats built
  from \<open>B\<close>, \<open>I\<close>, \<open>Q\<close> and \<open>Ns\<close>. A format is the list of its fields; packing checks the
  number, the type and the range of its arguments and raises \<open>struct.error\<close>, unpacking
  checks the length of the buffer.
\<close>

type_synonym byte = "8 word"

section \<open>Little-endian integers\<close>

fun le_bytes :: "nat \<Rightarrow> int \<Rightarrow> byte list" where
  "le_bytes 0 v = []"
| "le_bytes (Suc n) v = word_of_int v # le_bytes n (v div 256)"

fun le_int :: "byte list \<Rightarrow> int" where
  "le_int [] = 0"
| "le_int (b # bs) = uint b + 256 * le_int bs"

lemma length_le_bytes [simp]: "length (le_bytes n v) = n"
  by (induction n arbitrary: v) auto

lemma uint_byte_of_int: "uint (word_of_int v :: byte) = v mod 256"
  by (simp add: uint_word_of_int)

lemma le_int_le_bytes: "le_int (le_bytes n v) = v mod 256 ^ n"
proof (induction n arbitrary: v)
  case 0
  then show ?case by simp
next
  case (Suc n)
  have "le_int (le_bytes (Suc n) v) = v mod 256 + 256 * (v div 256 mod 256 ^ n)"
    by (simp add: Suc.IH uint_byte_of_int)
  also have "\<dots> = v mod (256 * 256 ^ n)"
    by (simp add: zmod_zmult2_eq)
  finally show ?case by simp
qed

lemma le_int_nonneg [simp]: "0 \<le> le_int bs"
  by (induction bs) auto

lemma le_int_bound: "le_int bs < 256 ^ length bs"
proof (induction bs)
  case Nil
  then show ?case by simp
next
  case (Cons b bs)
  have "uint b < 256"
    using uint_lt2p [of b] by simp
  moreover have "le_int bs + 1 \<le> 256 ^ length bs"
    using Cons.IH by simp
  ultimately show ?case by simp
qed

lemma le_bytes_le_int: "le_bytes (length bs) (le_int bs) = bs"
proof (induction bs)
  case Nil
  then show ?case by simp
next
  case (Cons b bs)
  have lt: "uint b < 256" and ge: "0 \<le> uint b"
    using uint_lt2p [of b] by simp_all
  have "(uint b + 256 * le_int bs) mod 256 = uint b"
    using lt ge by simp
  then have "(word_of_int (uint b + 256 * le_int bs) :: byte) = b"
    by (metis uint_byte_of_int word_uint_eqI)
  moreover have "(uint b + 256 * le_int bs) div 256 = le_int bs"
    using lt ge by simp
  ultimately show ?case using Cons.IH by simp
qed

section \<open>Fields and values\<close>

text \<open>\<open>B\<close>, \<open>I\<close> and \<open>Q\<close> are unsigned integers of 1, 4 and 8 bytes; \<open>Ns\<close> is a byte string
  of exactly \<open>N\<close> bytes, cut or zero-padded when packed.\<close>

datatype field = FB | FI | FQ | FS nat

datatype sval = SInt int | SBytes "byte list" | SObj

fun field_size :: "field \<Rightarrow> nat" where
  "field_size FB = 1"
| "field_size FI = 4"
| "field_size FQ = 8"
| "field_size (FS n) = n"

definition calcsize :: "field list \<Rightarrow> nat" where
  "calcsize fmt = sum_list (map field_size fmt)"

lemma calcsize_simps [simp]:
  "calcsize [] = 0"
  "calcsize (f # fs) = field_size f + calcsize fs"
  by (simp_all add: calcsize_def)

fun pack_int :: "nat \<Rightarrow> sval \<Rightarrow> byte list res" where
  "pack_int n (SInt v) = (if 0 \<le> v \<and> v < 256 ^ n then Inr (le_bytes n v) else Inl StructError)"
| "pack_int n v = Inl StructError"

fun pack_field :: "field \<Rightarrow> sval \<Rightarrow> byte list res" where
  "pack_field (FS n) v =
     (case v of SBytes bs \<Rightarrow> Inr (take n bs @ replicate (n - length bs) 0) | _ \<Rightarrow> Inl StructError)"
| "pack_field f v = pack_int (field_size f) v"

text \<open>\<open>struct.pack\<close>: one argument per field.\<close>

fun struct_pack :: "field list \<Rightarrow> sval list \<Rightarrow> byte list res" where
  "struct_pack [] [] = Inr []"
| "struct_pack (f # fs) (v # vs) =
     bind_res (pack_field f v) (\<lambda>b. bind_res (struct_pack fs vs) (\<lambda>bs. Inr (b @ bs)))"
| "struct_pack _ _ = Inl StructError"

fun unpack_field :: "field \<Rightarrow> byte list \<Rightarrow> sval" where
  "unpack_field (FS n) bs = SBytes bs"
| "unpack_field f bs = SInt (le_int bs)"

fun unpack_fields :: "field list \<Rightarrow> byte list \<Rightarrow> sval list" where
  "unpack_fields [] bs = []"
| "unpack_fields (f # fs) bs =
     unpack_field f (take (field_size f) bs) # unpack_fields fs (drop (field_size f) bs)"

text \<open>\<open>struct.unpack\<close> wants a buffer of exactly the format's size, \<open>struct.unpack_from\<close> at
  least that many bytes from the offset on.\<close>

definition struct_unpack :: "field list \<Rightarrow> byte list \<Rightarrow> sval list res" where
  "struct_unpack fmt bs =
     (if length bs = calcsize fmt then Inr (unpack_fields fmt bs) else Inl StructError)"

definition struct_unpack_from :: "field list \<Rightarrow> byte list \<Rightarrow> nat \<Rightarrow> sval list res" where
  "struct_unpack_from fmt bs off =
     (if off + calcsize fmt \<le> length bs then Inr (unpack_fields fmt (drop off bs))
      else Inl StructError)"

section \<open>Round trips\<close>

text \<open>The arguments a format accepts and gives back unchanged.\<close>

fun field_val_ok :: "field \<Rightarrow> sval \<Rightarrow> bool" where
  "field_val_ok (FS n) (SBytes bs) = (length bs = n)"
| "field_val_ok (FS n) _ = False"
| "field_val_ok f (SInt v) = (0 \<le> v \<and> v < 256 ^ field_size f)"
| "field_val_ok f _ = False"

lemma pack_field_length: "pack_field f v = Inr b \<Longrightarrow> length b = field_size f"
  by (cases f; cases v) (auto split: if_splits)

lemma struct_pack_length: "struct_pack fmt vs = Inr bs \<Longrightarrow> length bs = calcsize fmt"
  by (induction fmt vs arbitrary: bs rule: struct_pack.induct)
    (auto simp: res_simps pack_field_length)

lemma pack_field_ok: "field_val_ok f v \<Longrightarrow> \<exists>b. pack_field f v = Inr b \<and> unpack_field f b = v"
  by (cases f; cases v) (auto simp: le_int_le_bytes uint_byte_of_int)

lemma pack_field_Inr_int:
  "pack_field f (SInt v) = Inr b \<Longrightarrow> field_val_ok f (SInt v)"
  by (cases f) (auto split: if_splits)

text \<open>Packing succeeds on acceptable arguments, and unpacking gives them back.\<close>

lemma struct_pack_total:
  "list_all2 field_val_ok fmt vs \<Longrightarrow> \<exists>bs. struct_pack fmt vs = Inr bs"
proof (induction fmt vs rule: list_all2_induct)
  case Nil
  then show ?case by simp
next
  case (Cons f fs v vs)
  then show ?case using pack_field_ok [of f v] by auto
qed

lemma unpack_fields_pack:
  "list_all2 field_val_ok fmt vs \<Longrightarrow> struct_pack fmt vs = Inr bs \<Longrightarrow>
   unpack_fields fmt (bs @ rest) = vs"
proof (induction fmt vs arbitrary: bs rule: list_all2_induct)
  case Nil
  then show ?case by simp
next
  case (Cons f fs v vs)
  from Cons.prems obtain b bs' where b: "pack_field f v = Inr b"
    and bs': "struct_pack fs vs = Inr bs'" and bs: "bs = b @ bs'"
    by (auto simp: res_simps)
  from pack_field_ok [OF Cons.hyps(1)] b have "unpack_field f b = v" by auto
  moreover have "length b = field_size f" using b by (rule pack_field_length)
  ultimately show ?case using Cons.IH [OF bs'] bs by simp
qed

lemma struct_unpack_pack:
  assumes "list_all2 field_val_ok fmt vs" and "struct_pack fmt vs = Inr bs"
  shows "struct_unpack fmt bs = Inr vs"
  using unpack_fields_pack [OF assms, of "[]"] struct_pack_length [OF assms(2)]
  by (simp add: struct_unpack_def)

lemma struct_unpack_from_pack:
  assumes "list_all2 field_val_ok fmt vs" and "struct_pack fmt vs = Inr bs"
    and "length pre = off"
  shows "struct_unpack_from fmt (pre @ bs @ rest) off = Inr vs"
  using unpack_fields_pack [OF assms(1,2), of rest] struct_pack_length [OF assms(2)] assms(3)
  by (simp add: struct_unpack_from_def)

text \<open>The unsigned range of a 64-bit field, which the client's keys must lie in.\<close>

definition is_u64 :: "int \<Rightarrow> bool" where
  "is_u64 v \<longleftrightarrow> 0 \<le> v \<and> v < 2 ^ 64"

definition is_u32 :: "int \<Rightarrow> bool" where
  "is_u32 v \<longleftrightarrow> 0 \<le> v \<and> v < 2 ^ 32"

lemma pow256_8: "(256::int) ^ 8 = 2 ^ 64" and pow256_4: "(256::int) ^ 4 = 2 ^ 32"
  by simp_all

lemma field_val_ok_u64 [simp]: "field_val_ok FQ (SInt v) \<longleftrightarrow> is_u64 v"
  by (simp add: is_u64_def)

lemma field_val_ok_u32 [simp]: "field_val_ok FI (SInt v) \<longleftrightarrow> is_u32 v"
  by (simp add: is_u32_def)

lemma pack_u64 [codec_simps]:
  "pack_field FQ (SInt v) = (if is_u64 v then Inr (le_bytes 8 v) else Inl StructError)"
  by (simp add: is_u64_def)

lemma pack_u32 [codec_simps]:
  "pack_field FI (SInt v) = (if is_u32 v then Inr (le_bytes 4 v) else Inl StructError)"
  by (simp add: is_u32_def)

lemma le_int_u64: "length bs = 8 \<Longrightarrow> is_u64 (le_int bs)"
  using le_int_bound [of bs] by (simp add: is_u64_def)

lemma le_int_u32: "length bs = 4 \<Longrightarrow> is_u32 (le_int bs)"
  using le_int_bound [of bs] by (simp add: is_u32_def)

end
