(* ===== verification/Db_Datatypes.thy ===== *)
theory Db_Datatypes
  imports Wire_Format
begin

text \<open>
  The data model of \<open>client/db_datatypes.py\<close>: the frozen dataclasses exchanged between the
  router, the client and the benchmarks. Equality of the dataclasses is field by field, which
  is equality of the HOL records.
\<close>

record node =
  cluster_name :: string
  node_id :: int
  host :: string
  port :: int

text \<open>
  The content of a record is any Python object. What the client distinguishes is an instance
  of \<open>int\<close>, an object that is not but that \<open>struct\<close> converts through \<open>__index__\<close>, a byte
  string (which reading a record may give), and anything else.
\<close>

datatype content = CInt int | CIndex int | CBytes "byte list" | COther

record db_record =
  key_id :: int
  timestamp :: int
  content :: content

record query_request =
  min_id :: int
  min_ts :: int
  max_id :: int
  max_ts :: int
  query_id :: int

record batch_metrics =
  bm_send_time_ms :: int
  bm_ack_recv_time_ms :: int
  bm_record_count :: int
  bm_batch_bytes :: int

text \<open>Times of a read request are values of \<open>time.time() * 1000\<close>: finite binary fractions, kept
  as rationals and only compared or subtracted.\<close>

record read_request_metrics =
  rm_query_id :: int
  rm_req_id :: int
  rm_send_time_ms :: rat
  rm_recv_time_ms :: rat
  rm_record_count :: int
  rm_records_bytes :: int

text \<open>The topology handed to \<open>connect\<close> and \<open>update_topology\<close>: a dictionary from cluster names
  to node lists, in the order of the configuration file.\<close>

type_synonym clusters = "(string, node list) dict"

text \<open>A topology as the command-line tools build it: the nodes filed under a name carry it.\<close>

definition clusters_ok :: "clusters \<Rightarrow> bool" where
  "clusters_ok cs \<longleftrightarrow> dict_ok cs \<and> (\<forall>(c, ns) \<in> set cs. \<forall>n \<in> set ns. cluster_name n = c)"

lemma clusters_okD:
  "clusters_ok cs \<Longrightarrow> (c, ns) \<in> set cs \<Longrightarrow> n \<in> set ns \<Longrightarrow> cluster_name n = c"
  by (auto simp: clusters_ok_def)

lemma clusters_ok_dict [intro]: "clusters_ok cs \<Longrightarrow> dict_ok cs"
  by (simp add: clusters_ok_def)

end
