(* ===== verification/Router.thy ===== *)
theory Router
  imports Db_Datatypes
begin

text \<open>
  \<open>client/router.py\<close>: the leader registry. Every operation holds the registry's lock for its
  whole body, so the calls of any number of threads take effect one after the other: a history
  is a list of operations.
\<close>

section \<open>LeaderRegistry\<close>

text \<open>A cleared cluster keeps its key with the value \<open>None\<close>; \<open>get\<close> cannot tell it from a missing
  key.\<close>

type_synonym registry = "string \<rightharpoonup> node option"

definition empty_registry :: registry where
  "empty_registry = Map.empty"

definition set_leader :: "registry \<Rightarrow> node \<Rightarrow> registry" where
  "set_leader reg n = reg(cluster_name n \<mapsto> Some n)"

definition get_leader :: "registry \<Rightarrow> string \<Rightarrow> node option" where
  "get_leader reg c = (case reg c of None \<Rightarrow> None | Some l \<Rightarrow> l)"

definition clear_leader :: "registry \<Rightarrow> node \<Rightarrow> registry" where
  "clear_leader reg n = reg(cluster_name n \<mapsto> None)"

definition clear_cluster_leader :: "registry \<Rightarrow> string \<Rightarrow> registry" where
  "clear_cluster_leader reg c = reg(c \<mapsto> None)"

text \<open>A leader is always filed under its own cluster's name.\<close>

definition registry_ok :: "registry \<Rightarrow> bool" where
  "registry_ok reg \<longleftrightarrow> (\<forall>c l. get_leader reg c = Some l \<longrightarrow> cluster_name l = c)"

lemma registry_okD: "registry_ok reg \<Longrightarrow> get_leader reg c = Some l \<Longrightarrow> cluster_name l = c"
  by (simp add: registry_ok_def)

lemma get_leader_simps [simp]:
  "get_leader empty_registry c = None"
  "get_leader (set_leader reg n) c = (if c = cluster_name n then Some n else get_leader reg c)"
  "get_leader (clear_leader reg n) c = (if c = cluster_name n then None else get_leader reg c)"
  "get_leader (clear_cluster_leader reg d) c = (if c = d then None else get_leader reg c)"
  by (simp_all add: get_leader_def set_leader_def clear_leader_def clear_cluster_leader_def
      empty_registry_def)

lemma registry_ok_ops [simp, intro]:
  "registry_ok empty_registry"
  "registry_ok reg \<Longrightarrow> registry_ok (set_leader reg n)"
  "registry_ok reg \<Longrightarrow> registry_ok (clear_leader reg n)"
  "registry_ok reg \<Longrightarrow> registry_ok (clear_cluster_leader reg c)"
  by (simp_all add: registry_ok_def)

section \<open>What a history of operations leaves\<close>

datatype registry_op = SetLeader node | ClearLeader node | ClearCluster string

fun op_cluster :: "registry_op \<Rightarrow> string" where
  "op_cluster (SetLeader n) = cluster_name n"
| "op_cluster (ClearLeader n) = cluster_name n"
| "op_cluster (ClearCluster c) = c"

fun op_value :: "registry_op \<Rightarrow> node option" where
  "op_value (SetLeader n) = Some n"
| "op_value (ClearLeader n) = None"
| "op_value (ClearCluster c) = None"

fun registry_step :: "registry \<Rightarrow> registry_op \<Rightarrow> registry" where
  "registry_step reg (SetLeader n) = set_leader reg n"
| "registry_step reg (ClearLeader n) = clear_leader reg n"
| "registry_step reg (ClearCluster c) = clear_cluster_leader reg c"

text \<open>The abstract directory: the last operation on a cluster decides its leader.\<close>

definition last_value :: "registry_op list \<Rightarrow> string \<Rightarrow> node option" where
  "last_value ops c = (case find (\<lambda>op. op_cluster op = c) (rev ops) of
     None \<Rightarrow> None | Some op \<Rightarrow> op_value op)"

locale leader_directory =
  fixes empty :: 'r
    and lookup :: "'r \<Rightarrow> string \<Rightarrow> node option"
    and step :: "'r \<Rightarrow> registry_op \<Rightarrow> 'r"
  assumes lookup_empty: "lookup empty c = None"
    and lookup_step: "lookup (step r op) c = (if c = op_cluster op then op_value op else lookup r c)"
begin

lemma lookup_history: "lookup (foldl step empty ops) c = last_value ops c"
proof (induction ops rule: rev_induct)
  case Nil
  then show ?case by (simp add: lookup_empty last_value_def)
next
  case (snoc op ops)
  then show ?case by (auto simp: lookup_step last_value_def)
qed

text \<open>Whatever the history, a known leader was set by an operation on its own cluster.\<close>

lemma lookup_history_set: "lookup (foldl step empty ops) c = Some n \<Longrightarrow>
    SetLeader n \<in> set ops \<and> cluster_name n = c"
  unfolding lookup_history last_value_def
  by (auto split: option.splits dest!: find_SomeD elim!: op_value.elims)

end

interpretation reg: leader_directory empty_registry get_leader registry_step
proof unfold_locales
  fix r op c
  show "get_leader (registry_step r op) c = (if c = op_cluster op then op_value op else get_leader r c)"
    by (cases op) simp_all
qed simp

lemma registry_step_ok: "registry_ok reg \<Longrightarrow> registry_ok (registry_step reg op)"
  by (cases op) auto

end
