(* ===== verification/Record_Codec.thy ===== *)
theory Record_Codec
  imports Db_Datatypes
begin

text \<open>
  The message formats of \<open>client/dbclient.py\<close>: the write frames built by
  \<open>_serialize_batch\<close>, the 40-byte query request, the 61-byte response header and the record
  list of a response body read by \<open>_parse_response\<close>.
\<close>

section \<open>Protocol constants\<close>

definition LSMT_TYPE_INT :: int where
  "LSMT_TYPE_INT = 1"

definition QUERY_REQ_FMT :: "field list" where
  "QUERY_REQ_FMT = [FQ, FS 16, FS 16]"

definition QUERY_REQ_SIZE :: nat where
  "QUERY_REQ_SIZE = 40"

definition QUERY_RESP_HEADER_FMT :: "field list" where
  "QUERY_RESP_HEADER_FMT = [FQ, FQ, FB, FS 16, FS 16, FQ, FI]"

definition QUERY_RESP_HEADER_SIZE :: nat where
  "QUERY_RESP_HEADER_SIZE = 61"

text \<open>The size constants the code spells out are the sizes of the formats.\<close>

lemma header_sizes [simp]:
  "calcsize QUERY_REQ_FMT = QUERY_REQ_SIZE"
  "calcsize QUERY_RESP_HEADER_FMT = QUERY_RESP_HEADER_SIZE"
  by (simp_all add: QUERY_REQ_FMT_def QUERY_REQ_SIZE_def QUERY_RESP_HEADER_FMT_def
      QUERY_RESP_HEADER_SIZE_def)

section \<open>Write frames\<close>

fun content_sval :: "content \<Rightarrow> sval" where
  "content_sval (CInt v) = SInt v"
| "content_sval (CIndex v) = SInt v"
| "content_sval (CBytes bs) = SBytes bs"
| "content_sval COther = SObj"

definition serialize_int :: "db_record \<Rightarrow> int \<Rightarrow> byte list res" where
  "serialize_int r v =
     struct_pack [FI, FQ, FQ, FB, FI, FQ]
       [SInt 33, SInt (key_id r), SInt (timestamp r), SInt LSMT_TYPE_INT, SInt 8, SInt v]"

definition serialize_other :: "db_record \<Rightarrow> byte list res" where
  "serialize_other r =
     bind_res (struct_pack [FB, FI, FQ] [SInt LSMT_TYPE_INT, SInt 8, content_sval (content r)])
       (\<lambda>inner_payload. bind_res (struct_pack [FQ, FQ] [SInt (key_id r), SInt (timestamp r)])
         (\<lambda>outer. let outer_payload = outer @ inner_payload;
                       msg_size = 4 + int (length outer_payload)
                   in bind_res (struct_pack [FI] [SInt msg_size])
                        (\<lambda>size. Inr (size @ outer_payload))))"

definition serialize_record :: "db_record \<Rightarrow> byte list res" where
  "serialize_record r = (case content r of CInt v \<Rightarrow> serialize_int r v | _ \<Rightarrow> serialize_other r)"

definition serialize_batch :: "db_record list \<Rightarrow> byte list res" where
  "serialize_batch batch = bind_res (map_res serialize_record batch) (\<lambda>bs. Inr (concat bs))"

text \<open>A record is encodable when its key and its integer content fit 64 bits, and the frame it
  then has.\<close>

fun content_u64 :: "content \<Rightarrow> int option" where
  "content_u64 (CInt v) = (if is_u64 v then Some v else None)"
| "content_u64 (CIndex v) = (if is_u64 v then Some v else None)"
| "content_u64 _ = None"

definition encodable :: "db_record \<Rightarrow> bool" where
  "encodable r \<longleftrightarrow> is_u64 (key_id r) \<and> is_u64 (timestamp r) \<and> content_u64 (content r) \<noteq> None"

definition write_frame :: "db_record \<Rightarrow> byte list" where
  "write_frame r = le_bytes 4 33 @ le_bytes 8 (key_id r) @ le_bytes 8 (timestamp r) @ le_bytes 1 1 @
     le_bytes 4 8 @ le_bytes 8 (the (content_u64 (content r)))"

lemma length_write_frame [simp]: "length (write_frame r) = 33"
  by (simp add: write_frame_def)

lemma write_frame_content:
  "content_u64 (content r) = Some v \<Longrightarrow> write_frame (r\<lparr>content := CInt v\<rparr>) = write_frame r"
  by (cases "content r") (auto simp: write_frame_def split: if_splits)

lemma small_u32 [simp]: "is_u32 8" "is_u32 33"
  by (simp_all add: is_u32_def)

lemma pack_u8_1: "pack_field FB (SInt 1) = Inr (le_bytes 1 1)"
  and pack_u32_8: "pack_field FI (SInt 8) = Inr (le_bytes 4 8)"
  and pack_u32_33: "pack_field FI (SInt 33) = Inr (le_bytes 4 33)"
  by (simp_all)

lemmas pack_consts [codec_simps] = pack_u8_1 pack_u32_8 pack_u32_33

lemma serialize_int_eq:
  "serialize_int r v =
     (if is_u64 (key_id r) \<and> is_u64 (timestamp r) \<and> is_u64 v
      then Inr (write_frame (r\<lparr>content := CInt v\<rparr>)) else Inl StructError)"
  by (simp add: serialize_int_def LSMT_TYPE_INT_def write_frame_def codec_simps
      del: pack_field.simps le_bytes.simps)

lemma serialize_other_int:
  "content_sval (content r) = SInt v \<Longrightarrow> serialize_other r = serialize_int r v"
  by (simp add: serialize_other_def serialize_int_def LSMT_TYPE_INT_def codec_simps Let_def
      del: pack_field.simps le_bytes.simps)

lemma serialize_other_not_int:
  "(\<forall>v. content_sval (content r) \<noteq> SInt v) \<Longrightarrow> serialize_other r = Inl StructError"
  by (cases "content_sval (content r)")
    (simp_all add: serialize_other_def LSMT_TYPE_INT_def codec_simps del: le_bytes.simps)

lemma serialize_record_eq:
  "serialize_record r = (if encodable r then Inr (write_frame r) else Inl StructError)"
proof (cases "content r")
  case (CInt v)
  then show ?thesis
    by (simp add: serialize_record_def serialize_int_eq encodable_def write_frame_content)
next
  case (CIndex v)
  then show ?thesis
    by (simp add: serialize_record_def serialize_other_int serialize_int_eq encodable_def
        write_frame_content)
next
  case (CBytes bs)
  then show ?thesis
    by (simp add: serialize_record_def serialize_other_not_int encodable_def)
next
  case COther
  then show ?thesis
    by (simp add: serialize_record_def serialize_other_not_int encodable_def)
qed

lemma serialize_batch_eq:
  "serialize_batch batch =
     (if \<forall>r \<in> set batch. encodable r then Inr (concat (map write_frame batch)) else Inl StructError)"
proof (induction batch)
  case Nil
  then show ?case by (simp add: serialize_batch_def)
next
  case (Cons r batch)
  have "serialize_batch (r # batch) =
      bind_res (serialize_record r) (\<lambda>b. bind_res (serialize_batch batch) (\<lambda>bs. Inr (b @ bs)))"
    by (simp add: serialize_batch_def bind_res_assoc)
  with Cons.IH show ?case by (simp add: serialize_record_eq)
qed

lemma length_concat_frames: "length (concat (map write_frame batch)) = 33 * length batch"
  by (induction batch) auto

section \<open>Query requests\<close>

definition pack_key :: "int \<Rightarrow> int \<Rightarrow> byte list res" where
  "pack_key k ts = struct_pack [FQ, FQ] [SInt k, SInt ts]"

definition encode_query :: "int \<Rightarrow> query_request \<Rightarrow> byte list res" where
  "encode_query req_id q =
     bind_res (pack_key (min_id q) (min_ts q)) (\<lambda>start_key.
     bind_res (pack_key (max_id q) (max_ts q)) (\<lambda>end_key.
       struct_pack QUERY_REQ_FMT [SInt req_id, SBytes start_key, SBytes end_key]))"

definition unpack_key :: "byte list \<Rightarrow> (int \<times> int) res" where
  "unpack_key bs = bind_res (struct_unpack [FQ, FQ] bs)
     (\<lambda>vs. case vs of [SInt k, SInt ts] \<Rightarrow> Inr (k, ts) | _ \<Rightarrow> Inl ValueError)"

definition key_bytes :: "int \<Rightarrow> int \<Rightarrow> byte list" where
  "key_bytes k ts = le_bytes 8 k @ le_bytes 8 ts"

lemma length_key_bytes [simp]: "length (key_bytes k ts) = 16"
  by (simp add: key_bytes_def)

lemma pack_key_eq [codec_simps]:
  "pack_key k ts = (if is_u64 k \<and> is_u64 ts then Inr (key_bytes k ts) else Inl StructError)"
  by (simp add: pack_key_def key_bytes_def codec_simps del: pack_field.simps)

lemma unpack_key_bytes [codec_simps]:
  "is_u64 k \<Longrightarrow> is_u64 ts \<Longrightarrow> unpack_key (key_bytes k ts) = Inr (k, ts)"
  by (simp add: unpack_key_def key_bytes_def struct_unpack_def le_int_le_bytes is_u64_def)

lemma unpack_key_total:
  "length bs = 16 \<Longrightarrow>
     unpack_key bs = Inr (le_int (take 8 bs), le_int (drop 8 bs))"
  by (simp add: unpack_key_def struct_unpack_def)

definition query_u64 :: "query_request \<Rightarrow> bool" where
  "query_u64 q \<longleftrightarrow> is_u64 (min_id q) \<and> is_u64 (min_ts q) \<and> is_u64 (max_id q) \<and> is_u64 (max_ts q)"

lemma encode_query_eq:
  "encode_query req_id q =
     (if is_u64 req_id \<and> query_u64 q
      then Inr (le_bytes 8 req_id @ key_bytes (min_id q) (min_ts q) @ key_bytes (max_id q) (max_ts q))
      else Inl StructError)"
  by (auto simp: encode_query_def QUERY_REQ_FMT_def query_u64_def codec_simps is_u64_def
      simp del: le_bytes.simps)

end
