(* ===== verification/Py_Float.thy ===== *)
theory Py_Float
  imports Prelude "HOL-Library.Log_Nat"
begin

text \<open>
  Floating point. First the one computation a routing decision rests on: \<open>math.ceil(a / b)\<close> on Python
  integers. \<open>a / b\<close> is the exact quotient rounded to 53 significant bits, ties to even, and
  raises \<open>ZeroDivisionError\<close> and, beyond the largest double, \<open>OverflowError\<close>; \<open>math.ceil\<close> is
  exact. The mantissa and the exponent are computed as integers. (Quotients below the smallest
  normal double would need a divisor above \<open>2 ^ 1022\<close> and are not distinguished.) Then the rounding of
  any rational result to a double, with which the arithmetic of times and percentiles is written.
\<close>

section \<open>The rounded quotient\<close>

definition round_half_even :: "int \<Rightarrow> int \<Rightarrow> int" where
  "round_half_even n d =
     (let q = n div d; r = n mod d
      in if 2 * r < d then q else if d < 2 * r then q + 1 else if even q then q else q + 1)"

text \<open>The exponent \<open>e\<close> for which the mantissa of \<open>a / b\<close> lies in \<open>[2 ^ 52, 2 ^ 53)\<close> before
  rounding, for positive arguments.\<close>

definition shift_le :: "int \<Rightarrow> int \<Rightarrow> int \<Rightarrow> bool" where
  "shift_le a b k = (if 0 \<le> k then b * 2 ^ nat k \<le> a else b \<le> a * 2 ^ nat (- k))"

definition fdiv_exp :: "int \<Rightarrow> int \<Rightarrow> int" where
  "fdiv_exp a b =
     (let k = bitlen a - bitlen b in (if shift_le a b k then k else k - 1) - 52)"

definition fdiv_mant :: "int \<Rightarrow> int \<Rightarrow> int" where
  "fdiv_mant a b =
     (let e = fdiv_exp a b
      in if 0 \<le> e then round_half_even a (b * 2 ^ nat e) else round_half_even (a * 2 ^ nat (- e)) b)"

definition ceil_div :: "int \<Rightarrow> int \<Rightarrow> int" where
  "ceil_div a b = - ((- a) div b)"

text \<open>Ceiling and floor of the positive double \<open>fdiv_mant a b * 2 powr fdiv_exp a b\<close>.\<close>

definition ceil_pos :: "int \<Rightarrow> int \<Rightarrow> int" where
  "ceil_pos a b =
     (let e = fdiv_exp a b; m = fdiv_mant a b
      in if 0 \<le> e then m * 2 ^ nat e else ceil_div m (2 ^ nat (- e)))"

definition floor_pos :: "int \<Rightarrow> int \<Rightarrow> int" where
  "floor_pos a b =
     (let e = fdiv_exp a b; m = fdiv_mant a b
      in if 0 \<le> e then m * 2 ^ nat e else m div 2 ^ nat (- e))"

definition fdiv_overflows :: "int \<Rightarrow> int \<Rightarrow> bool" where
  "fdiv_overflows a b \<longleftrightarrow> 0 \<le> fdiv_exp a b \<and> 2 ^ 1024 \<le> fdiv_mant a b * 2 ^ nat (fdiv_exp a b)"

definition ceil_truediv :: "int \<Rightarrow> int \<Rightarrow> int res" where
  "ceil_truediv a b =
     (if b = 0 then Inl ZeroDivisionError
      else if a = 0 then Inr 0
      else if fdiv_overflows \<bar>a\<bar> \<bar>b\<bar> then Inl OverflowError
      else if 0 < a \<longleftrightarrow> 0 < b then Inr (ceil_pos \<bar>a\<bar> \<bar>b\<bar>)
      else Inr (- floor_pos \<bar>a\<bar> \<bar>b\<bar>))"

section \<open>Exactness below two to the 53\<close>

lemma round_half_even_error:
  assumes d: "0 < d"
  shows "2 * (round_half_even n d * d - n) \<le> d \<and> 2 * (n - round_half_even n d * d) \<le> d"
proof -
  define q r where "q = n div d" and "r = n mod d"
  have n: "n = q * d + r" by (simp add: q_def r_def)
  have "0 \<le> r" "r < d" using d by (simp_all add: r_def)
  moreover have "round_half_even n d =
      (if 2 * r < d then q else if d < 2 * r then q + 1 else if even q then q else q + 1)"
    by (simp add: round_half_even_def Let_def q_def r_def)
  ultimately show ?thesis by (simp add: n distrib_right split: if_splits)
qed

lemma bitlen_lower: "0 < a \<Longrightarrow> 2 ^ nat (bitlen a - 1) \<le> a"
  using bitlen_bounds [of a] by simp

lemma bitlen_upper: "0 < a \<Longrightarrow> a < 2 ^ nat (bitlen a)"
  using bitlen_bounds [of a] by simp

text \<open>Before rounding, the mantissa is at least \<open>2 ^ 52\<close>.\<close>

lemma shift_le_pred:
  assumes "0 < a" and "0 < b"
  shows "shift_le a b (bitlen a - bitlen b - 1)"
proof -
  let ?la = "nat (bitlen a - 1)" and ?lb = "nat (bitlen b)"
  have a: "2 ^ ?la \<le> a" and b: "b \<le> 2 ^ ?lb"
    using bitlen_lower [OF assms(1)] bitlen_upper [OF assms(2)] by simp_all
  have pos: "0 < bitlen a" "0 < bitlen b"
    using assms bitlen_eq_zero_iff [of a] bitlen_eq_zero_iff [of b] bitlen_nonneg [of a]
      bitlen_nonneg [of b] by linarith+
  show ?thesis
  proof (cases "0 \<le> bitlen a - bitlen b - 1")
    case True
    then have "?la = ?lb + nat (bitlen a - bitlen b - 1)" using pos by simp
    then have "(2::int) ^ ?la = 2 ^ ?lb * 2 ^ nat (bitlen a - bitlen b - 1)"
      by (simp add: power_add)
    then have "2 ^ ?lb * 2 ^ nat (bitlen a - bitlen b - 1) \<le> a"
      using a by simp
    moreover have "b * 2 ^ nat (bitlen a - bitlen b - 1) \<le> 2 ^ ?lb * 2 ^ nat (bitlen a - bitlen b - 1)"
      by (rule mult_right_mono [OF b]) simp
    ultimately have "b * 2 ^ nat (bitlen a - bitlen b - 1) \<le> a"
      by (rule order_trans [rotated])
    then show ?thesis using True by (simp add: shift_le_def)
  next
    case False
    then have "?lb = ?la + nat (- (bitlen a - bitlen b - 1))" using pos by simp
    then have "(2::int) ^ ?lb = 2 ^ ?la * 2 ^ nat (- (bitlen a - bitlen b - 1))"
      by (simp add: power_add)
    then have "b \<le> 2 ^ ?la * 2 ^ nat (- (bitlen a - bitlen b - 1))"
      using b by simp
    moreover have "2 ^ ?la * 2 ^ nat (- (bitlen a - bitlen b - 1)) \<le> a * 2 ^ nat (- (bitlen a - bitlen b - 1))"
      by (rule mult_right_mono [OF a]) simp
    ultimately have "b \<le> a * 2 ^ nat (- (bitlen a - bitlen b - 1))"
      by (rule order_trans)
    then show ?thesis using False by (simp add: shift_le_def)
  qed
qed

lemma fdiv_exp_normal: "0 < a \<Longrightarrow> 0 < b \<Longrightarrow> shift_le a b (fdiv_exp a b + 52)"
  using shift_le_pred [of a b] by (simp add: fdiv_exp_def Let_def)

lemma fdiv_mant_lower:
  assumes "0 < a" "0 < b" "fdiv_exp a b \<le> 0"
  shows "2 ^ 52 * b \<le> a * 2 ^ nat (- fdiv_exp a b)"
proof (cases "0 \<le> fdiv_exp a b + 52")
  case True
  let ?s = "nat (- fdiv_exp a b)"
  have s: "(52::nat) = nat (fdiv_exp a b + 52) + ?s" using True assms(3) by simp
  have "b * 2 ^ nat (fdiv_exp a b + 52) \<le> a"
    using fdiv_exp_normal [OF assms(1,2)] True by (simp add: shift_le_def)
  then have "b * 2 ^ nat (fdiv_exp a b + 52) * 2 ^ ?s \<le> a * 2 ^ ?s" by simp
  moreover have "(2::int) ^ 52 = 2 ^ nat (fdiv_exp a b + 52) * 2 ^ ?s"
    by (subst s) (simp add: power_add)
  ultimately show ?thesis by (simp only: ac_simps)
next
  case False
  let ?k = "nat (- (fdiv_exp a b + 52))"
  have s: "nat (- fdiv_exp a b) = 52 + ?k" using False by simp
  have "b \<le> a * 2 ^ ?k"
    using fdiv_exp_normal [OF assms(1,2)] False by (simp add: shift_le_def)
  then have "2 ^ 52 * b \<le> 2 ^ 52 * (a * 2 ^ ?k)" by simp
  then show ?thesis unfolding s by (simp add: power_add mult.commute mult.left_commute)
qed

lemma fdiv_exp_small_quotient:
  assumes "0 < a" "0 < b" "a < 2 ^ 53 * b"
  shows "fdiv_exp a b \<le> 0"
proof (rule ccontr)
  assume "\<not> ?thesis"
  then have e: "1 \<le> fdiv_exp a b" by simp
  have "b * 2 ^ nat (fdiv_exp a b + 52) \<le> a"
    using fdiv_exp_normal [OF assms(1,2)] e by (simp add: shift_le_def)
  moreover have "b * 2 ^ 53 \<le> b * 2 ^ nat (fdiv_exp a b + 52)"
    using e assms(2) by (intro mult_left_mono power_increasing) simp_all
  moreover have "a < b * 2 ^ 53" using assms(3) by (simp only: mult.commute)
  ultimately show False by (meson leD le_less_trans order_trans)
qed

lemma fdiv_exp_small:
  assumes "0 < a" "0 < b" "a < 2 ^ 53"
  shows "fdiv_exp a b \<le> 0"
proof (rule fdiv_exp_small_quotient [OF assms(1,2)])
  have "(2::int) ^ 53 * 1 \<le> 2 ^ 53 * b" using assms(2) by (intro mult_left_mono) simp_all
  then show "a < 2 ^ 53 * b" using assms(3) by linarith
qed

lemma ceil_div_unique:
  assumes "0 < b" "(k - 1) * b < a" "a \<le> k * b"
  shows "ceil_div a b = k"
proof -
  have "(- a) div b = - k"
    by (rule int_div_pos_eq [where r = "k * b - a"]) (use assms in \<open>simp_all add: algebra_simps\<close>)
  then show ?thesis by (simp add: ceil_div_def)
qed

lemma ceil_div_bounds:
  assumes "0 < b"
  shows "(ceil_div a b - 1) * b < a" and "a \<le> ceil_div a b * b"
proof -
  define q r where "q = (- a) div b" and "r = (- a) mod b"
  have a: "a = - (q * b + r)" by (simp add: q_def r_def)
  have "0 \<le> r" "r < b" using assms by (simp_all add: r_def)
  then show "(ceil_div a b - 1) * b < a" "a \<le> ceil_div a b * b"
    unfolding ceil_div_def q_def [symmetric] a by (simp_all add: algebra_simps)
qed

text \<open>
  Rounding cannot carry the quotient across an integer: the quotient is at least \<open>1 / b\<close> away
  from the integer below it, and rounding moves it by less.
\<close>

lemma round_stays_above:
  fixes m :: int
  assumes err: "2 * (m * b - a * t) \<le> b \<and> 2 * (a * t - m * b) \<le> b" and b: "0 < b" and t: "b < 2 * t"
    and k: "(k - 1) * b + 1 \<le> a"
  shows "(k - 1) * t < m"
proof (rule ccontr)
  assume "\<not> ?thesis"
  then have "m * b \<le> (k - 1) * t * b" using b by simp
  moreover have "((k - 1) * b + 1) * t \<le> a * t" using k t b by (intro mult_right_mono) auto
  ultimately have "t \<le> a * t - m * b" by (simp add: algebra_simps)
  then have "2 * t \<le> 2 * (a * t - m * b)" by (rule mult_left_mono) simp
  then have "2 * t \<le> b" using err [THEN conjunct2] by (rule order_trans)
  then show False using t by simp
qed

lemma round_stays_below:
  fixes m :: int
  assumes err: "2 * (m * b - a * t) \<le> b \<and> 2 * (a * t - m * b) \<le> b" and b: "0 < b" and t: "0 < t" and k: "a \<le> k * b"
  shows "m \<le> k * t"
proof (rule ccontr)
  assume "\<not> ?thesis"
  then have "(k * t + 1) * b \<le> m * b" using b by (intro mult_right_mono) auto
  moreover have "a * t \<le> k * b * t" using k t by (intro mult_right_mono) auto
  ultimately have "b \<le> m * b - a * t" by (simp add: algebra_simps)
  then have "2 * b \<le> 2 * (m * b - a * t)" by (rule mult_left_mono) simp
  then have "2 * b \<le> b" using err [THEN conjunct1] by (rule order_trans)
  then show False using b by simp
qed

lemma ceil_pos_exact:
  assumes a: "0 < a" "a < 2 ^ 53" and b: "0 < b"
  shows "ceil_pos a b = ceil_div a b"
proof -
  let ?e = "fdiv_exp a b" and ?m = "fdiv_mant a b" and ?k = "ceil_div a b"
  define t :: int where "t = 2 ^ nat (- ?e)"
  have e: "?e \<le> 0" using a b by (intro fdiv_exp_small)
  have t: "0 < t" by (simp add: t_def)
  have m: "?m = round_half_even (a * t) b"
    using e by (auto simp: fdiv_mant_def t_def Let_def)
  have err: "2 * (?m * b - a * t) \<le> b \<and> 2 * (a * t - ?m * b) \<le> b"
    unfolding m using round_half_even_error [OF b, of "a * t"] .
  have "2 ^ 52 * b \<le> a * t" using fdiv_mant_lower [OF a(1) b e] by (simp add: t_def)
  also have "a * t < 2 ^ 53 * t" using a(2) t by (rule mult_strict_right_mono)
  finally have bt: "b < 2 * t" by simp
  have "(?k - 1) * t < ?m"
    using err b bt by (rule round_stays_above) (use ceil_div_bounds(1) [OF b, of a] in linarith)
  moreover have "?m \<le> ?k * t"
    using err b t ceil_div_bounds(2) [OF b] by (rule round_stays_below)
  ultimately have "ceil_div ?m t = ?k" using t by (intro ceil_div_unique)
  then show ?thesis using e by (auto simp: ceil_pos_def t_def Let_def ceil_div_def)
qed

lemma fdiv_no_overflow: "0 < a \<Longrightarrow> a < 2 ^ 53 \<Longrightarrow> 0 < b \<Longrightarrow> \<not> fdiv_overflows a b"
proof
  assume a: "0 < a" "a < 2 ^ 53" and b: "0 < b" and ov: "fdiv_overflows a b"
  have "fdiv_exp a b = 0" using fdiv_exp_small [OF a(1) b a(2)] ov by (simp add: fdiv_overflows_def)
  then have "ceil_pos a b = fdiv_mant a b" and "2 ^ 1024 \<le> fdiv_mant a b"
    using ov by (simp_all add: ceil_pos_def fdiv_overflows_def)
  then have "2 ^ 1024 \<le> ceil_div a b" using ceil_pos_exact [OF a b] by simp
  moreover have "ceil_div a b \<le> a"
  proof (rule ccontr)
    assume "\<not> ?thesis"
    then have "a * b \<le> (ceil_div a b - 1) * b" using b by (intro mult_right_mono) auto
    moreover have "a \<le> a * b" using a b by simp
    ultimately show False using ceil_div_bounds(1) [OF b, of a] by linarith
  qed
  ultimately have "(2::int) ^ 1024 < 2 ^ 53" using a(2) by linarith
  then show False by simp
qed

text \<open>For a positive dividend below \<open>2 ^ 53\<close> the rounding of \<open>/\<close> is invisible.\<close>

lemma ceil_truediv_exact:
  "0 < a \<Longrightarrow> a < 2 ^ 53 \<Longrightarrow> 0 < b \<Longrightarrow> ceil_truediv a b = Inr (ceil_div a b)"
  by (simp add: ceil_truediv_def fdiv_no_overflow ceil_pos_exact)

section \<open>Rounding to a double\<close>

text \<open>
  The double nearest to a rational, ties to even: what Python's \<open>+\<close>, \<open>-\<close>, \<open>*\<close> and \<open>/\<close> on floats make of
  the exact result. Results beyond the largest double and below the smallest normal one are not
  distinguished.
\<close>

definition round_pos :: "int \<Rightarrow> int \<Rightarrow> rat" where
  "round_pos a b =
     (let e = fdiv_exp a b; m = fdiv_mant a b
      in if 0 \<le> e then of_int m * 2 ^ nat e else of_int m / 2 ^ nat (- e))"

definition rnd :: "rat \<Rightarrow> rat" where
  "rnd x = (case quotient_of x of (a, b) \<Rightarrow>
     if a = 0 then 0 else if 0 < a then round_pos a b else - round_pos (- a) b)"

lemma rnd_0 [simp]: "rnd 0 = 0"
  by (simp add: rnd_def quotient_of_number)

lemma round_stays_above_int:
  fixes m :: int
  assumes err: "2 * (m * b - a * t) \<le> b \<and> 2 * (a * t - m * b) \<le> b" and b: "0 < b" and t: "0 < t" and k: "k * b \<le> a"
  shows "k * t \<le> m"
proof (rule ccontr)
  assume "\<not> ?thesis"
  then have "m * b \<le> (k * t - 1) * b" using b by (intro mult_right_mono) auto
  moreover have "k * b * t \<le> a * t" using k t by (intro mult_right_mono) auto
  ultimately have "b \<le> a * t - m * b" by (simp add: algebra_simps)
  then have "2 * b \<le> 2 * (a * t - m * b)" by (rule mult_left_mono) simp
  then have "2 * b \<le> b" using err [THEN conjunct2] by (rule order_trans)
  then show False using b by simp
qed

text \<open>Rounding never crosses an integer that is a double.\<close>

lemma round_pos_between:
  assumes a: "0 < a" and b: "0 < b" and j: "j * b \<le> a" and k: "a \<le> k * b" and small: "k < 2 ^ 53"
  shows "of_int j \<le> round_pos a b" and "round_pos a b \<le> of_int k"
proof -
  let ?e = "fdiv_exp a b" and ?m = "fdiv_mant a b"
  define t :: int where "t = 2 ^ nat (- ?e)"
  have "k * b < 2 ^ 53 * b" using small b by (rule mult_strict_right_mono)
  then have e: "?e \<le> 0" using a b k by (intro fdiv_exp_small_quotient) linarith+
  have t: "0 < t" by (simp add: t_def)
  have m: "?m = round_half_even (a * t) b" using e by (auto simp: fdiv_mant_def t_def Let_def)
  have err: "2 * (?m * b - a * t) \<le> b \<and> 2 * (a * t - ?m * b) \<le> b"
    unfolding m using round_half_even_error [OF b, of "a * t"] .
  have r: "round_pos a b = of_int ?m / of_int t" using e by (auto simp: round_pos_def t_def Let_def)
  have "j * t \<le> ?m" using err b t j by (rule round_stays_above_int)
  then have "(of_int (j * t) :: rat) \<le> of_int ?m" by (simp only: of_int_le_iff)
  then show "of_int j \<le> round_pos a b" using t by (simp add: r pos_le_divide_eq)
  have "?m \<le> k * t" using err b t k by (rule round_stays_below)
  then have "(of_int ?m :: rat) \<le> of_int (k * t)" by (simp only: of_int_le_iff)
  then show "round_pos a b \<le> of_int k" using t by (simp add: r pos_divide_le_eq)
qed

lemma rnd_between:
  assumes "of_int j \<le> x" and "x \<le> of_int k" and "0 \<le> j" and "k < 2 ^ 53"
  shows "of_int j \<le> rnd x" and "rnd x \<le> of_int k"
proof -
  obtain a b where q: "quotient_of x = (a, b)" by force
  have b: "0 < b" and x: "x = of_int a / of_int b"
    using q by (rule quotient_of_denom_pos) (use q in \<open>rule quotient_of_div\<close>)
  have "(of_int (j * b) :: rat) \<le> of_int a" "(of_int a :: rat) \<le> of_int (k * b)"
    using assms(1,2) b by (simp_all add: x pos_le_divide_eq pos_divide_le_eq)
  then have jk: "j * b \<le> a" "a \<le> k * b" by (simp_all only: of_int_le_iff)
  have "0 \<le> j * b" using assms(3) b by simp
  then have a: "0 \<le> a" using jk(1) by linarith
  show "of_int j \<le> rnd x" "rnd x \<le> of_int k"
    using round_pos_between [OF _ b jk assms(4)] a assms(1,2) unfolding rnd_def q
    by (auto simp: x)
qed

lemma rnd_int: "0 \<le> k \<Longrightarrow> k < 2 ^ 53 \<Longrightarrow> rnd (of_int k) = of_int k"
  using rnd_between [of k "of_int k" k] by (intro antisym) simp_all

text \<open>A double is a rational that rounding leaves alone.\<close>

definition is_double :: "rat \<Rightarrow> bool" where
  "is_double x \<longleftrightarrow> rnd x = x"

end
