(* ===== verification/Routing_Strats.thy ===== *)
theory Routing_Strats
  imports Router Record_Codec Py_Float
begin

text \<open>
  \<open>client/routing_strats.py\<close>: the four routing strategies. A call takes the strategy's state and
  gives its result and the state after it; each call takes its lock around its one access to
  the shared counters, so the calls of several threads are a sequence.
\<close>

section \<open>Follower selection\<close>

type_synonym indices = "string \<rightharpoonup> int"

definition followers_of :: "node list \<Rightarrow> node option \<Rightarrow> node list" where
  "followers_of nodes leader = filter (\<lambda>n. Some n \<noteq> leader) nodes"

definition first_or_none :: "node list \<Rightarrow> node option" where
  "first_or_none nodes = (case nodes of [] \<Rightarrow> None | n # _ \<Rightarrow> Some n)"

definition leader_or_first :: "node option \<Rightarrow> node list \<Rightarrow> node option" where
  "leader_or_first leader nodes = (case leader of Some l \<Rightarrow> Some l | None \<Rightarrow> first_or_none nodes)"

definition select_follower ::
  "string \<Rightarrow> node list \<Rightarrow> node option \<Rightarrow> indices \<Rightarrow> node option \<times> indices" where
  "select_follower c nodes leader indices =
     (let followers = followers_of nodes leader in
      if followers = [] then (leader_or_first leader nodes, indices)
      else let idx = (case indices c of None \<Rightarrow> 0 | Some i \<Rightarrow> i);
               n = int (length followers)
           in (Some (followers ! nat (idx mod n)), indices(c \<mapsto> (idx + 1) mod n)))"

section \<open>Strategy objects\<close>

record base_strategy =
  query_indices :: indices

record range_strategy = base_strategy +
  max_keyspace :: int

record rr_strategy = base_strategy +
  counter :: int

definition new_base :: base_strategy where
  "new_base = \<lparr>query_indices = Map.empty\<rparr>"

definition new_range :: "int \<Rightarrow> range_strategy" where
  "new_range m = \<lparr>query_indices = Map.empty, max_keyspace = m\<rparr>"

definition new_rr :: rr_strategy where
  "new_rr = \<lparr>query_indices = Map.empty, counter = 0\<rparr>"

definition cluster_names :: "clusters \<Rightarrow> string list" where
  "cluster_names cs = sort (dict_keys cs)"

text \<open>The common tail of every \<open>get_node_insert\<close>: the leader of the target cluster, else its first
  node, else \<open>None\<close>.\<close>

definition insert_tail :: "registry \<Rightarrow> clusters \<Rightarrow> string \<Rightarrow> node option res" where
  "insert_tail reg cs target =
     bind_res (dict_index cs target) (\<lambda>nodes. Inr (leader_or_first (get_leader reg target) nodes))"

section \<open>RangeRoutingStrategy\<close>

definition range_target :: "int \<Rightarrow> int \<Rightarrow> clusters \<Rightarrow> string res" where
  "range_target keyspace key cs =
     (let names = cluster_names cs; num = int (length names) in
      bind_res (ceil_truediv keyspace num) (\<lambda>chunk_size.
      bind_res (py_div (max 0 (key - 1)) chunk_size) (\<lambda>i.
        py_index names (min i (num - 1)))))"

definition range_insert ::
  "range_strategy \<Rightarrow> db_record \<Rightarrow> registry \<Rightarrow> clusters \<Rightarrow> node option res \<times> range_strategy" where
  "range_insert s r reg cs =
     (bind_res (range_target (max_keyspace s) (key_id r) cs) (insert_tail reg cs), s)"

datatype bound = NegInf | Fin int | PosInf

fun le_bound :: "int \<Rightarrow> bound \<Rightarrow> bool" where
  "le_bound i PosInf = True"
| "le_bound i (Fin j) = (i \<le> j)"
| "le_bound i NegInf = False"

fun ge_bound :: "int \<Rightarrow> bound \<Rightarrow> bool" where
  "ge_bound i NegInf = True"
| "ge_bound i (Fin j) = (i \<ge> j)"
| "ge_bound i PosInf = False"

definition range_low :: "int \<Rightarrow> int \<Rightarrow> bound" where
  "range_low idx chunk_size = (if idx = 0 then NegInf else Fin (idx * chunk_size + 1))"

definition range_high :: "int \<Rightarrow> int \<Rightarrow> int \<Rightarrow> bound" where
  "range_high idx num chunk_size = (if idx = num - 1 then PosInf else Fin ((idx + 1) * chunk_size))"

text \<open>The overlap test of the query's interval with the cluster's.\<close>

definition range_hit :: "query_request \<Rightarrow> int \<Rightarrow> int \<Rightarrow> int \<Rightarrow> bool" where
  "range_hit q chunk_size num idx \<longleftrightarrow>
     le_bound (min_id q) (range_high idx num chunk_size) \<and> ge_bound (max_id q) (range_low idx chunk_size)"

fun range_loop :: "query_request \<Rightarrow> registry \<Rightarrow> clusters \<Rightarrow> int \<Rightarrow> int \<Rightarrow> int \<Rightarrow> string list \<Rightarrow> indices \<Rightarrow>
    node list res \<times> indices" where
  "range_loop q reg cs chunk_size num idx [] ind = (Inr [], ind)"
| "range_loop q reg cs chunk_size num idx (c # names) ind =
     (if range_hit q chunk_size num idx
      then (case dict_index cs c of
              Inl e \<Rightarrow> (Inl e, ind)
            | Inr nodes \<Rightarrow>
                (case select_follower c nodes (get_leader reg c) ind of (selected, ind') \<Rightarrow>
                  (case range_loop q reg cs chunk_size num (idx + 1) names ind' of (rest, ind'') \<Rightarrow>
                    (bind_res rest (\<lambda>ns. Inr (case selected of None \<Rightarrow> ns | Some n \<Rightarrow> n # ns)), ind''))))
      else range_loop q reg cs chunk_size num (idx + 1) names ind)"

definition range_query ::
  "range_strategy \<Rightarrow> query_request \<Rightarrow> registry \<Rightarrow> clusters \<Rightarrow> node list res \<times> range_strategy" where
  "range_query s q reg cs =
     (let names = cluster_names cs; num = int (length names) in
      if num = 0 then (Inr [], s)
      else case ceil_truediv (max_keyspace s) num of
             Inl e \<Rightarrow> (Inl e, s)
           | Inr chunk_size \<Rightarrow>
               (case range_loop q reg cs chunk_size num 0 names (query_indices s) of (ns, ind) \<Rightarrow>
                 (ns, s\<lparr>query_indices := ind\<rparr>)))"

section \<open>The query loop of the other strategies\<close>

text \<open>Hash, round-robin and leader routing ask one node of every cluster, in the order of the
  topology.\<close>

fun query_all :: "registry \<Rightarrow> clusters \<Rightarrow> indices \<Rightarrow> node list \<times> indices" where
  "query_all reg [] ind = ([], ind)"
| "query_all reg ((c, nodes) # cs) ind =
     (case select_follower c nodes (get_leader reg c) ind of (selected, ind') \<Rightarrow>
       (case query_all reg cs ind' of (ns, ind'') \<Rightarrow>
         (case selected of None \<Rightarrow> ns | Some n \<Rightarrow> n # ns, ind'')))"

definition query_every ::
  "'a base_strategy_scheme \<Rightarrow> query_request \<Rightarrow> registry \<Rightarrow> clusters \<Rightarrow>
     node list res \<times> 'a base_strategy_scheme" where
  "query_every s q reg cs =
     (case query_all reg cs (query_indices s) of (ns, ind) \<Rightarrow> (Inr ns, s\<lparr>query_indices := ind\<rparr>))"

section \<open>HashRoutingStrategy\<close>

text \<open>The digest function (\<open>hashlib.md5\<close>) is a parameter: nothing here depends on which function
  of the 16 key bytes it is.\<close>

definition be_int :: "byte list \<Rightarrow> int" where
  "be_int bs = le_int (rev bs)"

definition hash_target :: "(byte list \<Rightarrow> byte list) \<Rightarrow> int \<Rightarrow> int \<Rightarrow> clusters \<Rightarrow> string res" where
  "hash_target digest key ts cs =
     bind_res (pack_key key ts) (\<lambda>val.
       let h = be_int (digest val); names = cluster_names cs in
       bind_res (py_mod h (int (length names))) (\<lambda>i. py_index names i))"

definition hash_insert ::
  "(byte list \<Rightarrow> byte list) \<Rightarrow> base_strategy \<Rightarrow> db_record \<Rightarrow> registry \<Rightarrow> clusters \<Rightarrow>
     node option res \<times> base_strategy" where
  "hash_insert digest s r reg cs =
     (bind_res (hash_target digest (key_id r) (timestamp r) cs) (insert_tail reg cs), s)"

definition hash_query ::
  "base_strategy \<Rightarrow> query_request \<Rightarrow> registry \<Rightarrow> clusters \<Rightarrow> node list res \<times> base_strategy" where
  [simp]: "hash_query s q reg cs = query_every s q reg cs"

section \<open>RoundRobinRoutingStrategy\<close>

definition rr_insert ::
  "rr_strategy \<Rightarrow> db_record \<Rightarrow> registry \<Rightarrow> clusters \<Rightarrow> node option res \<times> rr_strategy" where
  "rr_insert s r reg cs =
     (let names = cluster_names cs in
      if names = [] then (Inr None, s)
      else (bind_res (bind_res (py_mod (counter s) (int (length names))) (\<lambda>i. py_index names i))
              (insert_tail reg cs),
            s\<lparr>counter := counter s + 1\<rparr>))"

definition rr_query ::
  "rr_strategy \<Rightarrow> query_request \<Rightarrow> registry \<Rightarrow> clusters \<Rightarrow> node list res \<times> rr_strategy" where
  [simp]: "rr_query s q reg cs = query_every s q reg cs"

section \<open>LeaderRoutingStrategy\<close>

definition leader_insert ::
  "base_strategy \<Rightarrow> db_record \<Rightarrow> registry \<Rightarrow> clusters \<Rightarrow> node option res \<times> base_strategy" where
  "leader_insert s r reg cs =
     (let names = cluster_names cs in
      (bind_res (bind_res (py_mod (key_id r) (int (length names))) (\<lambda>i. py_index names i))
         (insert_tail reg cs), s))"

definition leader_query ::
  "base_strategy \<Rightarrow> query_request \<Rightarrow> registry \<Rightarrow> clusters \<Rightarrow> node list res \<times> base_strategy" where
  [simp]: "leader_query s q reg cs = query_every s q reg cs"

section \<open>Dispatch, and the Router\<close>

datatype routing_strategy =
    RangeRouting range_strategy
  | HashRouting base_strategy
  | RoundRobinRouting rr_strategy
  | LeaderRouting base_strategy

fun get_node_insert ::
  "(byte list \<Rightarrow> byte list) \<Rightarrow> routing_strategy \<Rightarrow> db_record \<Rightarrow> registry \<Rightarrow> clusters \<Rightarrow>
     node option res \<times> routing_strategy" where
  "get_node_insert digest (RangeRouting s) r reg cs = map_prod id RangeRouting (range_insert s r reg cs)"
| "get_node_insert digest (HashRouting s) r reg cs = map_prod id HashRouting (hash_insert digest s r reg cs)"
| "get_node_insert digest (RoundRobinRouting s) r reg cs =
     map_prod id RoundRobinRouting (rr_insert s r reg cs)"
| "get_node_insert digest (LeaderRouting s) r reg cs = map_prod id LeaderRouting (leader_insert s r reg cs)"

fun get_node_query ::
  "routing_strategy \<Rightarrow> query_request \<Rightarrow> registry \<Rightarrow> clusters \<Rightarrow> node list res \<times> routing_strategy" where
  "get_node_query (RangeRouting s) q reg cs = map_prod id RangeRouting (range_query s q reg cs)"
| "get_node_query (HashRouting s) q reg cs = map_prod id HashRouting (hash_query s q reg cs)"
| "get_node_query (RoundRobinRouting s) q reg cs = map_prod id RoundRobinRouting (rr_query s q reg cs)"
| "get_node_query (LeaderRouting s) q reg cs = map_prod id LeaderRouting (leader_query s q reg cs)"

record router =
  strategy :: routing_strategy
  topology :: clusters
  leaders :: registry

definition new_router :: "routing_strategy \<Rightarrow> router" where
  "new_router s = \<lparr>strategy = s, topology = [], leaders = empty_registry\<rparr>"

definition update_topology :: "router \<Rightarrow> clusters \<Rightarrow> router" where
  "update_topology r cs = r\<lparr>topology := cs\<rparr>"

definition router_insert ::
  "(byte list \<Rightarrow> byte list) \<Rightarrow> router \<Rightarrow> db_record \<Rightarrow> node option res \<times> router" where
  "router_insert digest r rec =
     (case get_node_insert digest (strategy r) rec (leaders r) (topology r) of (res, s) \<Rightarrow>
       (res, r\<lparr>strategy := s\<rparr>))"

definition router_query :: "router \<Rightarrow> query_request \<Rightarrow> node list res \<times> router" where
  "router_query r q =
     (case get_node_query (strategy r) q (leaders r) (topology r) of (res, s) \<Rightarrow>
       (res, r\<lparr>strategy := s\<rparr>))"

end
