(* ===== verification/Routing_Contract.thy ===== *)
theory Routing_Contract
  imports Routing_Strats
begin

text \<open>
  What the client relies on when it routes: the contract between \<open>get_node_insert\<close> and
  \<open>get_node_query\<close> of one strategy, and the session property that follows from it. A session
  mixes inserts, queries and leader changes in any order; the clusters themselves stay.
\<close>

section \<open>Sessions\<close>

definition topology_ok :: "clusters \<Rightarrow> bool" where
  "topology_ok cs \<longleftrightarrow> clusters_ok cs \<and> cs \<noteq> [] \<and> (\<forall>(c, ns) \<in> set cs. ns \<noteq> [])"

definition in_key_range :: "query_request \<Rightarrow> db_record \<Rightarrow> bool" where
  "in_key_range q r \<longleftrightarrow> min_id q \<le> key_id r \<and> key_id r \<le> max_id q"

datatype route_event = Insert db_record | Query query_request | Leader registry_op

text \<open>The log holds each routed record with the cluster it was sent to.\<close>

type_synonym 's session = "'s \<times> registry \<times> (db_record \<times> string) list"

fun route_step ::
  "('s \<Rightarrow> db_record \<Rightarrow> registry \<Rightarrow> clusters \<Rightarrow> node option res \<times> 's) \<Rightarrow>
   ('s \<Rightarrow> query_request \<Rightarrow> registry \<Rightarrow> clusters \<Rightarrow> node list res \<times> 's) \<Rightarrow>
   clusters \<Rightarrow> 's session \<Rightarrow> route_event \<Rightarrow> 's session" where
  "route_step ins qry cs (s, reg, routed) (Insert r) =
     (case ins s r reg cs of (res, s') \<Rightarrow>
       (s', reg, case res of Inr (Some n) \<Rightarrow> (r, cluster_name n) # routed | _ \<Rightarrow> routed))"
| "route_step ins qry cs (s, reg, routed) (Query q) = (snd (qry s q reg cs), reg, routed)"
| "route_step ins qry cs (s, reg, routed) (Leader op) = (s, registry_step reg op, routed)"

section \<open>The contract\<close>

locale routing_contract =
  fixes ins :: "'s \<Rightarrow> db_record \<Rightarrow> registry \<Rightarrow> clusters \<Rightarrow> node option res \<times> 's"
    and qry :: "'s \<Rightarrow> query_request \<Rightarrow> registry \<Rightarrow> clusters \<Rightarrow> node list res \<times> 's"
    and ok :: "'s \<Rightarrow> bool"
    and accepts :: "'s \<Rightarrow> db_record \<Rightarrow> bool"
    and same :: "'s \<Rightarrow> 's \<Rightarrow> bool"
  assumes ins_total: "ok s \<Longrightarrow> accepts s r \<Longrightarrow> topology_ok cs \<Longrightarrow> \<exists>n. fst (ins s r reg cs) = Inr (Some n)"
    and ins_leader: "ok s \<Longrightarrow> topology_ok cs \<Longrightarrow> registry_ok reg \<Longrightarrow>
      fst (ins s r reg cs) = Inr (Some n) \<Longrightarrow>
      \<exists>ns. (cluster_name n, ns) \<in> set cs \<and>
        (case get_leader reg (cluster_name n) of Some l \<Rightarrow> n = l | None \<Rightarrow> n = hd ns)"
    and qry_total: "ok s \<Longrightarrow> topology_ok cs \<Longrightarrow> registry_ok reg \<Longrightarrow> \<exists>ns. fst (qry s q reg cs) = Inr ns"
    and qry_clusters: "ok s \<Longrightarrow> topology_ok cs \<Longrightarrow> registry_ok reg \<Longrightarrow> fst (qry s q reg cs) = Inr ns \<Longrightarrow>
      distinct (map cluster_name ns) \<and> cluster_name ` set ns \<subseteq> set (dict_keys cs)"
    and covers: "ok s \<Longrightarrow> ok s' \<Longrightarrow> same s s' \<Longrightarrow> topology_ok cs \<Longrightarrow> registry_ok reg \<Longrightarrow> registry_ok reg' \<Longrightarrow>
      fst (ins s r reg cs) = Inr (Some n) \<Longrightarrow> in_key_range q r \<Longrightarrow>
      fst (qry s' q reg' cs) = Inr ns \<Longrightarrow> cluster_name n \<in> cluster_name ` set ns"
    and ins_keeps: "ok s \<Longrightarrow> ok (snd (ins s r reg cs)) \<and> same s (snd (ins s r reg cs))"
    and qry_keeps: "ok s \<Longrightarrow> ok (snd (qry s q reg cs)) \<and> same s (snd (qry s q reg cs))"
    and same_refl: "same s s"
    and same_trans: "same s1 s2 \<Longrightarrow> same s2 s3 \<Longrightarrow> same s1 s3"
begin

text \<open>What holds of every state a session reaches: the registry files leaders under their own
  cluster, and each logged record was placed by some earlier state of the same configuration.\<close>

definition placed :: "'s \<Rightarrow> clusters \<Rightarrow> db_record \<times> string \<Rightarrow> bool" where
  "placed s0 cs p \<longleftrightarrow> (\<exists>s reg n. ok s \<and> same s0 s \<and> registry_ok reg \<and>
     fst (ins s (fst p) reg cs) = Inr (Some n) \<and> cluster_name n = snd p)"

definition session_ok :: "'s \<Rightarrow> clusters \<Rightarrow> 's session \<Rightarrow> bool" where
  "session_ok s0 cs S \<longleftrightarrow> ok (fst S) \<and> same s0 (fst S) \<and> registry_ok (fst (snd S)) \<and>
     (\<forall>p \<in> set (snd (snd S)). placed s0 cs p)"

lemma placedI:
  "ok s \<Longrightarrow> same s0 s \<Longrightarrow> registry_ok reg \<Longrightarrow> fst (ins s r reg cs) = Inr (Some n) \<Longrightarrow>
   placed s0 cs (r, cluster_name n)"
  by (auto simp: placed_def)

lemma route_step_inv:
  assumes "session_ok s0 cs S"
  shows "session_ok s0 cs (route_step ins qry cs S ev)"
proof -
  obtain s reg routed where S: "S = (s, reg, routed)" by (cases S) auto
  with assms have s: "ok s" "same s0 s" "registry_ok reg" by (simp_all add: session_ok_def)
  show ?thesis
  proof (cases ev)
    case (Insert r)
    obtain res s' where i: "ins s r reg cs = (res, s')" by (cases "ins s r reg cs")
    then have "ok s'" "same s s'" using ins_keeps [OF s(1), of r reg cs] by simp_all
    moreover have "same s0 s'" using s(2) \<open>same s s'\<close> by (rule same_trans)
    moreover have "placed s0 cs (r, cluster_name n)" if "res = Inr (Some n)" for n
      using s i that by (intro placedI [of s s0 reg]) simp_all
    ultimately show ?thesis
      using assms S Insert i by (auto simp: session_ok_def split: sum.splits option.splits)
  next
    case (Query q)
    then show ?thesis
      using assms S qry_keeps [OF s(1), of q reg cs] by (auto simp: session_ok_def intro: same_trans)
  next
    case (Leader op)
    then show ?thesis using assms S by (auto simp: session_ok_def registry_step_ok)
  qed
qed

lemma session_inv:
  assumes "ok s0" "registry_ok reg0"
  shows "session_ok s0 cs (foldl (route_step ins qry cs) (s0, reg0, []) evs)"
proof (induction evs rule: rev_induct)
  case Nil
  then show ?case using assms same_refl by (simp add: session_ok_def)
next
  case (snoc ev evs)
  then show ?case by (simp add: route_step_inv)
qed

end

text \<open>Read-your-writes at the level of clusters: whatever happened between, a query whose key
  range holds a record asks the cluster the record was sent to. The configuration relation
  \<open>same\<close> must be an equivalence for it, which is one more law.\<close>

locale routing_session = routing_contract +
  assumes same_sym: "same s1 s2 \<Longrightarrow> same s2 s1"
begin

lemma session_query_covers:
  assumes "topology_ok cs" "ok s0" "registry_ok reg0"
    and run: "foldl (route_step ins qry cs) (s0, reg0, []) evs = (s, reg, routed)"
    and rc: "(r, c) \<in> set routed" and q: "in_key_range q r"
  shows "\<exists>ns. fst (qry s q reg cs) = Inr ns \<and> c \<in> cluster_name ` set ns"
proof -
  have inv: "session_ok s0 cs (s, reg, routed)"
    using session_inv [OF assms(2,3), of cs evs] run by simp
  with rc obtain s1 reg1 n where ins: "ok s1" "same s0 s1" "registry_ok reg1"
    "fst (ins s1 r reg1 cs) = Inr (Some n)" and c: "cluster_name n = c"
    by (fastforce simp: session_ok_def placed_def)
  have s: "ok s" "same s0 s" "registry_ok reg" using inv by (simp_all add: session_ok_def)
  obtain ns where ns: "fst (qry s q reg cs) = Inr ns"
    using qry_total [OF s(1) assms(1) s(3)] by blast
  have "same s1 s" using same_sym [OF ins(2)] s(2) by (rule same_trans)
  then have "cluster_name n \<in> cluster_name ` set ns"
    using covers [OF ins(1) s(1) _ assms(1) ins(3) s(3) ins(4) q ns] by blast
  with ns c show ?thesis by blast
qed

end

end
