(* ===== verification/Routing_Props.thy ===== *)
theory Routing_Props
  imports Routing_Contract
begin

text \<open>
  The strategies of \<open>client/routing_strats.py\<close> satisfy the routing contract: facts about
  follower selection, the query loops and the insert targets, the interpretations of the
  contract on the four strategies and on their dispatch, and the properties.
\<close>

section \<open>Follower selection\<close>

lemma followers_of_set: "n \<in> set (followers_of nodes leader) \<longleftrightarrow> n \<in> set nodes \<and> Some n \<noteq> leader"
  by (simp add: followers_of_def)

lemma follower_index:
  assumes "followers \<noteq> []"
  shows "nat (idx mod int (length followers)) < length followers"
  using assms by (simp add: nat_less_iff)

lemma select_follower_some:
  "nodes \<noteq> [] \<Longrightarrow> \<exists>n ind'. select_follower c nodes leader ind = (Some n, ind')"
  by (auto simp: select_follower_def Let_def leader_or_first_def first_or_none_def split: option.splits list.splits)

lemma select_follower_from:
  assumes "fst (select_follower c nodes leader ind) = Some n"
  shows "(n \<in> set nodes \<and> Some n \<noteq> leader) \<or> (followers_of nodes leader = [] \<and> (leader = Some n \<or> n \<in> set nodes))"
proof (cases "followers_of nodes leader = []")
  case True
  with assms show ?thesis
    by (auto simp: select_follower_def leader_or_first_def first_or_none_def split: option.splits list.splits)
next
  case False
  with assms have "n \<in> set (followers_of nodes leader)"
    by (auto simp: select_follower_def Let_def intro!: nth_mem follower_index)
  then show ?thesis by (simp add: followers_of_set)
qed

lemma select_follower_cluster:
  assumes "fst (select_follower c nodes (get_leader reg c) ind) = Some n"
    and "registry_ok reg" and "\<forall>m \<in> set nodes. cluster_name m = c"
  shows "cluster_name n = c"
  using select_follower_from [OF assms(1)] assms(2,3) by (auto dest: registry_okD)

section \<open>The query loops\<close>

text \<open>With no cluster empty, the loop over every cluster asks exactly one node of each.\<close>

lemma query_all_clusters:
  assumes "registry_ok reg" and "\<forall>(c, ns) \<in> set cs. ns \<noteq> [] \<and> (\<forall>n \<in> set ns. cluster_name n = c)"
  shows "map cluster_name (fst (query_all reg cs ind)) = dict_keys cs"
  using assms(2)
proof (induction cs arbitrary: ind)
  case Nil
  then show ?case by simp
next
  case (Cons p cs)
  obtain c ns where p: "p = (c, ns)" by (cases p)
  obtain n ind' where sel: "select_follower c ns (get_leader reg c) ind = (Some n, ind')"
    using select_follower_some [of ns c "get_leader reg c" ind] Cons.prems p by auto
  then have "cluster_name n = c"
    using select_follower_cluster [of c ns reg ind n] assms(1) Cons.prems p by simp
  with sel p Cons.IH [of ind'] Cons.prems show ?case
    by (auto split: prod.splits)
qed

lemma query_all_followers:
  assumes "registry_ok reg" and "\<forall>(c, ns) \<in> set cs. ns \<noteq> [] \<and> (\<forall>n \<in> set ns. cluster_name n = c)"
    and "n \<in> set (fst (query_all reg cs ind))"
  shows "\<exists>nodes. (cluster_name n, nodes) \<in> set cs \<and>
    (n \<in> set (followers_of nodes (get_leader reg (cluster_name n))) \<or>
     followers_of nodes (get_leader reg (cluster_name n)) = [])"
  using assms(2,3)
proof (induction cs arbitrary: ind)
  case Nil
  then show ?case by simp
next
  case (Cons p cs)
  obtain c ns where p: "p = (c, ns)" by (cases p)
  obtain m ind' where sel: "select_follower c ns (get_leader reg c) ind = (Some m, ind')"
    using select_follower_some [of ns c "get_leader reg c" ind] Cons.prems p by auto
  then have m: "cluster_name m = c" "m \<in> set (followers_of ns (get_leader reg c)) \<or>
      followers_of ns (get_leader reg c) = []"
    using select_follower_cluster [of c ns reg ind m] select_follower_from [of c ns "get_leader reg c" ind m]
      assms(1) Cons.prems p by (auto simp: followers_of_set)
  have "n = m \<or> n \<in> set (fst (query_all reg cs ind'))"
    using Cons.prems(2) sel p by (auto split: prod.splits)
  then show ?case
  proof
    assume "n = m"
    then show ?thesis using m p by auto
  next
    assume "n \<in> set (fst (query_all reg cs ind'))"
    then show ?thesis using Cons.IH [of ind'] Cons.prems(1) by auto
  qed
qed

text \<open>The clusters a range query hits, in the order of the loop.\<close>

fun range_hits :: "query_request \<Rightarrow> int \<Rightarrow> int \<Rightarrow> int \<Rightarrow> string list \<Rightarrow> string list" where
  "range_hits q chunk_size num idx [] = []"
| "range_hits q chunk_size num idx (c # names) =
     (if range_hit q chunk_size num idx then c # range_hits q chunk_size num (idx + 1) names
      else range_hits q chunk_size num (idx + 1) names)"

lemma range_hits_subset: "set (range_hits q chunk_size num idx names) \<subseteq> set names"
  by (induction names arbitrary: idx) (auto split: if_splits)

lemma range_hits_distinct: "distinct names \<Longrightarrow> distinct (range_hits q chunk_size num idx names)"
  using range_hits_subset by (induction names arbitrary: idx) (fastforce split: if_splits)+

lemma range_hits_nth:
  "j < length names \<Longrightarrow> range_hit q chunk_size num (idx + int j) \<Longrightarrow>
   names ! j \<in> set (range_hits q chunk_size num idx names)"
proof (induction names arbitrary: idx j)
  case Nil
  then show ?case by simp
next
  case (Cons c names)
  show ?case
  proof (cases j)
    case 0
    with Cons.prems show ?thesis by simp
  next
    case (Suc i)
    with Cons.prems Cons.IH [of i "idx + 1"] show ?thesis by (auto simp: algebra_simps)
  qed
qed

lemma range_loop_clusters:
  assumes "registry_ok reg" and "clusters_ok cs" and "\<forall>(c, ns) \<in> set cs. ns \<noteq> []"
    and "set names \<subseteq> set (dict_keys cs)"
  shows "\<exists>ns. fst (range_loop q reg cs chunk_size num idx names ind) = Inr ns \<and>
    map cluster_name ns = range_hits q chunk_size num idx names"
  using assms(4)
proof (induction names arbitrary: idx ind)
  case Nil
  then show ?case by simp
next
  case (Cons c names)
  show ?case
  proof (cases "range_hit q chunk_size num idx")
    case False
    then show ?thesis using Cons by simp
  next
    case True
    obtain nodes where nodes: "dict_index cs c = Inr nodes" "(c, nodes) \<in> set cs"
      using dict_index_key [of c cs] Cons.prems by auto
    then have "nodes \<noteq> []" using assms(3) by auto
    then obtain n ind' where sel: "select_follower c nodes (get_leader reg c) ind = (Some n, ind')"
      using select_follower_some [of nodes c "get_leader reg c" ind] by blast
    have c: "cluster_name n = c"
      using select_follower_cluster [of c nodes reg ind n] sel nodes assms(1,2)
      by (auto dest: clusters_okD)
    obtain ns where ns: "fst (range_loop q reg cs chunk_size num (idx + 1) names ind') = Inr ns"
      "map cluster_name ns = range_hits q chunk_size num (idx + 1) names"
      using Cons.IH [of "idx + 1" ind'] Cons.prems by auto
    then show ?thesis using True nodes sel c
      by (auto split: prod.splits)
  qed
qed

section \<open>Insert targets\<close>

lemma cluster_names_set [simp]: "set (cluster_names cs) = set (dict_keys cs)"
  by (simp add: cluster_names_def)

lemma cluster_names_length [simp]: "length (cluster_names cs) = length cs"
  by (simp add: cluster_names_def)

lemma cluster_names_distinct: "clusters_ok cs \<Longrightarrow> distinct (cluster_names cs)"
  using clusters_ok_dict [of cs] by (simp add: cluster_names_def dict_ok_def)

lemma cluster_names_empty [simp]: "cluster_names cs = [] \<longleftrightarrow> cs = []"
  by (metis cluster_names_length length_0_conv)

lemma topology_okD:
  assumes "topology_ok cs"
  shows "clusters_ok cs" "cs \<noteq> []" "\<forall>(c, ns) \<in> set cs. ns \<noteq> []" "dict_ok cs"
    "\<forall>(c, ns) \<in> set cs. ns \<noteq> [] \<and> (\<forall>n \<in> set ns. cluster_name n = c)"
  using assms by (auto simp: topology_ok_def dest: clusters_okD)

text \<open>The node the common tail gives: the known leader of the target, else its first node.\<close>

lemma insert_tail_some:
  assumes "topology_ok cs" and "c \<in> set (dict_keys cs)"
  shows "\<exists>n ns. insert_tail reg cs c = Inr (Some n) \<and> (c, ns) \<in> set cs \<and>
    n = (case get_leader reg c of Some l \<Rightarrow> l | None \<Rightarrow> hd ns)"
proof -
  obtain ns where ns: "dict_index cs c = Inr ns" "(c, ns) \<in> set cs"
    using dict_index_key [OF assms(2)] by blast
  moreover have "ns \<noteq> []" using ns topology_okD(3) [OF assms(1)] by auto
  ultimately show ?thesis
    by (auto simp: insert_tail_def leader_or_first_def first_or_none_def split: option.splits list.splits)
qed

lemma insert_tail_cluster:
  assumes "topology_ok cs" "registry_ok reg" "c \<in> set (dict_keys cs)"
    and "insert_tail reg cs c = Inr (Some n)"
  shows "cluster_name n = c \<and> (\<exists>ns. (c, ns) \<in> set cs \<and>
    (case get_leader reg c of Some l \<Rightarrow> n = l | None \<Rightarrow> n = hd ns))"
proof -
  obtain ns where ns: "(c, ns) \<in> set cs" "n = (case get_leader reg c of Some l \<Rightarrow> l | None \<Rightarrow> hd ns)"
    using insert_tail_some [OF assms(1,3), of reg] assms(4) by auto
  have "hd ns \<in> set ns" using ns(1) topology_okD(3) [OF assms(1)] by (auto intro: hd_in_set)
  then have "cluster_name (hd ns) = c" using ns(1) topology_okD(1) [OF assms(1)] by (auto dest: clusters_okD)
  then show ?thesis using ns assms(2) by (auto dest: registry_okD split: option.splits)
qed

text \<open>A strategy that computes its target as the cluster at an index in range.\<close>

lemma nth_cluster_name: "0 \<le> i \<Longrightarrow> i < int (length cs) \<Longrightarrow>
    py_index (cluster_names cs) i = Inr (cluster_names cs ! nat i) \<and>
    cluster_names cs ! nat i \<in> set (dict_keys cs)"
  by (metis cluster_names_length cluster_names_set nat_less_iff nth_mem py_index_in_range)

lemma mod_cluster_name:
  assumes "cs \<noteq> []"
  shows "\<exists>c. bind_res (py_mod h (int (length (cluster_names cs)))) (\<lambda>i. py_index (cluster_names cs) i) = Inr c
    \<and> c \<in> set (dict_keys cs)"
  using assms nth_cluster_name [of "h mod int (length cs)" cs] by (auto simp: py_mod_def)

subsection \<open>Range targets\<close>

definition range_index :: "int \<Rightarrow> int \<Rightarrow> int \<Rightarrow> int" where
  "range_index chunk_size num key = min (max 0 (key - 1) div chunk_size) (num - 1)"

definition range_ok :: "range_strategy \<Rightarrow> bool" where
  "range_ok s \<longleftrightarrow> 0 < max_keyspace s \<and> max_keyspace s < 2 ^ 53"

lemma ceil_div_pos: "0 < a \<Longrightarrow> 0 < b \<Longrightarrow> 0 < ceil_div a b"
  using ceil_div_bounds(2) [of b a] by (smt (verit) mult_nonpos_nonneg)

lemma range_index_bounds: "0 < chunk_size \<Longrightarrow> 0 < num \<Longrightarrow>
    0 \<le> range_index chunk_size num key \<and> range_index chunk_size num key < num"
  by (auto simp: range_index_def pos_imp_zdiv_nonneg_iff)

lemma range_target_eq:
  assumes "0 < keyspace" "keyspace < 2 ^ 53" "cs \<noteq> []"
  defines "num \<equiv> int (length cs)"
  shows "range_target keyspace key cs =
    Inr (cluster_names cs ! nat (range_index (ceil_div keyspace num) num key))"
proof -
  have num: "0 < num" using assms by simp
  note chunk = ceil_truediv_exact [OF assms(1,2) num] ceil_div_pos [OF assms(1) num]
  note i = range_index_bounds [OF chunk(2) num, of key]
  show ?thesis
    using chunk nth_cluster_name [of "range_index (ceil_div keyspace num) num key" cs] i
    by (simp add: range_target_def Let_def num_def range_index_def)
qed

text \<open>The interval of the cluster a key is sent to holds the key.\<close>

lemma range_index_hit:
  assumes chunk: "0 < chunk_size" and num: "0 < num" and key: "min_id q \<le> key" "key \<le> max_id q"
  shows "range_hit q chunk_size num (range_index chunk_size num key)"
proof -
  define d where "d = max 0 (key - 1) div chunk_size"
  define m where "m = max 0 (key - 1)"
  have m: "m = d * chunk_size + m mod chunk_size" by (simp add: d_def m_def)
  have "0 \<le> m mod chunk_size" "m mod chunk_size < chunk_size" using chunk by simp_all
  then have lo: "d * chunk_size \<le> m" and hi: "m < (d + 1) * chunk_size"
    using m by (simp_all add: distrib_right)
  have d0: "0 \<le> d" using chunk by (simp add: d_def pos_imp_zdiv_nonneg_iff)
  have high: "key \<le> (d + 1) * chunk_size" using hi by (simp add: m_def)
  have low: "d * chunk_size + 1 \<le> key" if "0 < d"
  proof -
    have "0 < d * chunk_size" using that chunk by simp
    then show ?thesis using lo by (simp add: m_def)
  qed
  show ?thesis
  proof (cases "d \<le> num - 1")
    case True
    then have i: "range_index chunk_size num key = d" by (simp add: range_index_def d_def)
    show ?thesis unfolding i range_hit_def range_high_def range_low_def
      using high low d0 key by auto
  next
    case False
    then have i: "range_index chunk_size num key = num - 1" by (simp add: range_index_def d_def)
    have "(num - 1) * chunk_size \<le> d * chunk_size" using False chunk by (intro mult_right_mono) auto
    then have "(num - 1) * chunk_size + 1 \<le> key" using low False num by linarith
    then show ?thesis unfolding i range_hit_def range_high_def range_low_def
      using key by auto
  qed
qed

section \<open>The contract holds of every strategy\<close>

lemma range_query_eq:
  assumes "topology_ok cs" "registry_ok reg" "range_ok s"
  shows "\<exists>ns. fst (range_query s q reg cs) = Inr ns \<and>
    map cluster_name ns = range_hits q (ceil_div (max_keyspace s) (int (length cs))) (int (length cs)) 0
      (cluster_names cs)"
proof -
  note cs = topology_okD [OF assms(1)]
  have num: "0 < int (length cs)" using cs(2) by simp
  have chunk: "ceil_truediv (max_keyspace s) (int (length cs)) =
      Inr (ceil_div (max_keyspace s) (int (length cs)))"
    using ceil_truediv_exact [OF _ _ num] assms(3) by (simp add: range_ok_def)
  show ?thesis
    using range_loop_clusters [OF assms(2) cs(1,3), of "cluster_names cs" q
        "ceil_div (max_keyspace s) (int (length cs))" "int (length cs)" 0 "query_indices s"] cs(2)
    by (auto simp: range_query_def Let_def chunk split: prod.splits)
qed

lemma range_query_keeps [simp]: "max_keyspace (snd (range_query s q reg cs)) = max_keyspace s"
  by (auto simp: range_query_def Let_def split: sum.splits prod.splits)

lemma query_every_eq:
  assumes "topology_ok cs" "registry_ok reg"
  shows "\<exists>ns. fst (query_every s q reg cs) = Inr ns \<and> map cluster_name ns = dict_keys cs"
  using query_all_clusters [OF assms(2) topology_okD(5) [OF assms(1)], of "query_indices s"]
  by (auto simp: query_every_def split: prod.splits)

lemma same_names_set: "map cluster_name ns = xs \<Longrightarrow> cluster_name ` set ns = set xs"
  by (metis set_map)

lemma range_insert_target:
  assumes "topology_ok cs" "range_ok s"
  defines "num \<equiv> int (length cs)"
  shows "fst (range_insert s r reg cs) = insert_tail reg cs
    (cluster_names cs ! nat (range_index (ceil_div (max_keyspace s) num) num (key_id r)))"
  using range_target_eq [of "max_keyspace s" cs "key_id r"] topology_okD(2) [OF assms(1)] assms(2,3)
  by (simp add: range_insert_def range_ok_def)

lemma range_insert_keeps [simp]: "snd (range_insert s r reg cs) = s"
  by (simp add: range_insert_def)

lemma range_index_cluster:
  fixes key :: int
  assumes "topology_ok cs" "range_ok s"
  defines "num \<equiv> int (length cs)"
  defines "i \<equiv> range_index (ceil_div (max_keyspace s) num) num key"
  shows "0 \<le> i \<and> nat i < length cs \<and> cluster_names cs ! nat i \<in> set (dict_keys cs)"
proof -
  have num: "0 < num" using topology_okD(2) [OF assms(1)] by (simp add: num_def)
  have "0 \<le> i \<and> i < num" unfolding i_def
    using range_index_bounds [OF ceil_div_pos [OF _ num] num] assms(2) by (simp add: range_ok_def)
  then show ?thesis using nth_cluster_name [of i cs] by (simp add: num_def nat_less_iff)
qed

interpretation range_rc: routing_session range_insert range_query range_ok "\<lambda>s r. True"
  "\<lambda>s s'. max_keyspace s = max_keyspace s'"
proof unfold_locales
  fix s r cs reg
  assume "range_ok s" "topology_ok cs"
  then show "\<exists>n. fst (range_insert s r reg cs) = Inr (Some n)"
    using range_index_cluster [of cs s "key_id r"] insert_tail_some [of cs _ reg]
    by (metis range_insert_target)
next
  fix s cs reg r n
  assume "range_ok s" "topology_ok cs" "registry_ok reg" "fst (range_insert s r reg cs) = Inr (Some n)"
  then show "\<exists>ns. (cluster_name n, ns) \<in> set cs \<and>
      (case get_leader reg (cluster_name n) of None \<Rightarrow> n = hd ns | Some l \<Rightarrow> n = l)"
    using range_index_cluster [of cs s "key_id r"] insert_tail_cluster [of cs reg _ n]
    by (metis range_insert_target)
next
  fix s cs reg q
  assume "range_ok s" "topology_ok cs" "registry_ok reg"
  then show "\<exists>ns. fst (range_query s q reg cs) = Inr ns"
    using range_query_eq by blast
next
  fix s cs reg q ns
  assume a: "range_ok s" "topology_ok cs" "registry_ok reg" "fst (range_query s q reg cs) = Inr ns"
  then have "map cluster_name ns = range_hits q (ceil_div (max_keyspace s) (int (length cs)))
      (int (length cs)) 0 (cluster_names cs)"
    using range_query_eq [OF a(2,3,1), of q] by auto
  then show "distinct (map cluster_name ns) \<and> cluster_name ` set ns \<subseteq> set (dict_keys cs)"
    using range_hits_distinct [OF cluster_names_distinct [OF topology_okD(1) [OF a(2)]]]
      range_hits_subset [of q _ _ 0 "cluster_names cs"]
    by (metis cluster_names_set same_names_set)
next
  fix s s' cs reg reg' r n q ns
  assume a: "range_ok s" "range_ok s'" "max_keyspace s = max_keyspace s'" "topology_ok cs"
    "registry_ok reg" "registry_ok reg'" "fst (range_insert s r reg cs) = Inr (Some n)"
    "in_key_range q r" "fst (range_query s' q reg' cs) = Inr ns"
  define num where "num = int (length cs)"
  define i where "i = range_index (ceil_div (max_keyspace s) num) num (key_id r)"
  have num: "0 < num" using topology_okD(2) [OF a(4)] by (simp add: num_def)
  note i = range_index_cluster [OF a(4,1), of "key_id r", folded num_def, folded i_def]
  have "insert_tail reg cs (cluster_names cs ! nat i) = Inr (Some n)"
    using a(7) range_insert_target [OF a(4,1), of r reg] by (simp add: num_def i_def)
  then have "cluster_name n = cluster_names cs ! nat i"
    using insert_tail_cluster [OF a(4,5)] i by blast
  moreover have "range_hit q (ceil_div (max_keyspace s) num) num i"
    unfolding i_def using a(1,8) num
    by (intro range_index_hit) (auto simp: ceil_div_pos range_ok_def in_key_range_def)
  then have "cluster_names cs ! nat i \<in> set (range_hits q (ceil_div (max_keyspace s) num) num 0
      (cluster_names cs))"
    using i by (intro range_hits_nth) auto
  moreover have "map cluster_name ns = range_hits q (ceil_div (max_keyspace s) num) num 0 (cluster_names cs)"
    using range_query_eq [OF a(4,6,2), of q] a(3,9) by (auto simp: num_def)
  ultimately show "cluster_name n \<in> cluster_name ` set ns"
    using same_names_set by metis
qed (auto simp: range_ok_def)

text \<open>The three strategies that ask every cluster: only the insert differs.\<close>

lemma query_every_covers:
  assumes "topology_ok cs" "registry_ok reg" "c \<in> set (dict_keys cs)"
    "fst (query_every s q reg cs) = Inr ns"
  shows "c \<in> cluster_name ` set ns"
  using query_every_eq [OF assms(1,2), of s q] assms(3,4) same_names_set by fastforce

lemma query_every_distinct:
  assumes "topology_ok cs" "registry_ok reg" "fst (query_every s q reg cs) = Inr ns"
  shows "distinct (map cluster_name ns) \<and> cluster_name ` set ns \<subseteq> set (dict_keys cs)"
proof -
  have "map cluster_name ns = dict_keys cs" using query_every_eq [OF assms(1,2), of s q] assms(3) by auto
  then show ?thesis using topology_okD(4) [OF assms(1)] same_names_set [of ns "dict_keys cs"]
    by (simp add: dict_ok_def)
qed

lemma target_session:
  assumes target: "\<And>s r reg cs. accepts s r \<Longrightarrow> topology_ok cs \<Longrightarrow>
      \<exists>c. c \<in> set (dict_keys cs) \<and> fst (ins s r reg cs) = insert_tail reg cs c"
    and rejects: "\<And>s r reg cs n. \<not> accepts s r \<Longrightarrow> fst (ins s r reg cs) \<noteq> Inr (Some n)"
  shows "routing_session ins query_every (\<lambda>_. True) accepts (\<lambda>_ _. True)"
proof unfold_locales
  fix s r cs reg
  assume "accepts s r" "topology_ok cs"
  then show "\<exists>n. fst (ins s r reg cs) = Inr (Some n)"
    using target [of s r cs reg] insert_tail_some [of cs _ reg] by fastforce
next
  fix s cs reg r n
  assume a: "topology_ok cs" "registry_ok reg" "fst (ins s r reg cs) = Inr (Some n)"
  then obtain c where "c \<in> set (dict_keys cs)" "insert_tail reg cs c = Inr (Some n)"
    using target rejects by metis
  then show "\<exists>ns. (cluster_name n, ns) \<in> set cs \<and>
      (case get_leader reg (cluster_name n) of None \<Rightarrow> n = hd ns | Some l \<Rightarrow> n = l)"
    using insert_tail_cluster [OF a(1,2)] by auto
next
  fix s s' cs reg reg' r n q ns
  assume a: "topology_ok cs" "registry_ok reg" "registry_ok reg'" "fst (ins s r reg cs) = Inr (Some n)"
    "fst (query_every s' q reg' cs) = Inr ns"
  then obtain c where c: "c \<in> set (dict_keys cs)" "insert_tail reg cs c = Inr (Some n)"
    using target rejects by metis
  then show "cluster_name n \<in> cluster_name ` set ns"
    using insert_tail_cluster [OF a(1,2) c] query_every_covers [OF a(1,3) c(1) a(5)] by simp
next
  fix s cs reg q ns
  assume "topology_ok cs" "registry_ok reg" "fst (query_every s q reg cs) = Inr ns"
  then show "distinct (map cluster_name ns) \<and> cluster_name ` set ns \<subseteq> set (dict_keys cs)"
    by (rule query_every_distinct)
qed (auto dest: query_every_eq)

definition key_u64 :: "db_record \<Rightarrow> bool" where
  "key_u64 r \<longleftrightarrow> is_u64 (key_id r) \<and> is_u64 (timestamp r)"

lemma hash_target_some:
  assumes "cs \<noteq> []" "is_u64 key" "is_u64 ts"
  shows "\<exists>c. hash_target digest key ts cs = Inr c \<and> c \<in> set (dict_keys cs)"
  using mod_cluster_name [OF assms(1)] assms(2,3) by (auto simp: hash_target_def Let_def codec_simps)

interpretation hash_rc: routing_session "hash_insert digest" query_every "\<lambda>_. True"
  "\<lambda>s r. key_u64 r" "\<lambda>_ _. True" for digest
proof (rule target_session)
  fix s r reg cs
  assume "key_u64 r" "topology_ok cs"
  then obtain c where c: "hash_target digest (key_id r) (timestamp r) cs = Inr c" "c \<in> set (dict_keys cs)"
    using hash_target_some [of cs "key_id r" "timestamp r" digest] topology_okD(2) [of cs]
    by (auto simp only: key_u64_def)
  then have "fst (hash_insert digest s r reg cs) = insert_tail reg cs c" by (simp add: hash_insert_def)
  with c(2) show "\<exists>c. c \<in> set (dict_keys cs) \<and> fst (hash_insert digest s r reg cs) = insert_tail reg cs c"
    by blast
next
  fix s r reg cs n
  assume "\<not> key_u64 r"
  then show "fst (hash_insert digest s r reg cs) \<noteq> Inr (Some n)"
    by (auto simp: hash_insert_def hash_target_def key_u64_def codec_simps)
qed

interpretation rr_rc: routing_session rr_insert query_every "\<lambda>_. True" "\<lambda>s r. True" "\<lambda>_ _. True"
proof (rule target_session)
  fix s :: rr_strategy and r :: db_record and reg :: registry and cs :: clusters
  assume "topology_ok cs"
  then have cs: "cs \<noteq> []" by (rule topology_okD)
  then obtain c where c: "bind_res (py_mod (counter s) (int (length (cluster_names cs))))
      (\<lambda>i. py_index (cluster_names cs) i) = Inr c" "c \<in> set (dict_keys cs)"
    using mod_cluster_name by blast
  then have "fst (rr_insert s r reg cs) = insert_tail reg cs c"
    using cs by (simp add: rr_insert_def Let_def del: cluster_names_length)
  with c(2) show "\<exists>c. c \<in> set (dict_keys cs) \<and> fst (rr_insert s r reg cs) = insert_tail reg cs c"
    by blast
qed simp

interpretation leader_rc: routing_session leader_insert query_every "\<lambda>_. True" "\<lambda>s r. True" "\<lambda>_ _. True"
proof (rule target_session)
  fix s :: base_strategy and r :: db_record and reg :: registry and cs :: clusters
  assume "topology_ok cs"
  then have cs: "cs \<noteq> []" by (rule topology_okD)
  then obtain c where c: "bind_res (py_mod (key_id r) (int (length (cluster_names cs))))
      (\<lambda>i. py_index (cluster_names cs) i) = Inr c" "c \<in> set (dict_keys cs)"
    using mod_cluster_name by blast
  then have "fst (leader_insert s r reg cs) = insert_tail reg cs c"
    using cs by (simp add: leader_insert_def Let_def del: cluster_names_length)
  with c(2) show "\<exists>c. c \<in> set (dict_keys cs) \<and> fst (leader_insert s r reg cs) = insert_tail reg cs c"
    by blast
qed simp

subsection \<open>Dispatch\<close>

fun strategy_ok :: "routing_strategy \<Rightarrow> bool" where
  "strategy_ok (RangeRouting s) = range_ok s"
| "strategy_ok _ = True"

fun strategy_accepts :: "routing_strategy \<Rightarrow> db_record \<Rightarrow> bool" where
  "strategy_accepts (HashRouting s) r = key_u64 r"
| "strategy_accepts _ r = True"

fun same_strategy :: "routing_strategy \<Rightarrow> routing_strategy \<Rightarrow> bool" where
  "same_strategy (RangeRouting s) (RangeRouting s') = (max_keyspace s = max_keyspace s')"
| "same_strategy (HashRouting s) (HashRouting s') = True"
| "same_strategy (RoundRobinRouting s) (RoundRobinRouting s') = True"
| "same_strategy (LeaderRouting s) (LeaderRouting s') = True"
| "same_strategy _ _ = False"

interpretation router_rc: routing_session "get_node_insert digest" get_node_query strategy_ok
  strategy_accepts same_strategy for digest
proof unfold_locales
  fix s r cs reg
  assume "strategy_ok s" "strategy_accepts s r" "topology_ok cs"
  then show "\<exists>n. fst (get_node_insert digest s r reg cs) = Inr (Some n)"
    by (cases s) (simp_all add: range_rc.ins_total hash_rc.ins_total rr_rc.ins_total leader_rc.ins_total)
next
  fix s cs reg r n
  assume a: "strategy_ok s" "topology_ok cs" "registry_ok reg"
    "fst (get_node_insert digest s r reg cs) = Inr (Some n)"
  show "\<exists>ns. (cluster_name n, ns) \<in> set cs \<and>
      (case get_leader reg (cluster_name n) of None \<Rightarrow> n = hd ns | Some l \<Rightarrow> n = l)"
  proof (cases s)
    case (RangeRouting x)
    then show ?thesis using a range_rc.ins_leader [of x cs reg r n] by simp
  next
    case (HashRouting x)
    then show ?thesis using a hash_rc.ins_leader [of cs reg digest x r n] by simp
  next
    case (RoundRobinRouting x)
    then show ?thesis using a rr_rc.ins_leader [of cs reg x r n] by simp
  next
    case (LeaderRouting x)
    then show ?thesis using a leader_rc.ins_leader [of cs reg x r n] by simp
  qed
next
  fix s cs reg q
  assume "strategy_ok s" "topology_ok cs" "registry_ok reg"
  then show "\<exists>ns. fst (get_node_query s q reg cs) = Inr ns"
    by (cases s) (simp_all add: range_rc.qry_total hash_rc.qry_total rr_rc.qry_total leader_rc.qry_total)
next
  fix s cs reg q ns
  assume a: "strategy_ok s" "topology_ok cs" "registry_ok reg" "fst (get_node_query s q reg cs) = Inr ns"
  show "distinct (map cluster_name ns) \<and> cluster_name ` set ns \<subseteq> set (dict_keys cs)"
  proof (cases s)
    case (RangeRouting x)
    then show ?thesis using a range_rc.qry_clusters [of x cs reg q ns] by simp
  next
    case (HashRouting x)
    then show ?thesis using a hash_rc.qry_clusters [of cs reg x q ns] by simp
  next
    case (RoundRobinRouting x)
    then show ?thesis using a rr_rc.qry_clusters [of cs reg x q ns] by simp
  next
    case (LeaderRouting x)
    then show ?thesis using a leader_rc.qry_clusters [of cs reg x q ns] by simp
  qed
next
  fix s s' cs reg reg' r n q ns
  assume a: "strategy_ok s" "strategy_ok s'" "same_strategy s s'" "topology_ok cs" "registry_ok reg"
    "registry_ok reg'" "fst (get_node_insert digest s r reg cs) = Inr (Some n)" "in_key_range q r"
    "fst (get_node_query s' q reg' cs) = Inr ns"
  show "cluster_name n \<in> cluster_name ` set ns"
  proof (cases s)
    case (RangeRouting x)
    with a show ?thesis using range_rc.covers [of x _ cs reg reg' r n q ns] by (cases s') auto
  next
    case (HashRouting x)
    with a show ?thesis using hash_rc.covers [of cs reg reg' digest x r n q _ ns] by (cases s') auto
  next
    case (RoundRobinRouting x)
    with a show ?thesis using rr_rc.covers [of cs reg reg' x r n q _ ns] by (cases s') auto
  next
    case (LeaderRouting x)
    with a show ?thesis using leader_rc.covers [of cs reg reg' x r n q _ ns] by (cases s') auto
  qed
next
  fix s r reg cs
  assume "strategy_ok s"
  then show "strategy_ok (snd (get_node_insert digest s r reg cs)) \<and>
      same_strategy s (snd (get_node_insert digest s r reg cs))"
    by (cases s) simp_all
next
  fix s q reg cs
  assume "strategy_ok s"
  then show "strategy_ok (snd (get_node_query s q reg cs)) \<and>
      same_strategy s (snd (get_node_query s q reg cs))"
    by (cases s) (simp_all add: range_ok_def)
next
  fix s
  show "same_strategy s s" by (cases s) simp_all
next
  fix s1 s2 s3
  assume "same_strategy s1 s2" "same_strategy s2 s3"
  then show "same_strategy s1 s3" by (cases s1; cases s2; cases s3) simp_all
next
  fix s1 s2
  assume "same_strategy s1 s2"
  then show "same_strategy s2 s1" by (cases s1; cases s2) simp_all
qed

section \<open>Nodes of the topology\<close>

text \<open>As long as the leaders known are nodes of their clusters, so is every node that is asked.\<close>

definition leaders_known :: "clusters \<Rightarrow> registry \<Rightarrow> bool" where
  "leaders_known cs reg \<longleftrightarrow> (\<forall>c l. get_leader reg c = Some l \<longrightarrow> l \<in> set (dict_get_default cs c []))"

definition members :: "clusters \<Rightarrow> node set" where
  "members cs = {n. \<exists>c. n \<in> set (dict_get_default cs c [])}"

lemma cluster_member:
  assumes "clusters_ok cs" and "n \<in> set (dict_get_default cs c [])"
  shows "cluster_name n = c"
proof (cases "map_of cs c")
  case (Some ns)
  then show ?thesis using clusters_okD [OF assms(1) map_of_SomeD [OF Some]] assms(2) by (simp add: dict_get_default_def)
qed (use assms(2) in \<open>simp add: dict_get_default_def\<close>)

lemma leaders_known_ok: "clusters_ok cs \<Longrightarrow> leaders_known cs reg \<Longrightarrow> registry_ok reg"
  by (auto simp: leaders_known_def registry_ok_def intro: cluster_member)

lemma select_follower_member:
  assumes "fst (select_follower c (dict_get_default cs c []) (get_leader reg c) ind) = Some n" and "leaders_known cs reg"
  shows "n \<in> members cs"
  using select_follower_from [OF assms(1)] assms(2) by (auto simp: leaders_known_def members_def)

lemma query_all_members:
  assumes "leaders_known cs reg" and "\<forall>(c, ns) \<in> set ds. dict_get_default cs c [] = ns"
  shows "set (fst (query_all reg ds ind)) \<subseteq> members cs"
  using assms(2)
proof (induction ds arbitrary: ind)
  case (Cons p ds)
  obtain c ns where p: "p = (c, ns)" by (cases p)
  obtain sel ind' where s: "select_follower c ns (get_leader reg c) ind = (sel, ind')" by force
  have "n \<in> members cs" if "sel = Some n" for n
    using select_follower_member [OF _ assms(1), of c ind n] s p Cons.prems that by simp
  then show ?case using Cons.IH [of ind'] Cons.prems s p by (auto split: prod.splits option.splits)
qed simp

lemma range_loop_members:
  assumes "leaders_known cs reg"
  shows "range_loop q reg cs chunk_size num idx names ind = (Inr ns, ind') \<Longrightarrow> set ns \<subseteq> members cs"
proof (induction names arbitrary: idx ind ns ind')
  case (Cons c names)
  show ?case
  proof (cases "range_hit q chunk_size num idx")
    case True
    then obtain nodes where d: "dict_index cs c = Inr nodes" using Cons.prems by (auto split: sum.splits)
    obtain sel ind1 where s: "select_follower c nodes (get_leader reg c) ind = (sel, ind1)" by force
    obtain rest ind2 where r: "range_loop q reg cs chunk_size num (idx + 1) names ind1 = (rest, ind2)" by force
    have "nodes = dict_get_default cs c []" using d by (auto simp: dict_index_def dict_get_default_def split: option.splits)
    then have "n \<in> members cs" if "sel = Some n" for n
      using select_follower_member [OF _ assms, of c ind n] s that by simp
    moreover obtain ms where "rest = Inr ms" "ns = (case sel of None \<Rightarrow> ms | Some n \<Rightarrow> n # ms)"
      using Cons.prems True d s r by (auto simp: res_simps)
    ultimately show ?thesis using Cons.IH [of "idx + 1" ind1 ms ind2] r by (auto split: option.splits)
  next
    case False
    then show ?thesis using Cons.prems Cons.IH by simp
  qed
qed simp

lemma query_every_members:
  assumes "leaders_known cs reg" and "dict_ok cs" and "fst (query_every s q reg cs) = Inr ns"
  shows "set ns \<subseteq> members cs"
proof -
  have "\<forall>(c, ns) \<in> set cs. dict_get_default cs c [] = ns"
    using assms(2) by (auto simp: dict_get_default_def dict_ok_def)
  from query_all_members [OF assms(1) this, of "query_indices s"] assms(3) show ?thesis
    by (auto simp: query_every_def split: prod.splits)
qed

lemma range_query_members:
  assumes "leaders_known cs reg" and "fst (range_query s q reg cs) = Inr ns"
  shows "set ns \<subseteq> members cs"
  using assms(2) range_loop_members [OF assms(1)]
  by (fastforce simp: range_query_def Let_def split: if_splits sum.splits prod.splits)

lemma router_query_members:
  assumes "router_query rt q = (Inr ns, rt')" and "leaders_known (topology rt) (leaders rt)" and "dict_ok (topology rt)"
  shows "set ns \<subseteq> members (topology rt)"
proof -
  have "fst (get_node_query (strategy rt) q (leaders rt) (topology rt)) = Inr ns"
    using assms(1) by (auto simp: router_query_def split: prod.splits)
  then show ?thesis
    by (cases "strategy rt") (auto dest: query_every_members [OF assms(2,3), THEN subsetD]
        range_query_members [OF assms(2), THEN subsetD])
qed

end
