(* ===== verification/Routing_Theorems.thy ===== *)
theory Routing_Theorems
  imports Routing_Props
begin

text \<open>
  The properties of the router and its strategies, each with a witness on a small topology of
  two clusters.
\<close>

section \<open>A topology to evaluate on\<close>

definition mk_node :: "string \<Rightarrow> int \<Rightarrow> node" where
  "mk_node c i = \<lparr>cluster_name = c, node_id = i, host = ''127.0.0.1'', port = 18000 + i\<rparr>"

definition two_clusters :: clusters where
  "two_clusters = [(''B'', [mk_node ''B'' 4, mk_node ''B'' 5]),
     (''A'', [mk_node ''A'' 1, mk_node ''A'' 2, mk_node ''A'' 3])]"

definition mk_record :: "int \<Rightarrow> db_record" where
  "mk_record k = \<lparr>key_id = k, timestamp = 7, content = CInt k\<rparr>"

definition mk_query :: "int \<Rightarrow> int \<Rightarrow> query_request" where
  "mk_query lo hi = \<lparr>min_id = lo, min_ts = 0, max_id = hi, max_ts = 18446744073709551615, query_id = 0\<rparr>"

lemma two_clusters_ok: "topology_ok two_clusters"
  by (simp add: topology_ok_def clusters_ok_def dict_ok_def two_clusters_def mk_node_def)

lemma range_10_ok: "strategy_ok (RangeRouting (new_range 10))"
  by (simp add: range_ok_def new_range_def)

section \<open>Reads reach the clusters of the writes\<close>

text \<open>
  C5. Whatever happened between - inserts, queries and leader changes in any order and number -
  a query whose key interval holds an inserted record asks the cluster the record was sent to,
  under every routing strategy.
\<close>

theorem session_reads_cover_writes:
  assumes "topology_ok cs" and "strategy_ok s0" and "registry_ok reg0"
    and "foldl (route_step (get_node_insert digest) get_node_query cs) (s0, reg0, []) evs = (s, reg, routed)"
    and "(r, c) \<in> set routed" and "in_key_range q r"
  shows "\<exists>ns. fst (get_node_query s q reg cs) = Inr ns \<and> c \<in> cluster_name ` set ns"
  using assms by (rule router_rc.session_query_covers)

definition demo_events :: "route_event list" where
  "demo_events = [Insert (mk_record 3), Leader (SetLeader (mk_node ''B'' 5)), Insert (mk_record 8),
     Query (mk_query 1 10), Leader (ClearCluster ''B'')]"

definition demo_session :: "routing_strategy session" where
  "demo_session = foldl (route_step (get_node_insert (\<lambda>_. [])) get_node_query two_clusters)
     (RangeRouting (new_range 10), empty_registry, []) demo_events"

lemma demo_session_routed:
  "snd (snd demo_session) = [(mk_record 8, ''B''), (mk_record 3, ''A'')]"
  by code_simp

theorem session_reads_cover_writes_witness:
  "\<exists>ns. fst (get_node_query (fst demo_session) (mk_query 6 9) (fst (snd demo_session)) two_clusters) = Inr ns
     \<and> ''B'' \<in> cluster_name ` set ns"
proof -
  have run: "foldl (route_step (get_node_insert (\<lambda>_. [])) get_node_query two_clusters)
      (RangeRouting (new_range 10), empty_registry, []) demo_events
    = (fst demo_session, fst (snd demo_session), snd (snd demo_session))"
    by (simp add: demo_session_def)
  show ?thesis
    by (rule session_reads_cover_writes [OF two_clusters_ok range_10_ok registry_ok_ops(1) run,
          of "mk_record 8"])
      (simp_all add: demo_session_routed in_key_range_def mk_record_def mk_query_def)
qed

text \<open>
  Routing an accepted record never fails on a topology without empty clusters, and the node
  it gives is the known leader of its cluster, else the first node of that cluster.
\<close>

theorem insert_goes_to_leader_or_first:
  assumes "topology_ok cs" and "strategy_ok s" and "registry_ok reg" and "strategy_accepts s r"
  shows "\<exists>n ns. fst (get_node_insert digest s r reg cs) = Inr (Some n) \<and> (cluster_name n, ns) \<in> set cs \<and>
    (case get_leader reg (cluster_name n) of Some l \<Rightarrow> n = l | None \<Rightarrow> n = hd ns)"
  using router_rc.ins_total [OF assms(2,4,1)] router_rc.ins_leader [OF assms(2,1,3)] by blast

theorem insert_goes_to_leader_or_first_witness:
  "\<exists>n ns. fst (get_node_insert (\<lambda>bs. bs) (HashRouting new_base) (mk_record 3)
      (set_leader empty_registry (mk_node ''A'' 2)) two_clusters) = Inr (Some n) \<and>
    (cluster_name n, ns) \<in> set two_clusters \<and>
    (case get_leader (set_leader empty_registry (mk_node ''A'' 2)) (cluster_name n) of
       Some l \<Rightarrow> n = l | None \<Rightarrow> n = hd ns)"
  by (rule insert_goes_to_leader_or_first [OF two_clusters_ok])
    (simp_all add: key_u64_def mk_record_def is_u64_def)

section \<open>Which clusters a query asks\<close>

text \<open>
  Hash, round-robin and leader routing ask exactly one node of every cluster, in the order
  of the topology; when the cluster has a node that is not the known leader, the node asked is
  such a follower.
\<close>

theorem query_every_asks_each_cluster_once:
  assumes "topology_ok cs" and "registry_ok reg"
  shows "\<exists>ns. fst (query_every s q reg cs) = Inr ns \<and> map cluster_name ns = dict_keys cs \<and>
    (\<forall>n \<in> set ns. \<forall>nodes. (cluster_name n, nodes) \<in> set cs \<longrightarrow>
      followers_of nodes (get_leader reg (cluster_name n)) \<noteq> [] \<longrightarrow>
      n \<in> set (followers_of nodes (get_leader reg (cluster_name n))))"
proof -
  obtain ns where ns: "fst (query_every s q reg cs) = Inr ns" "map cluster_name ns = dict_keys cs"
    using query_every_eq [OF assms] by blast
  then have "ns = fst (query_all reg cs (query_indices s))"
    by (auto simp: query_every_def split: prod.splits)
  then have "\<forall>n \<in> set ns. \<exists>nodes. (cluster_name n, nodes) \<in> set cs \<and>
      (n \<in> set (followers_of nodes (get_leader reg (cluster_name n))) \<or>
       followers_of nodes (get_leader reg (cluster_name n)) = [])"
    using query_all_followers [OF assms(2) topology_okD(5) [OF assms(1)]] by blast
  then have "\<forall>n \<in> set ns. \<forall>nodes. (cluster_name n, nodes) \<in> set cs \<longrightarrow>
      followers_of nodes (get_leader reg (cluster_name n)) \<noteq> [] \<longrightarrow>
      n \<in> set (followers_of nodes (get_leader reg (cluster_name n)))"
    using topology_okD(4) [OF assms(1)] unfolding dict_ok_def by (metis eq_key_imp_eq_value)
  with ns show ?thesis by blast
qed

theorem query_every_asks_each_cluster_once_witness:
  "\<exists>ns. fst (query_every new_base (mk_query 1 2) empty_registry two_clusters) = Inr ns \<and>
     map cluster_name ns = [''B'', ''A'']"
  using query_every_asks_each_cluster_once [OF two_clusters_ok registry_ok_ops(1), of new_base "mk_query 1 2"]
  by (auto simp: two_clusters_def)



section \<open>The key blocks of range routing\<close>

text \<open>
  Range routing cuts the keys \<open>1 .. max_keyspace\<close> into contiguous blocks of
  \<open>ceil(max_keyspace / clusters)\<close> keys: the target of a key is the cluster at index \<open>i\<close> of the
  sorted names exactly when the key lies in the \<open>i\<close>-th block.
\<close>

theorem range_target_is_key_block:
  assumes "clusters_ok cs" and "i < length cs" and "0 < keyspace" and "keyspace < 2 ^ 53"
    and "1 \<le> key" and "key \<le> keyspace"
  defines "chunk_size \<equiv> ceil_div keyspace (int (length cs))"
  shows "range_target keyspace key cs = Inr (cluster_names cs ! i) \<longleftrightarrow>
    int i * chunk_size + 1 \<le> key \<and> key \<le> (int i + 1) * chunk_size"
proof -
  define num where "num = int (length cs)"
  define d where "d = (key - 1) div chunk_size"
  have cs: "cs \<noteq> []" and num: "0 < num" using assms(2) by (auto simp: num_def)
  have chunk: "0 < chunk_size" unfolding chunk_size_def using assms(3) num
    by (intro ceil_div_pos) (simp_all add: num_def)
  have key: "key - 1 = d * chunk_size + (key - 1) mod chunk_size"
    "0 \<le> (key - 1) mod chunk_size" "(key - 1) mod chunk_size < chunk_size"
    using chunk by (simp_all add: d_def)
  have d0: "0 \<le> d" using chunk assms(5) by (simp add: d_def pos_imp_zdiv_nonneg_iff)
  have "d * chunk_size < num * chunk_size"
    using key(1,2) assms(6) ceil_div_bounds(2) [OF num, of keyspace]
    by (simp add: chunk_size_def num_def mult.commute)
  then have dn: "d < num" using chunk by simp
  then have "range_index chunk_size num key = d"
    using assms(5) by (simp add: range_index_def d_def max_def)
  then have t: "range_target keyspace key cs = Inr (cluster_names cs ! nat d)"
    using range_target_eq [OF assms(3,4) cs, of key] by (simp add: num_def chunk_size_def)
  have "cluster_names cs ! nat d = cluster_names cs ! i \<longleftrightarrow> nat d = i"
    using cluster_names_distinct [OF assms(1)] assms(2) dn d0
    by (intro nth_eq_iff_index_eq) (simp_all add: num_def nat_less_iff)
  also have "nat d = i \<longleftrightarrow> d = int i" using d0 by auto
  also have "\<dots> \<longleftrightarrow> int i * chunk_size + 1 \<le> key \<and> key \<le> (int i + 1) * chunk_size"
  proof
    assume "d = int i"
    then show "int i * chunk_size + 1 \<le> key \<and> key \<le> (int i + 1) * chunk_size"
      using key by (simp add: distrib_right)
  next
    assume b: "int i * chunk_size + 1 \<le> key \<and> key \<le> (int i + 1) * chunk_size"
    then have "0 \<le> key - 1 - int i * chunk_size" "key - 1 - int i * chunk_size < chunk_size"
      by (simp_all add: distrib_right)
    then show "d = int i" unfolding d_def
      by (intro int_div_pos_eq [where r = "key - 1 - int i * chunk_size"]) (simp_all add: mult.commute)
  qed
  finally show ?thesis by (simp add: t)
qed

theorem range_target_is_key_block_witness:
  "range_target 10 6 two_clusters = Inr (cluster_names two_clusters ! 1)"
proof -
  have "ceil_div 10 (int (length two_clusters)) = 5" by code_simp
  then show ?thesis
    using range_target_is_key_block [of two_clusters 1 10 6] topology_okD(1) [OF two_clusters_ok]
    by (simp add: two_clusters_def)
qed

text \<open>
  The block size is computed through a floating-point division; below \<open>2 ^ 53\<close> keys its
  rounding never shows, and the size is the exact integer ceiling.
\<close>

theorem chunk_size_exact:
  assumes "0 < a" and "a < 2 ^ 53" and "0 < b"
  shows "ceil_truediv a b = Inr (ceil_div a b)"
  using assms by (rule ceil_truediv_exact)

theorem chunk_size_exact_witness: "ceil_truediv 5000000 3 = Inr 1666667"
  using chunk_size_exact [of 5000000 3] by (simp add: ceil_div_def)

section \<open>Fairness\<close>

lemma rotate_as_index:
  "xs \<noteq> [] \<Longrightarrow> map (\<lambda>i. xs ! nat ((a + int i) mod int (length xs))) [0..<length xs] =
     rotate (nat (a mod int (length xs))) xs"
proof (rule nth_equalityI)
  fix i
  assume xs: "xs \<noteq> []" and "i < length (map (\<lambda>i. xs ! nat ((a + int i) mod int (length xs))) [0..<length xs])"
  then have i: "i < length xs" by simp
  let ?n = "int (length xs)"
  have n: "0 < ?n" using xs by simp
  have "int ((nat (a mod ?n) + i) mod length xs) = (a mod ?n + int i) mod ?n"
    using n by (simp add: zmod_int)
  then have "(nat (a mod ?n) + i) mod length xs = nat ((a + int i) mod ?n)"
    by (simp add: mod_add_left_eq)
  then show "map (\<lambda>i. xs ! nat ((a + int i) mod ?n)) [0..<length xs] ! i = rotate (nat (a mod ?n)) xs ! i"
    using i by (simp add: nth_rotate)
qed simp

lemma map_rotate_index:
  "xs \<noteq> [] \<Longrightarrow> map (\<lambda>i. f (xs ! nat ((a + int i) mod int (length xs)))) [0..<length xs] =
     map f (rotate (nat (a mod int (length xs))) xs)"
  by (simp add: o_def flip: rotate_as_index)

text \<open>Consecutive calls with an unchanged topology and registry.\<close>

fun insert_many ::
  "('s \<Rightarrow> db_record \<Rightarrow> registry \<Rightarrow> clusters \<Rightarrow> node option res \<times> 's) \<Rightarrow> 's \<Rightarrow> db_record list \<Rightarrow>
   registry \<Rightarrow> clusters \<Rightarrow> node option res list \<times> 's" where
  "insert_many ins s [] reg cs = ([], s)"
| "insert_many ins s (r # rs) reg cs =
     (case ins s r reg cs of (res, s') \<Rightarrow>
       (case insert_many ins s' rs reg cs of (ress, s'') \<Rightarrow> (res # ress, s'')))"

fun select_many :: "nat \<Rightarrow> string \<Rightarrow> node list \<Rightarrow> node option \<Rightarrow> indices \<Rightarrow> node option list \<times> indices" where
  "select_many 0 c nodes leader ind = ([], ind)"
| "select_many (Suc k) c nodes leader ind =
     (case select_follower c nodes leader ind of (selected, ind') \<Rightarrow>
       (case select_many k c nodes leader ind' of (rest, ind'') \<Rightarrow> (selected # rest, ind'')))"

lemma upt_Suc_map: "[0..<Suc k] = 0 # map Suc [0..<k]"
  by (simp add: map_Suc_upt upt_conv_Cons)

lemma rr_insert_many:
  assumes "cs \<noteq> []"
  shows "fst (insert_many rr_insert s rs reg cs) =
    map (\<lambda>i. insert_tail reg cs (cluster_names cs ! nat ((counter s + int i) mod int (length cs))))
      [0..<length rs]"
proof (induction rs arbitrary: s)
  case Nil
  then show ?case by simp
next
  case (Cons r rs)
  let ?s' = "s\<lparr>counter := counter s + 1\<rparr>" and ?n = "int (length cs)"
  have idx: "0 \<le> counter s mod ?n" "counter s mod ?n < ?n" using assms by simp_all
  have "rr_insert s r reg cs = (insert_tail reg cs (cluster_names cs ! nat (counter s mod ?n)), ?s')"
    using assms nth_cluster_name [OF idx] by (simp add: rr_insert_def Let_def)
  moreover have "fst (insert_many rr_insert ?s' rs reg cs) =
    map (\<lambda>i. insert_tail reg cs (cluster_names cs ! nat ((counter s + 1 + int i) mod ?n))) [0..<length rs]"
    using Cons.IH [of ?s'] by simp
  ultimately show ?case
    by (simp add: upt_Suc_map o_def add.assoc del: upt.simps split: prod.splits) (metis fst_conv)
qed

text \<open>
  Round-robin routing is fair: as many consecutive inserts as there are clusters go to every
  cluster exactly once, in the cyclic order of the sorted names.
\<close>

theorem round_robin_insert_cycle:
  assumes "cs \<noteq> []" and "length rs = length cs"
  shows "fst (insert_many rr_insert s rs reg cs) =
    map (insert_tail reg cs) (rotate (nat (counter s mod int (length cs))) (cluster_names cs))"
  using rr_insert_many [OF assms(1), of s rs reg] assms
    map_rotate_index [of "cluster_names cs" "insert_tail reg cs" "counter s"]
  by simp

theorem round_robin_insert_cycle_witness:
  "fst (insert_many rr_insert new_rr [mk_record 3, mk_record 3] empty_registry two_clusters) =
     [Inr (Some (mk_node ''A'' 1)), Inr (Some (mk_node ''B'' 4))]"
proof -
  have "map (insert_tail empty_registry two_clusters)
      (rotate (nat (counter new_rr mod int (length two_clusters))) (cluster_names two_clusters)) =
    [Inr (Some (mk_node ''A'' 1)), Inr (Some (mk_node ''B'' 4))]"
    by code_simp
  then show ?thesis
    using round_robin_insert_cycle [of two_clusters "[mk_record 3, mk_record 3]" new_rr empty_registry]
    by (simp add: two_clusters_def)
qed

lemma select_many_eq:
  assumes "followers_of nodes leader \<noteq> []"
  shows "fst (select_many k c nodes leader ind) =
    map (\<lambda>i. Some (followers_of nodes leader ! nat (((case ind c of None \<Rightarrow> 0 | Some i \<Rightarrow> i) + int i)
      mod int (length (followers_of nodes leader))))) [0..<k]"
proof (induction k arbitrary: ind)
  case 0
  then show ?case by simp
next
  case (Suc k)
  let ?idx = "case ind c of None \<Rightarrow> 0 | Some i \<Rightarrow> i" and ?f = "followers_of nodes leader"
  let ?n = "int (length ?f)"
  let ?ind' = "ind(c \<mapsto> (?idx + 1) mod ?n)"
  have "select_follower c nodes leader ind = (Some (?f ! nat (?idx mod ?n)), ?ind')"
    using assms by (simp add: select_follower_def Let_def)
  moreover have "fst (select_many k c nodes leader ?ind') =
    map (\<lambda>i. Some (?f ! nat ((?idx + 1 + int i) mod ?n))) [0..<k]"
    using Suc.IH [of ?ind'] by (simp add: mod_add_left_eq fun_upd_same del: fun_upd_apply)
  ultimately show ?case
    by (simp add: upt_Suc_map o_def add.assoc del: upt.simps split: prod.splits) (metis fst_conv)
qed

text \<open>
  Follower selection is fair and spares the leader: as many consecutive queries of a cluster
  as it has followers ask each follower exactly once, and none of them asks the leader.
\<close>

theorem follower_selection_cycle:
  assumes "followers_of nodes leader \<noteq> []"
  shows "\<exists>k. fst (select_many (length (followers_of nodes leader)) c nodes leader ind) =
      map Some (rotate k (followers_of nodes leader))
    \<and> leader \<notin> Some ` set (rotate k (followers_of nodes leader))"
proof -
  let ?f = "followers_of nodes leader" and ?idx = "case ind c of None \<Rightarrow> 0 | Some i \<Rightarrow> i"
  have "fst (select_many (length ?f) c nodes leader ind) =
      map Some (rotate (nat (?idx mod int (length ?f))) ?f)"
    using select_many_eq [OF assms, of "length ?f" c ind] map_rotate_index [OF assms, of Some ?idx]
    by simp
  moreover have "leader \<notin> Some ` set ?f" by (auto simp: followers_of_set)
  ultimately show ?thesis by auto
qed

theorem follower_selection_cycle_witness:
  "\<exists>k. fst (select_many 2 ''A'' [mk_node ''A'' 1, mk_node ''A'' 2, mk_node ''A'' 3]
      (Some (mk_node ''A'' 1)) Map.empty) = map Some (rotate k [mk_node ''A'' 2, mk_node ''A'' 3])"
proof -
  have f: "followers_of [mk_node ''A'' 1, mk_node ''A'' 2, mk_node ''A'' 3] (Some (mk_node ''A'' 1))
      = [mk_node ''A'' 2, mk_node ''A'' 3]"
    by (simp add: followers_of_def mk_node_def)
  show ?thesis
    using follower_selection_cycle [of "[mk_node ''A'' 1, mk_node ''A'' 2, mk_node ''A'' 3]"
        "Some (mk_node ''A'' 1)" "''A''" Map.empty]
    by (auto simp: f numeral_2_eq_2 simp del: select_many.simps)
qed

section \<open>Independence and edge cases\<close>

lemma cluster_names_order: "dict_ok cs \<Longrightarrow> dict_ok cs' \<Longrightarrow> set cs = set cs' \<Longrightarrow> cluster_names cs = cluster_names cs'"
proof -
  assume a: "dict_ok cs" "dict_ok cs'" "set cs = set cs'"
  then have "distinct cs" "distinct cs'" by (simp_all add: dict_ok_def distinct_map)
  then have "mset cs = mset cs'" using a(3) by (simp add: set_eq_iff_mset_eq_distinct)
  then show ?thesis unfolding cluster_names_def by (intro properties_for_sort) simp_all
qed

lemma dict_index_order: "dict_ok cs \<Longrightarrow> dict_ok cs' \<Longrightarrow> set cs = set cs' \<Longrightarrow> dict_index cs c = dict_index cs' c"
  unfolding dict_index_def dict_ok_def using map_of_inject_set [of cs cs'] by simp

text \<open>
  The order in which the configuration file lists the clusters does not matter for an
  insert: two topologies with the same entries route every record to the same node.
\<close>

theorem insert_ignores_topology_order:
  assumes "dict_ok cs" and "dict_ok cs'" and "set cs = set cs'"
  shows "get_node_insert digest s r reg cs = get_node_insert digest s r reg cs'"
proof -
  note names = cluster_names_order [OF assms]
  have tail: "insert_tail reg cs = insert_tail reg cs'"
    by (rule ext) (simp add: insert_tail_def dict_index_order [OF assms])
  show ?thesis
    by (cases s) (simp_all add: range_insert_def range_target_def hash_insert_def hash_target_def
        rr_insert_def leader_insert_def names tail Let_def del: cluster_names_length cluster_names_empty)
qed

theorem insert_ignores_topology_order_witness:
  "get_node_insert (\<lambda>bs. bs) (HashRouting new_base) (mk_record 3) empty_registry two_clusters =
   get_node_insert (\<lambda>bs. bs) (HashRouting new_base) (mk_record 3) empty_registry (rev two_clusters)"
  by (rule insert_ignores_topology_order)
    (simp_all add: dict_ok_def two_clusters_def insert_commute)

text \<open>
  With no clusters configured the strategies disagree: round-robin gives \<open>None\<close>, the other
  three raise \<open>ZeroDivisionError\<close> on an insert (hash routing only for a key it can pack), while
  every query gives the empty list.
\<close>

theorem empty_topology_behaviour:
  "fst (range_insert sr r reg []) = Inl ZeroDivisionError"
  "fst (hash_insert digest sb r reg []) = Inl (if key_u64 r then ZeroDivisionError else StructError)"
  "fst (leader_insert sb r reg []) = Inl ZeroDivisionError"
  "fst (rr_insert srr r reg []) = Inr None"
  "fst (get_node_query s q reg []) = Inr []"
proof -
  show "fst (get_node_query s q reg []) = Inr []"
    by (cases s) (simp_all add: range_query_def query_every_def Let_def cluster_names_def)
qed (simp_all add: range_insert_def range_target_def hash_insert_def hash_target_def leader_insert_def
    rr_insert_def Let_def py_mod_def ceil_truediv_def codec_simps key_u64_def)

text \<open>
  The leader registry is a last-writer-wins directory: after any interleaving of the calls
  of any threads, the leader of a cluster is what the last operation on that cluster left, and
  it is a node of that cluster.
\<close>

theorem registry_last_writer_wins:
  "get_leader (foldl registry_step empty_registry ops) c = last_value ops c \<and>
   registry_ok (foldl registry_step empty_registry ops)"
  using reg.lookup_history [of ops] reg.lookup_history_set [of ops] by (auto simp: registry_ok_def)

end
