(* ===== verification/Work_Queue.thy ===== *)
theory Work_Queue
  imports Prelude "HOL-Library.Product_Lexorder"
begin

text \<open>
  \<open>PrioritizedItem\<close>, \<open>PriorityWorkQueue\<close> and \<open>PriorityThreadPoolExecutor.submit\<close> of
  \<open>client/dbclient.py\<close>: the work queue that lets page requests overtake first requests. The
  standard library's \<open>PriorityQueue\<close> is what the class uses of it: a bag of items of which
  \<open>get\<close> removes one that no other item is less than.
\<close>

section \<open>Priorities and items\<close>

text \<open>A priority is an integer, or \<open>float('inf')\<close> for the sentinel \<open>None\<close> that stops a worker.\<close>

datatype priority = Prio int | PrioInf

instantiation priority :: linorder
begin

fun less_eq_priority :: "priority \<Rightarrow> priority \<Rightarrow> bool" where
  "less_eq_priority _ PrioInf = True"
| "less_eq_priority (Prio i) (Prio j) = (i \<le> j)"
| "less_eq_priority PrioInf (Prio j) = False"

definition less_priority :: "priority \<Rightarrow> priority \<Rightarrow> bool" where
  "less_priority a b \<longleftrightarrow> a \<le> b \<and> \<not> b \<le> (a :: priority)"

instance
proof
  fix a b c :: priority
  show "a < b \<longleftrightarrow> a \<le> b \<and> \<not> b \<le> a" by (rule less_priority_def)
  show "a \<le> a" by (cases a) simp_all
  show "a \<le> b \<Longrightarrow> b \<le> c \<Longrightarrow> a \<le> c" by (cases a; cases b; cases c) simp_all
  show "a \<le> b \<Longrightarrow> b \<le> a \<Longrightarrow> a = b" by (cases a; cases b) simp_all
  show "a \<le> b \<or> b \<le> a" by (cases a; cases b) auto
qed

end

record 'a prioritized_item =
  pi_priority :: priority
  pi_count :: nat
  pi_item :: "'a option"

definition item_lt :: "'a prioritized_item \<Rightarrow> 'a prioritized_item \<Rightarrow> bool" where
  "item_lt x y =
     (if pi_priority x = pi_priority y then pi_count x < pi_count y
      else pi_priority x < pi_priority y)"

definition item_key :: "'a prioritized_item \<Rightarrow> priority \<times> nat" where
  "item_key x = (pi_priority x, pi_count x)"

lemma item_lt_key: "item_lt x y \<longleftrightarrow> item_key x < item_key y"
  by (auto simp: item_lt_def item_key_def less_prod_def')

section \<open>The queue\<close>

record 'a work_queue =
  wq_items :: "'a prioritized_item list"
  wq_counter :: nat

definition new_work_queue :: "'a work_queue" where
  "new_work_queue = \<lparr>wq_items = [], wq_counter = 0\<rparr>"

text \<open>\<open>put\<close> reads the calling thread's current priority, 0 when it has none.\<close>

definition wq_put :: "int option \<Rightarrow> 'a option \<Rightarrow> 'a work_queue \<Rightarrow> 'a work_queue" where
  "wq_put current_priority item q =
     (let priority = (case item of None \<Rightarrow> PrioInf
                      | Some _ \<Rightarrow> Prio (case current_priority of None \<Rightarrow> 0 | Some p \<Rightarrow> p))
      in q\<lparr>wq_items := wq_items q @ [\<lparr>pi_priority = priority, pi_count = wq_counter q, pi_item = item\<rparr>],
           wq_counter := Suc (wq_counter q)\<rparr>)"

fun least_item :: "'a prioritized_item \<Rightarrow> 'a prioritized_item list \<Rightarrow> 'a prioritized_item" where
  "least_item x [] = x"
| "least_item x (y # ys) = least_item (if item_lt y x then y else x) ys"

definition wq_pop :: "'a work_queue \<Rightarrow> ('a prioritized_item \<times> 'a work_queue) option" where
  "wq_pop q = (case wq_items q of [] \<Rightarrow> None
     | x # xs \<Rightarrow> let m = least_item x xs in Some (m, q\<lparr>wq_items := remove1 m (x # xs)\<rparr>))"

text \<open>\<open>get\<close> blocks on an empty queue (\<open>None\<close>: no result yet), \<open>get_nowait\<close> raises.\<close>

definition wq_get :: "'a work_queue \<Rightarrow> ('a option \<times> 'a work_queue) option" where
  "wq_get q = map_option (\<lambda>(wrapped, q'). (pi_item wrapped, q')) (wq_pop q)"

definition wq_get_nowait :: "'a work_queue \<Rightarrow> ('a option \<times> 'a work_queue) res" where
  "wq_get_nowait q = (case wq_get q of None \<Rightarrow> Inl QueueEmpty | Some r \<Rightarrow> Inr r)"

definition wq_qsize :: "'a work_queue \<Rightarrow> nat" where
  "wq_qsize q = length (wq_items q)"

definition wq_empty :: "'a work_queue \<Rightarrow> bool" where
  "wq_empty q \<longleftrightarrow> wq_items q = []"

text \<open>
  \<open>submit\<close> sets the thread's priority for the \<open>put\<close> inside \<open>super().submit\<close> and deletes it again,
  also when the executor refuses because it was shut down.
\<close>

definition executor_submit ::
  "bool \<Rightarrow> 'a \<Rightarrow> int \<Rightarrow> int option \<Rightarrow> 'a work_queue \<Rightarrow> unit res \<times> int option \<times> 'a work_queue" where
  "executor_submit is_shutdown task priority current_priority q =
     (let current_priority = Some priority in
      if is_shutdown then (Inl RuntimeError, None, q)
      else (Inr (), None, wq_put current_priority (Some task) q))"

section \<open>The bag behind the queue\<close>

text \<open>The interface a worker relies on: a bag with a strict order, whose \<open>pop\<close> takes a least
  element out.\<close>

locale least_first_bag =
  fixes items :: "'q \<Rightarrow> 'x multiset"
    and pop :: "'q \<Rightarrow> ('x \<times> 'q) option"
    and key :: "'x \<Rightarrow> 'k :: linorder"
  assumes pop_None: "pop q = None \<longleftrightarrow> items q = {#}"
    and pop_Some: "pop q = Some (x, q') \<Longrightarrow> items q = add_mset x (items q') \<and> (\<forall>y \<in># items q'. key x \<le> key y)"
begin

lemma pop_least: "pop q = Some (x, q') \<Longrightarrow> y \<in># items q \<Longrightarrow> key x \<le> key y"
  using pop_Some by force

text \<open>Taking everything out gives all items, in order.\<close>

lemma pop_all_sorted:
  assumes "\<forall>i < length xs. pop (qs ! i) = Some (xs ! i, qs ! Suc i)" and "length qs = Suc (length xs)"
    and "items (qs ! length xs) = {#}"
  shows "mset xs = items (qs ! 0) \<and> sorted (map key xs)"
  using assms
proof (induction xs arbitrary: qs)
  case Nil
  then show ?case by simp
next
  case (Cons x xs)
  obtain q qs' where qs: "qs = q # qs'" using Cons.prems(2) by (cases qs) auto
  have "\<forall>i < length xs. pop (qs' ! i) = Some (xs ! i, qs' ! Suc i)"
    using Cons.prems(1) qs by (metis Suc_less_eq length_Cons nth_Cons_Suc)
  then have IH: "mset xs = items (qs' ! 0) \<and> sorted (map key xs)"
    using Cons.prems qs by (intro Cons.IH) simp_all
  have "pop q = Some (x, qs' ! 0)" using Cons.prems(1) qs by force
  from pop_Some [OF this] IH have "items q = mset (x # xs)" "\<forall>y \<in> set xs. key x \<le> key y"
    by simp_all (metis set_mset_mset)
  then show ?case using IH qs by simp
qed

end

lemma least_item_in: "least_item x xs \<in> set (x # xs)"
proof (induction xs arbitrary: x)
  case (Cons y ys)
  then show ?case using Cons.IH [of x] Cons.IH [of y] by auto
qed simp

lemma least_item_le: "y \<in> set (x # xs) \<Longrightarrow> item_key (least_item x xs) \<le> item_key y"
proof (induction xs arbitrary: x y)
  case Nil
  then show ?case by simp
next
  case (Cons z zs)
  let ?x = "if item_lt z x then z else x"
  have x: "item_key (least_item x (z # zs)) \<le> item_key ?x" using Cons.IH [of ?x ?x] by simp
  have "item_key ?x \<le> item_key x" "item_key ?x \<le> item_key z"
    by (simp_all add: item_lt_key not_less less_imp_le)
  with x Cons.prems Cons.IH [of y ?x] show ?case by auto
qed

interpretation wq: least_first_bag "\<lambda>q. mset (wq_items q)" wq_pop item_key
proof unfold_locales
  fix q :: "'a work_queue"
  show "wq_pop q = None \<longleftrightarrow> mset (wq_items q) = {#}"
    by (auto simp: wq_pop_def Let_def split: list.splits)
next
  fix q q' :: "'a work_queue" and x
  assume a: "wq_pop q = Some (x, q')"
  then obtain y ys where q: "wq_items q = y # ys" by (auto simp: wq_pop_def split: list.splits)
  with a have x: "x = least_item y ys" "wq_items q' = remove1 x (y # ys)"
    by (auto simp: wq_pop_def Let_def)
  then have "x \<in> set (y # ys)" using least_item_in [of y ys] by simp
  then have "mset (y # ys) = add_mset x (mset (remove1 x (y # ys)))"
    by (metis insert_DiffM mset_remove1 set_mset_mset)
  moreover have "\<forall>z \<in> set (remove1 x (y # ys)). item_key x \<le> item_key z"
    using least_item_le [of _ y ys] x(1) notin_set_remove1 by metis
  ultimately show "mset (wq_items q) = add_mset x (mset (wq_items q')) \<and>
      (\<forall>z \<in># mset (wq_items q'). item_key x \<le> item_key z)"
    using q x(2) by simp
qed

section \<open>Draining a queue\<close>

text \<open>What the workers take out of a queue into which nothing more is put.\<close>

fun wq_drain :: "nat \<Rightarrow> 'a work_queue \<Rightarrow> 'a prioritized_item list" where
  "wq_drain 0 q = []"
| "wq_drain (Suc n) q = (case wq_pop q of None \<Rightarrow> [] | Some (x, q') \<Rightarrow> x # wq_drain n q')"

fun wq_put_all :: "(int option \<times> 'a option) list \<Rightarrow> 'a work_queue \<Rightarrow> 'a work_queue" where
  "wq_put_all [] q = q"
| "wq_put_all ((p, item) # puts) q = wq_put_all puts (wq_put p item q)"

lemma wq_drain_props:
  "length (wq_items q) = n \<Longrightarrow> mset (wq_drain n q) = mset (wq_items q) \<and> sorted (map item_key (wq_drain n q))"
proof (induction n arbitrary: q)
  case 0
  then show ?case by simp
next
  case (Suc n)
  then have "mset (wq_items q) \<noteq> {#}" by auto
  then obtain x q' where p: "wq_pop q = Some (x, q')" using wq.pop_None [of q] by (cases "wq_pop q") auto
  note s = wq.pop_Some [OF p]
  then have "length (wq_items q') = n" using Suc.prems by (metis Suc_inject size_add_mset size_mset)
  then have IH: "mset (wq_drain n q') = mset (wq_items q')" "sorted (map item_key (wq_drain n q'))"
    using Suc.IH by blast+
  then have "set (wq_drain n q') = set (wq_items q')" by (metis mset_eq_setD)
  with s IH p show ?case by simp
qed

text \<open>Items carry the numbers of their \<open>put\<close> calls.\<close>

definition wq_ok :: "'a work_queue \<Rightarrow> bool" where
  "wq_ok q \<longleftrightarrow> distinct (map pi_count (wq_items q)) \<and> (\<forall>x \<in> set (wq_items q). pi_count x < wq_counter q)"

lemma wq_ok_new [simp]: "wq_ok new_work_queue"
  by (simp add: wq_ok_def new_work_queue_def)

lemma wq_ok_put [intro]: "wq_ok q \<Longrightarrow> wq_ok (wq_put p item q)"
  by (auto simp: wq_ok_def wq_put_def Let_def less_Suc_eq)

lemma wq_ok_pop:
  assumes "wq_ok q" "wq_pop q = Some (x, q')"
  shows "wq_ok q'"
proof -
  have m: "mset (wq_items q) = add_mset x (mset (wq_items q'))" using wq.pop_Some [OF assms(2)] by blast
  have "mset (map pi_count (wq_items q)) = mset (pi_count x # map pi_count (wq_items q'))"
    using m by (metis image_mset_add_mset mset.simps(2) mset_map)
  then have "distinct (pi_count x # map pi_count (wq_items q'))"
    using assms(1) unfolding wq_ok_def by (metis mset_eq_imp_distinct_iff)
  moreover have "set (wq_items q') \<subseteq> set (wq_items q)" using m by (metis set_mset_mset set_mset_add_mset_insert subset_insertI)
  moreover have "wq_counter q' = wq_counter q"
    using assms(2) by (auto simp: wq_pop_def Let_def split: list.splits)
  ultimately show ?thesis using assms(1) by (auto simp: wq_ok_def)
qed

lemma sort_key_eq_self: "sorted (map f xs) \<Longrightarrow> sort_key f xs = xs"
  by (rule properties_for_sort_key) simp_all

lemma distinct_keys_filter:
  "distinct (map f ys) \<Longrightarrow> y \<in> set ys \<Longrightarrow> filter (\<lambda>x. f y = f x) ys = [y]"
proof (induction ys)
  case (Cons z zs)
  then show ?case by (cases "y = z") (auto simp: filter_empty_conv dest: rev_image_eqI [of y _ _ f])
qed simp

lemma sort_key_unique:
  assumes "mset ys = mset xs" "distinct (map f xs)" "sorted (map f ys)"
  shows "ys = sort_key f xs"
proof (rule sym, rule properties_for_sort_key)
  fix k
  assume k: "k \<in> set ys"
  have "mset (map f ys) = mset (map f xs)" using assms(1) by simp
  then have "distinct (map f ys)" using assms(2) mset_eq_imp_distinct_iff by blast
  moreover have "k \<in> set xs" using k mset_eq_setD [OF assms(1)] by simp
  ultimately show "filter (\<lambda>x. f k = f x) ys = filter (\<lambda>x. f k = f x) xs"
    using k assms(2) by (simp add: distinct_keys_filter)
qed (use assms in simp_all)

lemma item_key_distinct: "distinct (map pi_count xs) \<Longrightarrow> distinct (map item_key xs)"
  by (induction xs) (auto simp: item_key_def)

lemma wq_drain_sort:
  "wq_ok q \<Longrightarrow> wq_drain (length (wq_items q)) q = sort_key item_key (wq_items q)"
  using wq_drain_props [of q "length (wq_items q)"]
  by (intro sort_key_unique) (auto simp: wq_ok_def item_key_distinct)

text \<open>With ascending numbers, ordering by priority and number is a stable sort by priority.\<close>

lemma sort_key_stable:
  assumes "sorted (map pi_count xs)"
  shows "sort_key item_key xs = sort_key pi_priority xs"
proof (rule sym, rule properties_for_sort_key)
  fix k
  assume "k \<in> set (sort_key item_key xs)"
  let ?zs = "filter (\<lambda>x. pi_priority k = pi_priority x) xs"
  have "sorted (map item_key ?zs)"
    using assms by (induction xs) (auto simp: item_key_def less_eq_prod_def)
  then show "filter (\<lambda>x. pi_priority k = pi_priority x) (sort_key item_key xs) = ?zs"
    by (simp add: filter_sort sort_key_eq_self)
next
  have "sorted (map item_key (sort_key item_key xs))" by simp
  then show "sorted (map pi_priority (sort_key item_key xs))"
    unfolding sorted_map by (rule sorted_wrt_mono_rel [rotated]) (auto simp: item_key_def less_eq_prod_def)
qed simp

text \<open>Sorting commutes with a renaming of the elements.\<close>

lemma map_insort_key: "map f (insort_key (\<lambda>x. g (f x)) x xs) = insort_key g (f x) (map f xs)"
  by (induction xs) auto

lemma map_sort_key: "map f (sort_key (\<lambda>x. g (f x)) xs) = sort_key g (map f xs)"
  by (induction xs) (simp_all add: map_insort_key)

section \<open>What the workers see\<close>

text \<open>The priority a \<open>put\<close> gives its item.\<close>

definition put_priority :: "int option \<times> 'a option \<Rightarrow> priority" where
  "put_priority put = (case snd put of None \<Rightarrow> PrioInf
     | Some _ \<Rightarrow> Prio (case fst put of None \<Rightarrow> 0 | Some p \<Rightarrow> p))"

definition numbered_item :: "(int option \<times> 'a option) \<times> nat \<Rightarrow> 'a prioritized_item" where
  "numbered_item x = \<lparr>pi_priority = put_priority (fst x), pi_count = snd x, pi_item = snd (fst x)\<rparr>"

lemma wq_put_numbered:
  "wq_items (wq_put p item q) = wq_items q @ [numbered_item ((p, item), wq_counter q)]"
  "wq_counter (wq_put p item q) = Suc (wq_counter q)"
  by (simp_all add: wq_put_def Let_def numbered_item_def put_priority_def split: option.splits)

lemma wq_put_all_items:
  "wq_items (wq_put_all puts q) =
     wq_items q @ map numbered_item (zip puts [wq_counter q..<wq_counter q + length puts])"
proof (induction puts q rule: wq_put_all.induct)
  case (2 p item puts q)
  have "[wq_counter q..<wq_counter q + length ((p, item) # puts)] =
      wq_counter q # [Suc (wq_counter q)..<Suc (wq_counter q) + length puts]"
    by (simp add: upt_conv_Cons del: upt_Suc)
  with 2 show ?case by (simp add: wq_put_numbered del: upt_Suc)
qed simp

lemma wq_put_all_ok: "wq_ok q \<Longrightarrow> wq_ok (wq_put_all puts q)"
  by (induction puts q rule: wq_put_all.induct) auto

lemma wq_drain_new:
  "map pi_item (wq_drain (length puts) (wq_put_all puts new_work_queue)) =
     map snd (sort_key put_priority puts)"
proof -
  let ?q = "wq_put_all puts new_work_queue" and ?zs = "zip puts [0..<length puts]"
  have items: "wq_items ?q = map numbered_item ?zs"
    by (simp add: wq_put_all_items new_work_queue_def)
  have "map pi_count (wq_items ?q) = [0..<length puts]"
    by (simp add: items numbered_item_def o_def)
  then have "wq_drain (length puts) ?q = sort_key pi_priority (wq_items ?q)"
    using wq_drain_sort [of ?q] wq_put_all_ok [of new_work_queue puts] items
    by (simp add: sort_key_stable)
  also have "\<dots> = map numbered_item (sort_key (\<lambda>x. put_priority (fst x)) ?zs)"
    unfolding items by (simp flip: map_sort_key add: numbered_item_def)
  finally have "map pi_item (wq_drain (length puts) ?q) =
      map snd (map fst (sort_key (\<lambda>x. put_priority (fst x)) ?zs))"
    by (simp add: numbered_item_def o_def)
  then show ?thesis by (simp only: map_sort_key) simp
qed

text \<open>
  C30. A queue into which \<open>puts\<close> were made and that the workers then empty hands its items out in
  a stable order of priority: a smaller priority first, equal priorities in the order of the
  \<open>put\<close> calls, and the \<open>None\<close> sentinels, whose priority is infinite, after every task.
\<close>

theorem work_queue_drains_by_priority:
  "map pi_item (wq_drain (length puts) (wq_put_all puts new_work_queue)) =
     map snd (sort_key put_priority puts)"
  by (rule wq_drain_new)

text \<open>
  \<open>get\<close> interleaved with \<open>put\<close> in any way: it removes exactly the item it returns, and every
  item left behind has a greater priority, or the same priority and a later \<open>put\<close>; numbers stay
  unique, so no two items ever compare as equal.
\<close>

theorem work_queue_get_takes_first:
  assumes "wq_ok q" and "wq_pop q = Some (x, q')"
  shows "wq_ok q' \<and> mset (wq_items q) = add_mset x (mset (wq_items q')) \<and>
    (\<forall>y \<in> set (wq_items q'). pi_priority x < pi_priority y \<or>
       (pi_priority x = pi_priority y \<and> pi_count x < pi_count y))"
proof -
  note p = wq.pop_Some [OF assms(2)]
  have "mset (map pi_count (wq_items q)) = mset (map pi_count (x # wq_items q'))"
    using p by simp
  then have d: "distinct (map pi_count (x # wq_items q'))"
    using assms(1) mset_eq_imp_distinct_iff unfolding wq_ok_def by blast
  have "pi_priority x < pi_priority y \<or> (pi_priority x = pi_priority y \<and> pi_count x < pi_count y)"
    if "y \<in> set (wq_items q')" for y
  proof -
    have "item_key x \<le> item_key y" using p that by simp
    moreover have "pi_count x \<noteq> pi_count y" using d that by auto
    ultimately show ?thesis by (auto simp: item_key_def less_eq_prod_def)
  qed
  then show ?thesis using p wq_ok_pop [OF assms] by blast
qed

definition demo_queue :: "nat work_queue" where
  "demo_queue = wq_put_all [(None, Some 5), (Some (- 1), Some 7), (None, None)] new_work_queue"

theorem work_queue_get_takes_first_witness:
  "\<exists>q'. wq_ok q' \<and> wq_pop demo_queue = Some (\<lparr>pi_priority = Prio (- 1), pi_count = 1, pi_item = Some 7\<rparr>, q') \<and>
     wq_qsize q' = 2 \<and> (\<forall>y \<in> set (wq_items q'). Prio (- 1) < pi_priority y \<or>
       (Prio (- 1) = pi_priority y \<and> 1 < pi_count y))"
proof -
  let ?x = "\<lparr>pi_priority = Prio (- 1), pi_count = 1, pi_item = Some (7 :: nat)\<rparr>"
  let ?q' = "\<lparr>wq_items = [\<lparr>pi_priority = Prio 0, pi_count = 0, pi_item = Some 5\<rparr>,
     \<lparr>pi_priority = PrioInf, pi_count = 2, pi_item = None\<rparr>], wq_counter = 3\<rparr>"
  have p: "wq_pop demo_queue = Some (?x, ?q')"
    by (simp add: demo_queue_def new_work_queue_def wq_put_def wq_pop_def item_lt_def less_priority_def)
  have "wq_ok demo_queue"
    unfolding demo_queue_def by (intro wq_put_all_ok wq_ok_new)
  from work_queue_get_takes_first [OF this p] p show ?thesis
    by (intro exI [of _ ?q']) (simp add: wq_qsize_def)
qed

end
