(* ===== verification/Framing.thy ===== *)
theory Framing
  imports Wire_Format
begin

text \<open>
  The interface between a byte stream and the self-delimiting frames in it. Two parsers of the
  program walk a buffer frame by frame: \<open>_parse_response\<close> over the records of a response body
  and the write handler of the mock server over the write frames. What each of them relies on
  is stated once, as the laws of a frame recogniser, and what follows for a whole buffer is
  proved once: complete buffers give every frame back, cut buffers a prefix.
\<close>

text \<open>\<open>recog body off\<close> recognises one frame and gives the offset behind it; \<open>frames_from\<close> reads at
  most \<open>n\<close> frames and gives the offset behind the last complete one.\<close>

fun frames_from :: "(byte list \<Rightarrow> nat \<Rightarrow> ('w \<times> nat) option) \<Rightarrow> nat \<Rightarrow> byte list \<Rightarrow> nat \<Rightarrow> 'w list \<times> nat" where
  "frames_from recog 0 body off = ([], off)"
| "frames_from recog (Suc n) body off =
     (case recog body off of None \<Rightarrow> ([], off)
      | Some (w, off') \<Rightarrow> (case frames_from recog n body off' of (ws, end) \<Rightarrow> (w # ws, end)))"

locale framing =
  fixes enc :: "'w \<Rightarrow> byte list"
    and recog :: "byte list \<Rightarrow> nat \<Rightarrow> ('w \<times> nat) option"
    and valid :: "'w \<Rightarrow> bool"
  assumes at_enc: "valid w \<Longrightarrow> recog (pre @ enc w @ rest) (length pre) = Some (w, length pre + length (enc w))"
    and at_grows: "recog body off = Some (w, off') \<Longrightarrow> off < off' \<and> off' \<le> length body"
    and at_cut: "recog (take m body) off = Some x \<Longrightarrow> recog body off = Some x"
    and at_end: "recog body (length body) = None"
begin

lemma frames_from_enc:
  "\<forall>w \<in> set ws. valid w \<Longrightarrow>
   frames_from recog (length ws) (pre @ concat (map enc ws) @ rest) (length pre) =
     (ws, length pre + length (concat (map enc ws)))"
proof (induction ws arbitrary: pre)
  case Nil
  then show ?case by simp
next
  case (Cons w ws)
  let ?body = "pre @ concat (map enc (w # ws)) @ rest"
  have here: "recog ?body (length pre) = Some (w, length pre + length (enc w))"
    using at_enc [of w pre "concat (map enc ws) @ rest"] Cons.prems by simp
  have "frames_from recog (length ws) ((pre @ enc w) @ concat (map enc ws) @ rest) (length (pre @ enc w))
      = (ws, length (pre @ enc w) + length (concat (map enc ws)))"
    using Cons.prems by (intro Cons.IH) simp
  then have "frames_from recog (length ws) ?body (length pre + length (enc w))
      = (ws, length pre + length (enc w) + length (concat (map enc ws)))"
    by simp
  with here show ?case by simp
qed

text \<open>At the end of the buffer nothing more is read, however many frames are asked for.\<close>

lemma frames_from_end: "frames_from recog n body (length body) = ([], length body)"
  by (cases n) (simp_all add: at_end)

lemma frames_from_enc_more:
  assumes "\<forall>w \<in> set ws. valid w"
  shows "frames_from recog (length ws + k) (pre @ concat (map enc ws)) (length pre) =
     (ws, length pre + length (concat (map enc ws)))"
  using assms
proof (induction ws arbitrary: pre)
  case Nil
  then show ?case using frames_from_end [of k pre] by simp
next
  case (Cons w ws)
  let ?body = "pre @ concat (map enc (w # ws))"
  have here: "recog ?body (length pre) = Some (w, length pre + length (enc w))"
    using at_enc [of w pre "concat (map enc ws)"] Cons.prems by simp
  have "frames_from recog (length ws + k) ((pre @ enc w) @ concat (map enc ws)) (length (pre @ enc w))
      = (ws, length (pre @ enc w) + length (concat (map enc ws)))"
    using Cons.prems by (intro Cons.IH) simp
  then show ?case using here by simp
qed

lemma frames_from_bound:
  "off \<le> length body \<Longrightarrow>
   off \<le> snd (frames_from recog n body off) \<and> snd (frames_from recog n body off) \<le> length body"
proof (induction n arbitrary: off)
  case 0
  then show ?case by simp
next
  case (Suc n)
  show ?case
  proof (cases "recog body off")
    case None
    with Suc.prems show ?thesis by simp
  next
    case (Some p)
    obtain w off' where p: "p = (w, off')" by (cases p)
    then have "off < off'" and "off' \<le> length body" using at_grows Some by blast+
    with Suc.IH [of off'] Some p show ?thesis by (auto split: prod.splits)
  qed
qed

text \<open>A cut buffer gives a prefix of the frames of the whole one.\<close>

lemma frames_from_cut:
  "\<exists>vs. fst (frames_from recog n body off) = fst (frames_from recog n (take m body) off) @ vs"
proof (induction n arbitrary: off)
  case 0
  then show ?case by simp
next
  case (Suc n)
  show ?case
  proof (cases "recog (take m body) off")
    case None
    then show ?thesis by simp
  next
    case (Some p)
    obtain w off' where p: "p = (w, off')" by (cases p)
    from Some have "recog body off = Some p" by (rule at_cut)
    with Some p Suc.IH [of off'] show ?thesis
      by (auto split: prod.splits)
  qed
qed

end

end
