(* ===== verification/Response_Codec.thy ===== *)
theory Response_Codec
  imports Record_Codec Framing
begin

text \<open>
  The response side of the query protocol in \<open>client/dbclient.py\<close>: the 61-byte header and the
  records of the body, with \<open>_parse_response\<close>.
\<close>

section \<open>Response header\<close>

record resp_header =
  h_total_size :: int
  h_req_id :: int
  h_limit :: int
  h_min_key :: "byte list"
  h_max_key :: "byte list"
  h_records_bytes :: int
  h_records_count :: int

definition decode_header :: "byte list \<Rightarrow> resp_header res" where
  "decode_header header_data = bind_res (struct_unpack QUERY_RESP_HEADER_FMT header_data)
     (\<lambda>unpacked. case unpacked of
        [SInt total_size, SInt req_id, SInt limit, SBytes min_key_raw, SBytes max_key_raw,
         SInt records_bytes, SInt records_count] \<Rightarrow>
          Inr \<lparr>h_total_size = total_size, h_req_id = req_id, h_limit = limit,
               h_min_key = min_key_raw, h_max_key = max_key_raw,
               h_records_bytes = records_bytes, h_records_count = records_count\<rparr>
      | _ \<Rightarrow> Inl ValueError)"

definition encode_header :: "resp_header \<Rightarrow> byte list res" where
  "encode_header h = struct_pack QUERY_RESP_HEADER_FMT
     [SInt (h_total_size h), SInt (h_req_id h), SInt (h_limit h), SBytes (h_min_key h),
      SBytes (h_max_key h), SInt (h_records_bytes h), SInt (h_records_count h)]"

definition header_ok :: "resp_header \<Rightarrow> bool" where
  "header_ok h \<longleftrightarrow> is_u64 (h_total_size h) \<and> is_u64 (h_req_id h) \<and> 0 \<le> h_limit h \<and> h_limit h < 256 \<and>
     length (h_min_key h) = 16 \<and> length (h_max_key h) = 16 \<and> is_u64 (h_records_bytes h) \<and>
     is_u32 (h_records_count h)"

lemma header_args_ok:
  "header_ok h \<Longrightarrow> list_all2 field_val_ok QUERY_RESP_HEADER_FMT
     [SInt (h_total_size h), SInt (h_req_id h), SInt (h_limit h), SBytes (h_min_key h),
      SBytes (h_max_key h), SInt (h_records_bytes h), SInt (h_records_count h)]"
  by (simp add: header_ok_def QUERY_RESP_HEADER_FMT_def is_u64_def is_u32_def)

lemma encode_header_total: "header_ok h \<Longrightarrow> \<exists>bs. encode_header h = Inr bs"
  unfolding encode_header_def by (rule struct_pack_total) (rule header_args_ok)

lemma encode_header_length: "encode_header h = Inr bs \<Longrightarrow> length bs = QUERY_RESP_HEADER_SIZE"
  unfolding encode_header_def by (drule struct_pack_length) simp

lemma decode_encode_header:
  assumes "header_ok h" and "encode_header h = Inr bs"
  shows "decode_header bs = Inr h"
  using struct_unpack_pack [OF header_args_ok [OF assms(1)]] assms(2)
  by (simp add: decode_header_def encode_header_def)

text \<open>A header of the right length always unpacks; only its length can be wrong.\<close>

lemma decode_header_eq:
  "decode_header bs = (if length bs = QUERY_RESP_HEADER_SIZE then
     Inr \<lparr>h_total_size = le_int (take 8 bs), h_req_id = le_int (take 8 (drop 8 bs)),
          h_limit = le_int (take 1 (drop 16 bs)), h_min_key = take 16 (drop 17 bs),
          h_max_key = take 16 (drop 33 bs), h_records_bytes = le_int (take 8 (drop 49 bs)),
          h_records_count = le_int (take 4 (drop 57 bs))\<rparr>
   else Inl StructError)"
  by (simp add: decode_header_def struct_unpack_def QUERY_RESP_HEADER_FMT_def
      QUERY_RESP_HEADER_SIZE_def)

section \<open>Records of a response body\<close>

definition unpack_int_from :: "field \<Rightarrow> byte list \<Rightarrow> nat \<Rightarrow> int res" where
  "unpack_int_from f body off = bind_res (struct_unpack_from [f] body off)
     (\<lambda>vs. case vs of [SInt v] \<Rightarrow> Inr v | _ \<Rightarrow> Inl ValueError)"

definition unpack_key_from :: "byte list \<Rightarrow> nat \<Rightarrow> (int \<times> int) res" where
  "unpack_key_from body off = bind_res (struct_unpack_from [FQ, FQ] body off)
     (\<lambda>vs. case vs of [SInt k, SInt ts] \<Rightarrow> Inr (k, ts) | _ \<Rightarrow> Inl ValueError)"

definition read_content :: "int \<Rightarrow> byte list \<Rightarrow> content res" where
  "read_content rec_type content_raw =
     (if rec_type = LSMT_TYPE_INT \<and> length content_raw = 8
      then bind_res (struct_unpack [FQ] content_raw)
             (\<lambda>vs. case vs of [SInt v] \<Rightarrow> Inr (CInt v) | _ \<Rightarrow> Inl ValueError)
      else Inr (CBytes content_raw))"

text \<open>The loop over \<open>range(records_count)\<close>: a record cut short by the end of the body ends it.\<close>

fun parse_records :: "nat \<Rightarrow> byte list \<Rightarrow> nat \<Rightarrow> db_record list res" where
  "parse_records 0 body off = Inr []"
| "parse_records (Suc n) body off =
     (if length body < off + 21 then Inr []
      else bind_res (unpack_key_from body off) (\<lambda>(key, ts).
        bind_res (unpack_int_from FB body (off + 16)) (\<lambda>rec_type.
        bind_res (unpack_int_from FI body (off + 17)) (\<lambda>content_size.
          let off' = off + 21 in
          if length body < off' + nat content_size then Inr []
          else bind_res (read_content rec_type (take (nat content_size) (drop off' body)))
            (\<lambda>c. bind_res (parse_records n body (off' + nat content_size))
              (\<lambda>rs. Inr (\<lparr>key_id = key, timestamp = ts, content = c\<rparr> # rs)))))))"

record response =
  r_req_id :: int
  r_limit_reached :: bool
  r_min_id :: int
  r_min_ts :: int
  r_max_id :: int
  r_max_ts :: int
  r_records_bytes :: int
  r_records_count :: int
  r_records :: "db_record list"
  r_recv_ts :: "rat option"

definition parse_response ::
  "int \<Rightarrow> int \<Rightarrow> int \<Rightarrow> int \<Rightarrow> int \<Rightarrow> int \<Rightarrow> int \<Rightarrow> int \<Rightarrow> byte list \<Rightarrow> bool \<Rightarrow> response res" where
  "parse_response req_id limit_reached mn_id mn_ts mx_id mx_ts records_bytes records_count
      body_data skip_records =
     (let result = \<lparr>r_req_id = req_id, r_limit_reached = (limit_reached \<noteq> 0), r_min_id = mn_id,
        r_min_ts = mn_ts, r_max_id = mx_id, r_max_ts = mx_ts, r_records_bytes = records_bytes,
        r_records_count = records_count, r_records = [], r_recv_ts = None\<rparr>
      in if \<not> skip_records \<and> body_data \<noteq> [] \<and> 0 < records_count
         then bind_res (parse_records (nat records_count) body_data 0)
                (\<lambda>rs. Inr (result\<lparr>r_records := rs\<rparr>))
         else Inr result)"

section \<open>The record layout as frames\<close>

text \<open>A record on the wire: key, timestamp, type byte and raw content.\<close>

record wire_record =
  w_key :: int
  w_ts :: int
  w_type :: int
  w_raw :: "byte list"

definition wire_ok :: "wire_record \<Rightarrow> bool" where
  "wire_ok w \<longleftrightarrow> is_u64 (w_key w) \<and> is_u64 (w_ts w) \<and> 0 \<le> w_type w \<and> w_type w < 256 \<and>
     int (length (w_raw w)) < 2 ^ 32"

definition wire_bytes :: "wire_record \<Rightarrow> byte list" where
  "wire_bytes w = key_bytes (w_key w) (w_ts w) @ le_bytes 1 (w_type w) @
     le_bytes 4 (int (length (w_raw w))) @ w_raw w"

definition content_value :: "int \<Rightarrow> byte list \<Rightarrow> content" where
  "content_value t raw =
     (if t = LSMT_TYPE_INT \<and> length raw = 8 then CInt (le_int raw) else CBytes raw)"

definition decode_wire :: "wire_record \<Rightarrow> db_record" where
  "decode_wire w = \<lparr>key_id = w_key w, timestamp = w_ts w, content = content_value (w_type w) (w_raw w)\<rparr>"

definition record_at :: "byte list \<Rightarrow> nat \<Rightarrow> (wire_record \<times> nat) option" where
  "record_at body off =
     (if length body < off + 21 then None
      else let size = nat (le_int (take 4 (drop (off + 17) body))) in
        if length body < off + 21 + size then None
        else Some (\<lparr>w_key = le_int (take 8 (drop off body)),
                    w_ts = le_int (take 8 (drop (off + 8) body)),
                    w_type = le_int (take 1 (drop (off + 16) body)),
                    w_raw = take size (drop (off + 21) body)\<rparr>, off + 21 + size))"

lemma read_content_eq: "read_content t raw = Inr (content_value t raw)"
  by (simp add: read_content_def content_value_def struct_unpack_def)

lemma parse_records_step:
  "parse_records (Suc n) body off =
     (case record_at body off of None \<Rightarrow> Inr []
      | Some (w, off') \<Rightarrow> bind_res (parse_records n body off') (\<lambda>rs. Inr (decode_wire w # rs)))"
proof (cases "length body < off + 21")
  case True
  then show ?thesis by (simp add: record_at_def)
next
  case False
  let ?k = "le_int (take 8 (drop off body))" and ?ts = "le_int (take 8 (drop (off + 8) body))"
    and ?t = "le_int (take 1 (drop (off + 16) body))"
    and ?n = "le_int (take 4 (drop (off + 17) body))"
  have key: "unpack_key_from body off = Inr (?k, ?ts)"
    using False by (simp add: unpack_key_from_def struct_unpack_from_def add.commute)
  have t: "unpack_int_from FB body (off + 16) = Inr ?t"
    and n: "unpack_int_from FI body (off + 17) = Inr ?n"
    using False by (simp_all add: unpack_int_from_def struct_unpack_from_def)
  show ?thesis
  proof (cases "length body < off + 21 + nat ?n")
    case True
    with False key t n show ?thesis by (simp add: record_at_def Let_def)
  next
    case fits: False
    show ?thesis
      using False fits by (simp add: record_at_def Let_def key t n read_content_eq decode_wire_def)
  qed
qed

text \<open>No input makes the parser raise: it gives the decoded frames it recognises.\<close>

lemma parse_records_frames:
  "parse_records n body off = Inr (map decode_wire (fst (frames_from record_at n body off)))"
proof (induction n arbitrary: off)
  case 0
  then show ?case by simp
next
  case (Suc n)
  show ?case unfolding parse_records_step
    by (auto simp: Suc.IH split: option.splits prod.splits)
qed

declare parse_records.simps [simp del]

lemma nat_le_int_bytes:
  "int (length raw) < 2 ^ 32 \<Longrightarrow> nat (le_int (le_bytes 4 (int (length raw)))) = length raw"
  by (simp add: le_int_le_bytes)

lemma record_at_wire:
  assumes "wire_ok w"
  shows "record_at (pre @ wire_bytes w @ rest) (length pre) =
    Some (w, length pre + length (wire_bytes w))"
proof -
  let ?n = "le_bytes 4 (int (length (w_raw w)))"
  have len: "length (wire_bytes w) = 21 + length (w_raw w)"
    by (simp add: wire_bytes_def)
  have n: "nat (le_int ?n) = length (w_raw w)"
    using assms by (intro nat_le_int_bytes) (simp add: wire_ok_def)
  have k: "le_int (le_bytes 8 (w_key w)) = w_key w" and ts: "le_int (le_bytes 8 (w_ts w)) = w_ts w"
    and t: "le_int (le_bytes (Suc 0) (w_type w)) = w_type w"
    using assms by (simp_all add: le_int_le_bytes wire_ok_def is_u64_def uint_byte_of_int)
  show ?thesis
    using n k ts t
    by (simp add: record_at_def len Let_def) (simp add: wire_bytes_def key_bytes_def)
qed

lemma record_at_cut:
  assumes "record_at (take m body) off = Some x"
  shows "record_at body off = Some x"
proof -
  let ?n = "nat (le_int (take 4 (drop (off + 17) body)))"
  from assms have m: "off + 21 \<le> m" and len: "off + 21 \<le> length body"
    by (auto simp: record_at_def split: if_splits)
  then have n: "nat (le_int (take 4 (drop (off + 17) (take m body)))) = ?n"
    by (simp add: take_drop_cut)
  have fits: "off + 21 + ?n \<le> m" "off + 21 + ?n \<le> length body"
    using assms unfolding record_at_def n by (auto simp: Let_def split: if_splits)
  then have "\<not> length (take m body) < off + 21" "\<not> length (take m body) < off + 21 + ?n"
    "\<not> length body < off + 21" "\<not> length body < off + 21 + ?n"
    by auto
  then have "record_at (take m body) off = record_at body off"
    using fits(1) unfolding record_at_def n by (simp only: Let_def if_False) (simp add: take_drop_cut)
  with assms show ?thesis by simp
qed

interpretation resp_frames: framing wire_bytes record_at wire_ok
proof unfold_locales
  fix w pre rest
  assume "wire_ok w"
  then show "record_at (pre @ wire_bytes w @ rest) (length pre) =
      Some (w, length pre + length (wire_bytes w))"
    by (rule record_at_wire)
next
  fix body off w off'
  assume "record_at body off = Some (w, off')"
  then show "off < off' \<and> off' \<le> length body"
    by (auto simp: record_at_def Let_def split: if_splits)
next
  fix m body off x
  assume "record_at (take m body) off = Some x"
  then show "record_at body off = Some x"
    by (rule record_at_cut)
next
  fix body
  show "record_at body (length body) = None"
    by (simp add: record_at_def)
qed

end
