(* ===== verification/Mock_Server.thy ===== *)
theory Mock_Server
  imports Response_Codec
begin

text \<open>
  \<open>mocks/mock_server.py\<close>: the server the client's tests run against. A connection is the list
  of chunks its socket delivers (an empty chunk is the end of the stream); a handler gives the
  bytes it sends before it closes. The waiting loops around \<open>select\<close> only delay a chunk.
\<close>

record mock_server =
  ms_write_port :: int
  ms_leader_id :: int
  ms_is_leader :: bool

section \<open>Decimal text\<close>

text \<open>The decimal digits of an integer, as an f-string prints it.\<close>

fun digits_of :: "nat \<Rightarrow> string" where
  "digits_of n = (if n < 10 then [char_of (48 + n)] else digits_of (n div 10) @ [char_of (48 + n mod 10)])"

declare digits_of.simps [simp del]

definition show_int :: "int \<Rightarrow> string" where
  "show_int i = (if i < 0 then CHR ''-'' # digits_of (nat (- i)) else digits_of (nat i))"

text \<open>\<open>encode('utf-8')\<close> of text in the ASCII range.\<close>

definition ascii :: "string \<Rightarrow> byte list" where
  "ascii = map (\<lambda>c. of_nat (of_char c))"

section \<open>The write handler\<close>

definition redirect_msg :: "mock_server \<Rightarrow> byte list" where
  "redirect_msg s = ascii (''REDIRECT '' @ show_int (ms_leader_id s) @ '' 127.0.0.1 '' @
     show_int (ms_write_port s) @ [char_of (10 :: nat)])"

text \<open>
  The loop that counts complete messages in the buffer. The four length bytes are part of the
  length they announce; a message announcing length zero would keep the loop running for ever.
\<close>

partial_function (option) drain_messages :: "byte list \<Rightarrow> nat \<Rightarrow> (byte list \<times> nat) option" where
  "drain_messages buffer acks =
     (if length buffer < 4 then Some (buffer, acks)
      else let total_record_size = nat (le_int (take 4 buffer)) in
        if total_record_size \<le> length buffer
        then drain_messages (drop total_record_size buffer) (Suc acks)
        else Some (buffer, acks))"

text \<open>The receive loop of a leader: the bytes sent so far, as an accumulator.\<close>

fun serve_writes :: "byte list \<Rightarrow> byte list list \<Rightarrow> byte list \<Rightarrow> byte list option" where
  "serve_writes buffer [] sent = Some sent"
| "serve_writes buffer (data # chunks) sent =
     (if data = [] then Some sent
      else case drain_messages (buffer @ data) 0 of
             None \<Rightarrow> None
           | Some (buffer', acks_to_send) \<Rightarrow>
               serve_writes buffer' chunks (sent @ replicate acks_to_send 0))"

definition handle_write :: "mock_server \<Rightarrow> byte list list \<Rightarrow> byte list option" where
  "handle_write s chunks =
     (if \<not> ms_is_leader s then Some (redirect_msg s) else serve_writes [] chunks [])"

section \<open>The read handler\<close>

definition mock_record :: "int \<Rightarrow> byte list res" where
  "mock_record key =
     bind_res (struct_pack [FQ] [SInt (key * 10)]) (\<lambda>content_raw.
     bind_res (struct_pack [FQ, FQ, FB, FI] [SInt key, SInt 0, SInt LSMT_TYPE_INT, SInt 8])
       (\<lambda>hd. Inr (hd @ content_raw)))"

definition mock_respond :: "byte list \<Rightarrow> byte list res" where
  "mock_respond req_data =
     bind_res (struct_unpack QUERY_REQ_FMT req_data) (\<lambda>vs. case vs of
       [SInt req_id, SBytes start_key_raw, SBytes end_key_raw] \<Rightarrow>
         bind_res (unpack_key start_key_raw) (\<lambda>(mn_id, mn_ts).
         bind_res (unpack_key end_key_raw) (\<lambda>(mx_id, mx_ts).
           let records_count = min 10 (max 0 (mx_id - mn_id + 1));
               keys = map (\<lambda>idx. mn_id + int idx) [0..<nat records_count];
               actual_max_id = (if keys = [] then mn_id else last keys)
           in bind_res (map_res mock_record keys) (\<lambda>bodies.
                let body_data = concat bodies;
                    limit_reached = (if actual_max_id < mx_id then 1 else 0)
                in bind_res (pack_key mn_id 0) (\<lambda>min_key_raw.
                   bind_res (pack_key actual_max_id 0) (\<lambda>max_key_raw.
                   bind_res (encode_header
                       \<lparr>h_total_size = int QUERY_RESP_HEADER_SIZE + int (length body_data),
                        h_req_id = req_id, h_limit = limit_reached, h_min_key = min_key_raw,
                        h_max_key = max_key_raw, h_records_bytes = int (length body_data),
                        h_records_count = records_count\<rparr>)
                     (\<lambda>header_data. Inr (header_data @ body_data)))))))
     | _ \<Rightarrow> Inl ValueError)"

text \<open>The connection loop: requests of 40 bytes, answered in order; an exception ends it.\<close>

function serve_reads :: "byte list \<Rightarrow> byte list" where
  "serve_reads stream =
     (if length stream < QUERY_REQ_SIZE then []
      else case mock_respond (take QUERY_REQ_SIZE stream) of
             Inl e \<Rightarrow> []
           | Inr resp \<Rightarrow> resp @ serve_reads (drop QUERY_REQ_SIZE stream))"
  by pat_completeness auto
termination
  by (relation "measure length") (auto simp: QUERY_REQ_SIZE_def)

declare serve_reads.simps [simp del]

section \<open>Acknowledgements of a write stream\<close>

text \<open>A message is well-formed when its length field counts it.\<close>

definition message_ok :: "byte list \<Rightarrow> bool" where
  "message_ok m \<longleftrightarrow> 4 \<le> length m \<and> le_int (take 4 m) = int (length m)"

definition message_cut :: "byte list list \<Rightarrow> byte list \<Rightarrow> bool" where
  "message_cut ms p \<longleftrightarrow> p = [] \<or> (\<exists>m rest q. ms = m # rest \<and> m = p @ q \<and> q \<noteq> [])"

lemma write_frame_message: "message_ok (write_frame r)"
  by (simp add: message_ok_def) (simp add: write_frame_def le_int_le_bytes del: le_bytes.simps)

lemma drain_cut:
  assumes "message_cut ms p" and "\<forall>m \<in> set ms. message_ok m"
  shows "drain_messages p acks = Some (p, acks)"
proof (cases "length p < 4")
  case True
  then show ?thesis by (simp add: drain_messages.simps)
next
  case False
  with assms obtain m q where m: "m = p @ q" "q \<noteq> []" "message_ok m" by (auto simp: message_cut_def)
  then have "take 4 m = take 4 p" using False by simp
  then have "le_int (take 4 p) = int (length m)" using m(3) by (simp add: message_ok_def)
  moreover have "length p < length m" using m(1,2) by simp
  ultimately show ?thesis using False by (simp add: drain_messages.simps [of p])
qed

lemma drain_messages_all:
  assumes "\<forall>m \<in> set ms. message_ok m" and "drain_messages p (acks + length ms) = Some r"
  shows "drain_messages (concat ms @ p) acks = Some r"
  using assms
proof (induction ms arbitrary: acks)
  case Nil
  then show ?case by simp
next
  case (Cons m ms)
  have m: "4 \<le> length m" "nat (le_int (take 4 m)) = length m"
    using Cons.prems(1) by (simp_all add: message_ok_def)
  have "drain_messages (concat ms @ p) (Suc acks) = Some r"
    using Cons.prems by (intro Cons.IH) simp_all
  then show ?case using m by (simp add: drain_messages.simps [of "m @ concat ms @ p"])
qed

text \<open>A prefix of a message stream is some whole messages and a cut one.\<close>

lemma split_messages:
  assumes "xs @ ys = concat ms"
  shows "\<exists>done rest p. ms = done @ rest \<and> xs = concat done @ p \<and> p @ ys = concat rest \<and> message_cut rest p"
  using assms
proof (induction ms arbitrary: xs)
  case Nil
  then show ?case by (simp add: message_cut_def)
next
  case (Cons m ms)
  show ?case
  proof (cases "length m \<le> length xs")
    case True
    define xs' where "xs' = drop (length m) xs"
    have "take (length m) xs = m"
      using Cons.prems True by (metis append_eq_append_conv_if append_take_drop_id concat.simps(2) take_all_iff)
    then have xs: "xs = m @ xs'" unfolding xs'_def by (metis append_take_drop_id)
    then have "xs' @ ys = concat ms" using Cons.prems by simp
    then obtain dn rest p where "ms = dn @ rest" "xs' = concat dn @ p" "p @ ys = concat rest"
      "message_cut rest p" using Cons.IH by blast
    then show ?thesis using xs by (intro exI [of _ "m # dn"] exI [of _ rest] exI [of _ p]) simp
  next
    case False
    define q where "q = drop (length xs) m"
    have "take (length xs) m = xs"
      using Cons.prems False by (metis append_eq_conv_conj concat.simps(2) nat_le_linear take_append
        append_Nil2 diff_is_0_eq take_0)
    then have "m = xs @ q" unfolding q_def by (metis append_take_drop_id)
    moreover have "q \<noteq> []" using False by (simp add: q_def)
    ultimately show ?thesis using Cons.prems
      by (intro exI [of _ "[]"] exI [of _ "m # ms"] exI [of _ xs]) (auto simp: message_cut_def)
  qed
qed

lemma serve_writes_acks:
  assumes "p @ concat chunks = concat ms" and "message_cut ms p" and "\<forall>m \<in> set ms. message_ok m"
    and "[] \<notin> set chunks"
  shows "serve_writes p chunks sent = Some (sent @ replicate (length ms) 0)"
  using assms
proof (induction chunks arbitrary: p ms sent)
  case Nil
  have "ms = []"
  proof (rule ccontr)
    assume "ms \<noteq> []"
    then obtain m rest where ms: "ms = m # rest" by (cases ms) auto
    then have "4 \<le> length m" using Nil.prems(3) by (simp add: message_ok_def)
    then show False using Nil.prems(1,2) ms by (auto simp: message_cut_def)
  qed
  then show ?case by simp
next
  case (Cons data chunks)
  have "(p @ data) @ concat chunks = concat ms" using Cons.prems(1) by simp
  then obtain dn rest p' where s: "ms = dn @ rest" "p @ data = concat dn @ p'"
    "p' @ concat chunks = concat rest" "message_cut rest p'" using split_messages by blast
  have "drain_messages p' (0 + length dn) = Some (p', length dn)"
    using drain_cut [OF s(4)] Cons.prems(3) s(1) by simp
  then have "drain_messages (p @ data) 0 = Some (p', length dn)"
    unfolding s(2) using Cons.prems(3) s(1) by (intro drain_messages_all) simp_all
  moreover have "serve_writes p' chunks (sent @ replicate (length dn) 0) =
      Some ((sent @ replicate (length dn) 0) @ replicate (length rest) 0)"
    using Cons.prems(3,4) s by (intro Cons.IH) simp_all
  moreover have "data \<noteq> []" using Cons.prems(4) by auto
  ultimately show ?case using s(1) by (simp add: replicate_add)
qed

end
