(* ===== verification/Codec_Theorems.thy ===== *)
theory Codec_Theorems
  imports Mock_Server
begin

text \<open>
  The properties of the wire formats: what a write batch is on the wire and how the server counts
  it, and what the client reads from a response body, whole or cut.
\<close>

text \<open>
  C26. \<open>_serialize_batch\<close> gives the concatenation of one 33-byte frame per record - length 33, key,
  timestamp, type 1, size 8, value - whichever of its two branches packs the record, exactly when
  every key, timestamp and integer content fits an unsigned 64-bit field; otherwise it raises
  \<open>struct.error\<close>.
\<close>

theorem serialized_batch_is_frames:
  "serialize_batch batch =
     (if list_all encodable batch then Inr (concat (map write_frame batch)) else Inl StructError)"
  by (simp add: serialize_batch_eq list_all_iff)

text \<open>
  However the bytes of a serialized batch are cut into chunks on the way, a leader sends back
  exactly one zero byte per record.
\<close>

theorem server_acknowledges_every_record:
  assumes "ms_is_leader s" and "serialize_batch batch = Inr (concat chunks)" and "[] \<notin> set chunks"
  shows "handle_write s chunks = Some (replicate (length batch) 0)"
proof -
  have "concat chunks = concat (map write_frame batch)"
    using assms(2) by (simp add: serialize_batch_eq split: if_splits)
  then have "serve_writes [] chunks [] = Some ([] @ replicate (length (map write_frame batch)) 0)"
    using assms(3) write_frame_message by (intro serve_writes_acks) (auto simp: message_cut_def)
  then show ?thesis using assms(1) by (simp add: handle_write_def)
qed

theorem server_acknowledges_every_record_witness:
  "handle_write \<lparr>ms_write_port = 8000, ms_leader_id = 1, ms_is_leader = True\<rparr>
     [take 10 (write_frame \<lparr>key_id = 5, timestamp = 6, content = CInt 7\<rparr>),
      drop 10 (write_frame \<lparr>key_id = 5, timestamp = 6, content = CInt 7\<rparr>)] = Some [0]"
proof -
  let ?r = "\<lparr>key_id = 5, timestamp = 6, content = CInt 7\<rparr>"
  have "serialize_batch [?r] = Inr (concat [take 10 (write_frame ?r), drop 10 (write_frame ?r)])"
    by (simp add: serialize_batch_eq encodable_def is_u64_def)
  moreover have "write_frame ?r \<noteq> []" using length_write_frame [of ?r] by (metis list.size(3) zero_neq_numeral)
  then have "[] \<notin> set [take 10 (write_frame ?r), drop 10 (write_frame ?r)]" by simp
  ultimately show ?thesis
    using server_acknowledges_every_record [of "\<lparr>ms_write_port = 8000, ms_leader_id = 1, ms_is_leader = True\<rparr>" "[?r]"]
    by simp
qed



end
