(* ===== verification/Socket_Pool.thy ===== *)
theory Socket_Pool
  imports Router
begin

text \<open>
  The connection management of \<open>DbClient\<close> in \<open>client/dbclient.py\<close>: \<open>_socket_pools\<close>,
  \<open>_get_socket\<close>, \<open>_return_socket\<close>, \<open>connect\<close> and \<open>disconnect\<close>. A socket is an identity and the
  address it was opened to; the environment of a call says which connection attempts fail and
  which sockets \<open>select\<close> reports as readable.
\<close>

section \<open>Sockets and pools\<close>

record sock =
  sk_id :: nat
  sk_addr :: "string \<times> int"

type_synonym pool_key = "node \<times> bool"

record net =
  pools :: "(pool_key, sock list) dict"
  next_sock :: nat
  closed_socks :: "nat list"

definition empty_net :: net where
  "empty_net = \<lparr>pools = [], next_sock = 0, closed_socks = []\<rparr>"

record sock_env =
  se_connect :: "string \<times> int \<Rightarrow> exc option"
  se_readable :: "nat \<Rightarrow> bool"

text \<open>\<open>_socket_pools\<close> is a \<open>defaultdict\<close>: looking a pool up creates it.\<close>

definition pool_of :: "net \<Rightarrow> pool_key \<Rightarrow> sock list" where
  "pool_of net k = dict_get_default (pools net) k []"

definition set_pool :: "pool_key \<Rightarrow> sock list \<Rightarrow> net \<Rightarrow> net" where
  "set_pool k ss net = net\<lparr>pools := AList.update k ss (pools net)\<rparr>"

definition new_sock :: "string \<times> int \<Rightarrow> net \<Rightarrow> sock \<times> net" where
  "new_sock addr net =
     (\<lparr>sk_id = next_sock net, sk_addr = addr\<rparr>, net\<lparr>next_sock := Suc (next_sock net)\<rparr>)"

definition close_sock :: "sock \<Rightarrow> net \<Rightarrow> net" where
  "close_sock s net = net\<lparr>closed_socks := List.insert (sk_id s) (closed_socks net)\<rparr>"

text \<open>Queries use the node's port plus 1000.\<close>

definition node_addr :: "node \<Rightarrow> bool \<Rightarrow> string \<times> int" where
  "node_addr n for_query = (host n, if for_query then port n + 1000 else port n)"

section \<open>Taking and returning sockets\<close>

text \<open>The loop that discards readable sockets: the result, the rest of the queue and the closed
  sockets. \<open>select\<close> raises \<open>ValueError\<close> on a socket that is closed already.\<close>

fun take_pooled ::
  "(nat \<Rightarrow> bool) \<Rightarrow> sock list \<Rightarrow> nat list \<Rightarrow> sock option res \<times> sock list \<times> nat list" where
  "take_pooled readable [] cl = (Inr None, [], cl)"
| "take_pooled readable (s # ss) cl =
     (if sk_id s \<in> set cl then (Inl ValueError, ss, cl)
      else if readable (sk_id s) then take_pooled readable ss (sk_id s # cl)
      else (Inr (Some s), ss, cl))"

definition get_socket :: "sock_env \<Rightarrow> node \<Rightarrow> bool \<Rightarrow> net \<Rightarrow> sock res \<times> net" where
  "get_socket env n for_query net =
     (case take_pooled (se_readable env) (pool_of net (n, for_query)) (closed_socks net) of
        (r, ss, cl) \<Rightarrow>
          let net1 = (set_pool (n, for_query) ss net)\<lparr>closed_socks := cl\<rparr> in
          case r of
            Inl e \<Rightarrow> (Inl e, net1)
          | Inr (Some s) \<Rightarrow> (Inr s, net1)
          | Inr None \<Rightarrow>
              (case new_sock (node_addr n for_query) net1 of (s, net2) \<Rightarrow>
                 case se_connect env (node_addr n for_query) of
                   Some e \<Rightarrow> (Inl e, net2)
                 | None \<Rightarrow> (Inr s, net2)))"

definition return_socket :: "node \<Rightarrow> sock \<Rightarrow> bool \<Rightarrow> net \<Rightarrow> net" where
  "return_socket n s for_query net =
     set_pool (n, for_query) (pool_of net (n, for_query) @ [s]) net"

section \<open>\<open>connect\<close> and \<open>disconnect\<close>\<close>

text \<open>The probe of one cluster: a node whose fresh connection stays silent is taken as leader.\<close>

fun connect_nodes :: "sock_env \<Rightarrow> node list \<Rightarrow> net \<Rightarrow> registry \<Rightarrow> bool \<times> net \<times> registry" where
  "connect_nodes env [] net reg = (False, net, reg)"
| "connect_nodes env (n # ns) net reg =
     (case new_sock (node_addr n False) net of (s, net1) \<Rightarrow>
        case se_connect env (node_addr n False) of
          Some e \<Rightarrow> connect_nodes env ns net1 reg
        | None \<Rightarrow>
            if se_readable env (sk_id s) then connect_nodes env ns (close_sock s net1) reg
            else (True, return_socket n s False net1, set_leader reg n))"

fun connect_clusters :: "sock_env \<Rightarrow> clusters \<Rightarrow> net \<Rightarrow> registry \<Rightarrow> net \<times> registry" where
  "connect_clusters env [] net reg = (net, reg)"
| "connect_clusters env ((c, nodes) # cs) net reg =
     (case connect_nodes env nodes net reg of (conn, net1, reg1) \<Rightarrow>
        connect_clusters env cs net1 reg1)"

text \<open>\<open>disconnect\<close> empties and closes every pool, then forgets the pools.\<close>

definition disconnect :: "net \<Rightarrow> net" where
  "disconnect net =
     (foldl (\<lambda>net s. close_sock s net) net (concat (map snd (pools net))))\<lparr>pools := []\<rparr>"

lemma pool_of_simps [simp]:
  "pool_of (set_pool k ss net) k' = (if k' = k then ss else pool_of net k')"
  "pool_of (net\<lparr>next_sock := i\<rparr>) k' = pool_of net k'"
  "pool_of (net\<lparr>closed_socks := cl\<rparr>) k' = pool_of net k'"
  "pool_of (close_sock s net) k' = pool_of net k'"
  "pool_of (net\<lparr>pools := []\<rparr>) k' = []"
  "pool_of empty_net k' = []"
  by (simp_all add: pool_of_def set_pool_def close_sock_def empty_net_def dict_simps)
    (simp_all add: dict_get_default_def)

lemma net_fields [simp]:
  "next_sock (set_pool k ss net) = next_sock net"
  "closed_socks (set_pool k ss net) = closed_socks net"
  "next_sock (close_sock s net) = next_sock net"
  "set (closed_socks (close_sock s net)) = insert (sk_id s) (set (closed_socks net))"
  "next_sock (return_socket n s q net) = next_sock net"
  "closed_socks (return_socket n s q net) = closed_socks net"
  by (simp_all add: set_pool_def close_sock_def return_socket_def)

lemma pool_of_return [simp]:
  "pool_of (return_socket n s q net) k = (if k = (n, q) then pool_of net k @ [s] else pool_of net k)"
  by (simp add: return_socket_def)

section \<open>The pool invariant\<close>

text \<open>
  A pooled socket was opened to the address its pool stands for, is open, and is pooled once;
  every socket has a number below the next one.
\<close>

definition pooled_ids :: "net \<Rightarrow> pool_key \<Rightarrow> nat list" where
  "pooled_ids net k = map sk_id (pool_of net k)"

definition net_ok :: "net \<Rightarrow> bool" where
  "net_ok net \<longleftrightarrow>
     (\<forall>n q. \<forall>s \<in> set (pool_of net (n, q)). sk_addr s = node_addr n q \<and> sk_id s < next_sock net \<and>
        sk_id s \<notin> set (closed_socks net)) \<and>
     (\<forall>k. distinct (pooled_ids net k)) \<and>
     (\<forall>k k' i. i \<in> set (pooled_ids net k) \<longrightarrow> i \<in> set (pooled_ids net k') \<longrightarrow> k = k') \<and>
     (\<forall>i \<in> set (closed_socks net). i < next_sock net)"

lemma net_ok_pooled:
  "net_ok net \<Longrightarrow> s \<in> set (pool_of net (n, q)) \<Longrightarrow>
     sk_addr s = node_addr n q \<and> sk_id s < next_sock net \<and> sk_id s \<notin> set (closed_socks net)"
  and net_ok_distinct: "net_ok net \<Longrightarrow> distinct (pooled_ids net k)"
  and net_ok_apart: "net_ok net \<Longrightarrow> i \<in> set (pooled_ids net k) \<Longrightarrow> i \<in> set (pooled_ids net k') \<Longrightarrow> k = k'"
  and net_ok_closed: "net_ok net \<Longrightarrow> i \<in> set (closed_socks net) \<Longrightarrow> i < next_sock net"
  unfolding net_ok_def by blast+

text \<open>A socket in a worker's hands: opened, not closed, and in no pool.\<close>

definition held :: "net \<Rightarrow> sock \<Rightarrow> bool" where
  "held net s \<longleftrightarrow> sk_id s < next_sock net \<and> sk_id s \<notin> set (closed_socks net) \<and>
     (\<forall>k. sk_id s \<notin> set (pooled_ids net k))"

lemma held_not_pooled: "held net s \<Longrightarrow> sk_id s \<notin> set (pooled_ids net k)"
  unfolding held_def by blast

lemma net_ok_empty [simp]: "net_ok empty_net"
  by (simp add: net_ok_def pooled_ids_def) (simp add: empty_net_def)

text \<open>The loop keeps an open socket of the queue, the first silent one, and closes those before
  it.\<close>

lemma take_pooled_spec:
  assumes "\<forall>s \<in> set ss. sk_id s \<notin> set cl" and "distinct (map sk_id ss)"
  shows "take_pooled readable ss cl =
    (Inr (find (\<lambda>s. \<not> readable (sk_id s)) ss),
     drop 1 (dropWhile (\<lambda>s. readable (sk_id s)) ss),
     rev (map sk_id (takeWhile (\<lambda>s. readable (sk_id s)) ss)) @ cl)"
  using assms
proof (induction ss arbitrary: cl)
  case (Cons s ss)
  show ?case
  proof (cases "readable (sk_id s)")
    case True
    have "\<forall>t \<in> set ss. sk_id t \<notin> set (sk_id s # cl)" using Cons.prems by (auto simp: image_iff)
    then show ?thesis using Cons True by simp
  qed (use Cons.prems in simp)
qed simp

lemma find_dropWhile:
  "(find (\<lambda>x. \<not> P x) xs = None \<and> dropWhile P xs = []) \<or>
   (\<exists>x ys. find (\<lambda>x. \<not> P x) xs = Some x \<and> dropWhile P xs = x # ys \<and> \<not> P x)"
  by (induction xs) auto

lemma net_ok_fresh:
  assumes "net_ok net"
  shows "next_sock net \<notin> set (pooled_ids net k) \<and> next_sock net \<notin> set (closed_socks net)"
proof -
  have "sk_id s < next_sock net" if "s \<in> set (pool_of net k)" for s
    using net_ok_pooled [OF assms, of s "fst k" "snd k"] that by simp
  then show ?thesis using net_ok_closed [OF assms] by (fastforce simp: pooled_ids_def)
qed

text \<open>What a call leaves in the pool it works on: the sockets behind the one it took.\<close>

definition silent :: "sock_env \<Rightarrow> sock \<Rightarrow> bool" where
  "silent env s \<longleftrightarrow> \<not> se_readable env (sk_id s)"

definition stale_prefix :: "sock_env \<Rightarrow> sock list \<Rightarrow> sock list" where
  "stale_prefix env ss = takeWhile (\<lambda>s. \<not> silent env s) ss"

lemma get_socket_pooled:
  assumes "net_ok net" and "get_socket env n q net = (r, net')"
  defines "ss \<equiv> pool_of net (n, q)"
  shows "closed_socks net' = rev (map sk_id (stale_prefix env ss)) @ closed_socks net"
    and "pool_of net' k = (if k = (n, q) then drop 1 (dropWhile (\<lambda>s. \<not> silent env s) ss) else pool_of net k)"
    and "find (silent env) ss = Some s \<Longrightarrow> r = Inr s \<and> next_sock net' = next_sock net"
    and "find (silent env) ss = None \<Longrightarrow> next_sock net' = Suc (next_sock net) \<and>
      r = (case se_connect env (node_addr n q) of Some e \<Rightarrow> Inl e
           | None \<Rightarrow> Inr \<lparr>sk_id = next_sock net, sk_addr = node_addr n q\<rparr>)"
proof -
  have "\<forall>s \<in> set ss. sk_id s \<notin> set (closed_socks net)" and "distinct (map sk_id ss)"
    using assms(1) by (auto simp: net_ok_def ss_def pooled_ids_def)
  note t = take_pooled_spec [OF this, of "se_readable env"]
  have f: "(\<lambda>s. \<not> se_readable env (sk_id s)) = silent env" by (rule ext) (simp add: silent_def)
  have g: "(\<lambda>s. se_readable env (sk_id s)) = (\<lambda>s. \<not> silent env s)" by (rule ext) (simp add: silent_def)
  note e = assms(2) [unfolded get_socket_def ss_def [symmetric] t f g Let_def]
  show "closed_socks net' = rev (map sk_id (stale_prefix env ss)) @ closed_socks net"
    using e by (auto simp: stale_prefix_def new_sock_def split: option.splits)
  show "pool_of net' k = (if k = (n, q) then drop 1 (dropWhile (\<lambda>s. \<not> silent env s) ss) else pool_of net k)"
    using e by (auto simp: new_sock_def split: option.splits)
  show "find (silent env) ss = Some s \<Longrightarrow> r = Inr s \<and> next_sock net' = next_sock net"
    using e by auto
  show "find (silent env) ss = None \<Longrightarrow> next_sock net' = Suc (next_sock net) \<and>
      r = (case se_connect env (node_addr n q) of Some e \<Rightarrow> Inl e
           | None \<Rightarrow> Inr \<lparr>sk_id = next_sock net, sk_addr = node_addr n q\<rparr>)"
    using e by (auto simp: new_sock_def split: option.splits)
qed

lemma set_split_while:
  "set xs = set (takeWhile P xs) \<union> set (dropWhile P xs)"
  by (metis set_append takeWhile_dropWhile_id)

text \<open>Taking sockets out of one pool, and closing some of those taken out, keeps the invariant.\<close>

lemma net_ok_shrink:
  assumes ok: "net_ok net"
    and pool: "\<And>k. pool_of net' k = (if k = k0 then rest else pool_of net k)"
    and rest: "set rest \<subseteq> set (pool_of net k0)" "distinct (map sk_id rest)"
    and cl: "set (closed_socks net') = gone \<union> set (closed_socks net)"
    and gone: "gone \<subseteq> set (pooled_ids net k0)" "gone \<inter> sk_id ` set rest = {}"
    and nxt: "next_sock net \<le> next_sock net'"
  shows "net_ok net'"
proof -
  have ids: "set (pooled_ids net' k) \<subseteq> set (pooled_ids net k)" for k
    using rest(1) by (auto simp: pooled_ids_def pool)
  have "sk_addr s = node_addr n q \<and> sk_id s < next_sock net' \<and> sk_id s \<notin> set (closed_socks net')"
    if "s \<in> set (pool_of net' (n, q))" for n q s
  proof -
    have s: "s \<in> set (pool_of net (n, q))" using that rest(1) by (auto simp: pool split: if_splits)
    have "sk_id s \<notin> gone"
    proof
      assume g: "sk_id s \<in> gone"
      have "sk_id s \<in> set (pooled_ids net (n, q))" using s by (simp add: pooled_ids_def)
      then have "k0 = (n, q)" using net_ok_apart [OF ok] gone(1) g by blast
      then show False using that gone(2) g by (auto simp: pool)
    qed
    then show ?thesis using net_ok_pooled [OF ok s] nxt cl by auto
  qed
  moreover have "distinct (pooled_ids net' k)" for k
    using rest(2) net_ok_distinct [OF ok, of k] by (simp add: pooled_ids_def pool)
  moreover have "k = k'" if "i \<in> set (pooled_ids net' k)" "i \<in> set (pooled_ids net' k')" for i k k'
    using net_ok_apart [OF ok] ids that by blast
  moreover have "i < next_sock net'" if "i \<in> set (closed_socks net')" for i
  proof -
    have "\<exists>s \<in> set (pool_of net k0). i = sk_id s" if "i \<in> gone"
      using that gone(1) by (auto simp: pooled_ids_def)
    then show ?thesis
      using that cl nxt net_ok_closed [OF ok, of i] net_ok_pooled [OF ok, of _ "fst k0" "snd k0"] by force
  qed
  ultimately show ?thesis unfolding net_ok_def by blast
qed

lemma find_first_SomeD:
  "find P xs = Some x \<Longrightarrow> dropWhile (\<lambda>y. \<not> P y) xs = x # drop 1 (dropWhile (\<lambda>y. \<not> P y) xs)"
  by (induction xs) (auto split: if_splits)

lemma find_first_NoneD: "find P xs = None \<Longrightarrow> dropWhile (\<lambda>y. \<not> P y) xs = []"
  by (induction xs) (auto split: if_splits)

text \<open>What \<open>_get_socket\<close> promises: a socket that is open, in no pool, connected to the right
  port, and in no other worker's hands.\<close>

lemma get_socket_ok:
  assumes ok: "net_ok net" and get: "get_socket env n q net = (r, net')"
  shows "net_ok net'"
    and "r = Inr s \<Longrightarrow> held net' s \<and> sk_addr s = node_addr n q"
    and "held net t \<Longrightarrow> held net' t \<and> (r = Inr s \<longrightarrow> sk_id s \<noteq> sk_id t)"
proof -
  let ?ss = "pool_of net (n, q)" and ?P = "\<lambda>s. \<not> silent env s"
  let ?rest = "drop 1 (dropWhile ?P ?ss)" and ?stale = "stale_prefix env ?ss"
  let ?gone = "sk_id ` set ?stale"
  note g = get_socket_pooled [OF ok get]
  have split: "?ss = ?stale @ dropWhile ?P ?ss" by (simp add: stale_prefix_def)
  have sub: "set ?rest \<subseteq> set (dropWhile ?P ?ss)" by (rule set_drop_subset)
  have "distinct (map sk_id ?ss)" using net_ok_distinct [OF ok, of "(n, q)"] by (simp add: pooled_ids_def)
  then have d: "distinct (map sk_id ?stale @ map sk_id (dropWhile ?P ?ss))"
    using split by (metis map_append)
  have rest1: "set ?rest \<subseteq> set ?ss" using sub set_dropWhileD by fast
  have rest2: "distinct (map sk_id ?rest)" using d by (simp add: distinct_drop flip: drop_map)
  note rest = rest1 rest2
  have gone: "?gone \<subseteq> set (pooled_ids net (n, q))" "?gone \<inter> sk_id ` set ?rest = {}"
    using d sub split by (auto simp: pooled_ids_def stale_prefix_def dest: set_takeWhileD)
  have cl: "set (closed_socks net') = ?gone \<union> set (closed_socks net)"
    using g(1) by auto
  have nxt: "next_sock net \<le> next_sock net'"
    using g(3,4) by (cases "find (silent env) ?ss") auto
  show "net_ok net'" by (rule net_ok_shrink [OF ok g(2) rest cl gone nxt])
  have ids: "set (pooled_ids net' k) \<subseteq> set (pooled_ids net k)" for k
    using rest(1) by (auto simp: pooled_ids_def g(2))
  have case_some: "held net' x \<and> sk_addr x = node_addr n q \<and> sk_id x \<in> set (pooled_ids net (n, q))"
    if "find (silent env) ?ss = Some x" for x
  proof -
    have x: "dropWhile ?P ?ss = x # ?rest" using find_first_SomeD [OF that] .
    then have "x \<in> set ?ss" using split by (metis in_set_conv_decomp append_Cons)
    then have i: "sk_id x \<in> set (pooled_ids net (n, q))" by (simp add: pooled_ids_def)
    have "distinct (map sk_id ?stale @ sk_id x # map sk_id ?rest)" using d x by (metis list.simps(9))
    then have "sk_id x \<notin> ?gone" "sk_id x \<notin> set (pooled_ids net' (n, q))"
      by (auto simp: pooled_ids_def g(2))
    moreover have "k = (n, q)" if "sk_id x \<in> set (pooled_ids net' k)" for k
      using net_ok_apart [OF ok i] ids that by blast
    ultimately show ?thesis
      using net_ok_pooled [OF ok \<open>x \<in> set ?ss\<close>] nxt cl i unfolding held_def by auto
  qed
  have fresh: "next_sock net \<notin> set (pooled_ids net k)" "next_sock net \<notin> set (closed_socks net)" for k
    using net_ok_fresh [OF ok] by blast+
  show "held net' s \<and> sk_addr s = node_addr n q" if "r = Inr s"
  proof (cases "find (silent env) ?ss")
    case None
    then have "s = \<lparr>sk_id = next_sock net, sk_addr = node_addr n q\<rparr>" "next_sock net' = Suc (next_sock net)"
      using g(4) that by (auto split: option.splits)
    moreover have "next_sock net \<notin> ?gone" using fresh(1) gone(1) by blast
    moreover have "next_sock net \<notin> set (pooled_ids net' k)" for k using fresh(1) ids by blast
    ultimately show ?thesis using fresh(2) cl unfolding held_def by simp
  next
    case (Some x)
    then show ?thesis using case_some g(3) that by auto
  qed
  show "held net' t \<and> (r = Inr s \<longrightarrow> sk_id s \<noteq> sk_id t)" if "held net t"
  proof
    have "sk_id t \<notin> ?gone" using that gone(1) unfolding held_def by blast
    moreover have "sk_id t \<notin> set (pooled_ids net' k)" for k
      using held_not_pooled [OF that] ids by blast
    ultimately show "held net' t" using that cl nxt by (simp add: held_def)
    show "r = Inr s \<longrightarrow> sk_id s \<noteq> sk_id t"
    proof (cases "find (silent env) ?ss")
      case None
      then show ?thesis using g(4) that by (auto simp: held_def split: option.splits)
    next
      case (Some x)
      then show ?thesis using case_some g(3) that unfolding held_def by auto
    qed
  qed
qed

lemma pooled_ids_return [simp]:
  "pooled_ids (return_socket n s q net) k =
     (if k = (n, q) then pooled_ids net k @ [sk_id s] else pooled_ids net k)"
  by (simp add: pooled_ids_def)

lemma pooled_ids_other [simp]:
  "pooled_ids (close_sock s net) k = pooled_ids net k"
  "pooled_ids (net\<lparr>next_sock := i\<rparr>) k = pooled_ids net k"
  by (simp_all add: pooled_ids_def)

lemma return_socket_ok:
  assumes ok: "net_ok net" and s: "held net s" "sk_addr s = node_addr n q"
  shows "net_ok (return_socket n s q net)"
    and "held net t \<Longrightarrow> sk_id t \<noteq> sk_id s \<Longrightarrow> held (return_socket n s q net) t"
proof -
  have "k = k'" if "i \<in> set (pooled_ids (return_socket n s q net) k)"
    "i \<in> set (pooled_ids (return_socket n s q net) k')" for i k k'
    using that net_ok_apart [OF ok, of i k k'] held_not_pooled [OF s(1), of k]
      held_not_pooled [OF s(1), of k'] by (auto split: if_splits)
  moreover have "sk_addr t = node_addr m p \<and> sk_id t < next_sock net \<and> sk_id t \<notin> set (closed_socks net)"
    if "t \<in> set (pool_of (return_socket n s q net) (m, p))" for t m p
    using that s net_ok_pooled [OF ok, of t m p] by (auto simp: held_def split: if_splits)
  moreover have "distinct (pooled_ids (return_socket n s q net) k)" for k
    using net_ok_distinct [OF ok, of k] held_not_pooled [OF s(1), of "(n, q)"] by auto
  ultimately show "net_ok (return_socket n s q net)"
    using net_ok_closed [OF ok] unfolding net_ok_def by (simp only: net_fields) blast
  show "held net t \<Longrightarrow> sk_id t \<noteq> sk_id s \<Longrightarrow> held (return_socket n s q net) t"
    by (auto simp: held_def)
qed

lemma close_sock_ok:
  assumes ok: "net_ok net" and s: "held net s"
  shows "net_ok (close_sock s net)"
    and "held net t \<Longrightarrow> sk_id t \<noteq> sk_id s \<Longrightarrow> held (close_sock s net) t"
proof -
  have "sk_id t \<noteq> sk_id s" if "t \<in> set (pool_of net k)" for t k
    using s that by (metis held_def imageI list.set_map pooled_ids_def)
  then show "net_ok (close_sock s net)"
    using ok s unfolding net_ok_def held_def by auto
  show "held net t \<Longrightarrow> sk_id t \<noteq> sk_id s \<Longrightarrow> held (close_sock s net) t"
    by (auto simp: held_def)
qed

section \<open>Who holds which socket\<close>

text \<open>
  What the worker threads rely on, as an interface: a pool that hands out resources. The three
  operations keep its invariant; what one worker holds is untouched by the operations of the
  others; a resource handed out is one nobody holds.
\<close>

datatype ('k, 'r) holding = Idle | Holds 'k 'r

text \<open>A worker takes a resource, gives it back to the pool it came from, or throws it away.\<close>

inductive worker_step ::
  "('e \<Rightarrow> 'k \<Rightarrow> 's \<Rightarrow> 'r res \<times> 's) \<Rightarrow> ('k \<Rightarrow> 'r \<Rightarrow> 's \<Rightarrow> 's) \<Rightarrow> ('r \<Rightarrow> 's \<Rightarrow> 's) \<Rightarrow>
   's \<times> (nat \<Rightarrow> ('k, 'r) holding) \<Rightarrow> 's \<times> (nat \<Rightarrow> ('k, 'r) holding) \<Rightarrow> bool"
  for acquire release discard where
  take_ok: "own w = Idle \<Longrightarrow> acquire e k s = (Inr x, s') \<Longrightarrow>
    worker_step acquire release discard (s, own) (s', own(w := Holds k x))"
| take_fails: "own w = Idle \<Longrightarrow> acquire e k s = (Inl err, s') \<Longrightarrow>
    worker_step acquire release discard (s, own) (s', own)"
| give_back: "own w = Holds k x \<Longrightarrow>
    worker_step acquire release discard (s, own) (release k x s, own(w := Idle))"
| throw_away: "own w = Holds k x \<Longrightarrow>
    worker_step acquire release discard (s, own) (discard x s, own(w := Idle))"

inductive_cases worker_stepE: "worker_step acquire release discard (s, own) (s', own')"

locale resource_pool =
  fixes acquire :: "'e \<Rightarrow> 'k \<Rightarrow> 's \<Rightarrow> 'r res \<times> 's"
    and release :: "'k \<Rightarrow> 'r \<Rightarrow> 's \<Rightarrow> 's"
    and discard :: "'r \<Rightarrow> 's \<Rightarrow> 's"
    and ident :: "'r \<Rightarrow> nat"
    and good :: "'s \<Rightarrow> bool"
    and taken :: "'s \<Rightarrow> 'r \<Rightarrow> bool"
    and fits :: "'k \<Rightarrow> 'r \<Rightarrow> bool"
  assumes acquire_good: "good s \<Longrightarrow> acquire e k s = (r, s') \<Longrightarrow> good s'"
    and acquire_taken: "good s \<Longrightarrow> acquire e k s = (Inr x, s') \<Longrightarrow> taken s' x \<and> fits k x"
    and acquire_others: "good s \<Longrightarrow> acquire e k s = (r, s') \<Longrightarrow> taken s y \<Longrightarrow>
      taken s' y \<and> (\<forall>x. r = Inr x \<longrightarrow> ident x \<noteq> ident y)"
    and release_good: "good s \<Longrightarrow> taken s x \<Longrightarrow> fits k x \<Longrightarrow> good (release k x s)"
    and release_others: "good s \<Longrightarrow> taken s x \<Longrightarrow> fits k x \<Longrightarrow> taken s y \<Longrightarrow> ident y \<noteq> ident x \<Longrightarrow>
      taken (release k x s) y"
    and discard_good: "good s \<Longrightarrow> taken s x \<Longrightarrow> good (discard x s)"
    and discard_others: "good s \<Longrightarrow> taken s x \<Longrightarrow> taken s y \<Longrightarrow> ident y \<noteq> ident x \<Longrightarrow>
      taken (discard x s) y"
begin

definition exclusive :: "'s \<times> (nat \<Rightarrow> ('k, 'r) holding) \<Rightarrow> bool" where
  "exclusive st \<longleftrightarrow> good (fst st) \<and>
     (\<forall>w k x. snd st w = Holds k x \<longrightarrow> taken (fst st) x \<and> fits k x) \<and>
     (\<forall>w k x w' k' x'. snd st w = Holds k x \<longrightarrow> snd st w' = Holds k' x' \<longrightarrow> ident x = ident x' \<longrightarrow> w = w')"

lemma exclusive_start: "good s \<Longrightarrow> exclusive (s, \<lambda>w. Idle)"
  by (simp add: exclusive_def)

lemma exclusive_step:
  assumes "worker_step acquire release discard st st'" and "exclusive st"
  shows "exclusive st'"
  using assms
proof (cases rule: worker_step.cases)
  case (take_ok own w e k s x s')
  then have g: "good s" "\<forall>v k x. own v = Holds k x \<longrightarrow> taken s x \<and> fits k x"
    "\<forall>v k x v' k' x'. own v = Holds k x \<longrightarrow> own v' = Holds k' x' \<longrightarrow> ident x = ident x' \<longrightarrow> v = v'"
    using assms(2) by (auto simp: exclusive_def)
  have "taken s' y \<and> ident x \<noteq> ident y" if "own v = Holds j y" for v j y
    using acquire_others [OF g(1) take_ok(4), of y] g(2) that by blast
  then show ?thesis
    using take_ok g acquire_good [OF g(1) take_ok(4)] acquire_taken [OF g(1) take_ok(4)]
    unfolding exclusive_def by (auto split: if_splits) metis+
next
  case (take_fails own w e k s err s')
  then have g: "good s" using assms(2) by (simp add: exclusive_def)
  show ?thesis
    using take_fails assms(2) acquire_good [OF g take_fails(4)] acquire_others [OF g take_fails(4)]
    unfolding exclusive_def by auto
next
  case (give_back own w k x s)
  then have g: "good s" "taken s x" "fits k x" using assms(2) by (auto simp: exclusive_def)
  have "taken (release k x s) y" if "own v = Holds j y" "v \<noteq> w" for v j y
    using give_back assms(2) release_others [OF g, of y] that unfolding exclusive_def
    by (metis fst_conv snd_conv)
  then show ?thesis
    using give_back assms(2) release_good [OF g] unfolding exclusive_def by (auto split: if_splits)
next
  case (throw_away own w k x s)
  then have g: "good s" "taken s x" using assms(2) by (auto simp: exclusive_def)
  have "taken (discard x s) y" if "own v = Holds j y" "v \<noteq> w" for v j y
    using throw_away assms(2) discard_others [OF g, of y] that unfolding exclusive_def
    by (metis fst_conv snd_conv)
  then show ?thesis
    using throw_away assms(2) discard_good [OF g] unfolding exclusive_def by (auto split: if_splits)
qed

lemma exclusive_reachable:
  assumes "(worker_step acquire release discard)\<^sup>*\<^sup>* (s, \<lambda>w. Idle) st" and "good s"
  shows "exclusive st"
  using assms(1)
proof (induction rule: rtranclp_induct)
  case base
  show ?case using assms(2) by (rule exclusive_start)
qed (rule exclusive_step)

end

definition get_key :: "sock_env \<Rightarrow> pool_key \<Rightarrow> net \<Rightarrow> sock res \<times> net" where
  "get_key env k = get_socket env (fst k) (snd k)"

definition return_key :: "pool_key \<Rightarrow> sock \<Rightarrow> net \<Rightarrow> net" where
  "return_key k s = return_socket (fst k) s (snd k)"

definition key_addr :: "pool_key \<Rightarrow> string \<times> int" where
  "key_addr k = node_addr (fst k) (snd k)"

interpretation sockets: resource_pool get_key return_key close_sock sk_id net_ok held
  "\<lambda>k s. sk_addr s = key_addr k"
proof unfold_locales
  fix net net' :: net and e k s r y
  assume ok: "net_ok net"
  show "get_key e k net = (r, net') \<Longrightarrow> net_ok net'"
    unfolding get_key_def by (rule get_socket_ok(1) [OF ok])
  show "get_key e k net = (Inr s, net') \<Longrightarrow> held net' s \<and> sk_addr s = key_addr k"
    unfolding get_key_def key_addr_def by (rule get_socket_ok(2) [OF ok]) simp_all
  show "get_key e k net = (r, net') \<Longrightarrow> held net y \<Longrightarrow>
      held net' y \<and> (\<forall>x. r = Inr x \<longrightarrow> sk_id x \<noteq> sk_id y)"
    unfolding get_key_def using get_socket_ok(3) [OF ok] by blast
  show "held net s \<Longrightarrow> sk_addr s = key_addr k \<Longrightarrow> net_ok (return_key k s net)"
    unfolding return_key_def key_addr_def by (rule return_socket_ok(1) [OF ok])
  show "held net s \<Longrightarrow> sk_addr s = key_addr k \<Longrightarrow> held net y \<Longrightarrow> sk_id y \<noteq> sk_id s \<Longrightarrow>
      held (return_key k s net) y"
    unfolding return_key_def key_addr_def by (rule return_socket_ok(2) [OF ok])
  show "held net s \<Longrightarrow> net_ok (close_sock s net)" by (rule close_sock_ok(1) [OF ok])
  show "held net s \<Longrightarrow> held net y \<Longrightarrow> sk_id y \<noteq> sk_id s \<Longrightarrow> held (close_sock s net) y"
    by (rule close_sock_ok(2) [OF ok])
qed

section \<open>\<open>connect\<close> and \<open>disconnect\<close>: what they leave\<close>

text \<open>The probes open one socket per node, numbered in order.\<close>

definition stays_silent :: "sock_env \<Rightarrow> nat \<times> node \<Rightarrow> bool" where
  "stays_silent env p \<longleftrightarrow> se_connect env (node_addr (snd p) False) = None \<and> \<not> se_readable env (fst p)"

lemma connect_nodes_spec:
  "connect_nodes env ns net reg = (conn, net', reg') \<Longrightarrow>
   (case find (stays_silent env) (enumerate (next_sock net) ns) of
      None \<Rightarrow> \<not> conn \<and> reg' = reg \<and> pools net' = pools net
    | Some (i, n) \<Rightarrow> conn \<and> reg' = set_leader reg n \<and> pools net' = AList.update (n, False)
        (pool_of net (n, False) @ [\<lparr>sk_id = i, sk_addr = node_addr n False\<rparr>]) (pools net))"
proof (induction env ns net reg rule: connect_nodes.induct)
  case (2 env n ns net reg)
  let ?s = "\<lparr>sk_id = next_sock net, sk_addr = node_addr n False\<rparr>"
  let ?net1 = "net\<lparr>next_sock := Suc (next_sock net)\<rparr>"
  have new: "new_sock (node_addr n False) net = (?s, ?net1)" by (simp add: new_sock_def)
  show ?case
  proof (cases "se_connect env (node_addr n False)")
    case (Some e)
    then show ?thesis using "2.prems" "2.IH"(2) [OF new [symmetric] Some]
      by (simp add: new stays_silent_def split: option.splits prod.splits)
  next
    case None
    show ?thesis
    proof (cases "se_readable env (next_sock net)")
      case True
      have "pools (close_sock ?s ?net1) = pools net" by (simp add: close_sock_def)
      then show ?thesis using "2.prems" "2.IH"(1) [OF new [symmetric] None] None True
        by (simp add: new stays_silent_def split: option.splits prod.splits)
    next
      case False
      then show ?thesis using "2.prems" None
        by (auto simp: new stays_silent_def return_socket_def set_pool_def)
    qed
  qed
qed simp

lemma foldl_close:
  "pools (foldl (\<lambda>net s. close_sock s net) net ss) = pools net \<and>
   next_sock (foldl (\<lambda>net s. close_sock s net) net ss) = next_sock net \<and>
   set (closed_socks (foldl (\<lambda>net s. close_sock s net) net ss)) =
     sk_id ` set ss \<union> set (closed_socks net)"
  by (induction ss arbitrary: net) (auto simp: close_sock_def)

lemma pooled_ids_all: "set (pooled_ids net k) \<subseteq> sk_id ` set (concat (map snd (pools net)))"
proof (cases "map_of (pools net) k")
  case None
  then show ?thesis by (simp add: pooled_ids_def pool_of_def dict_get_default_def)
next
  case (Some ss)
  then have "ss \<in> set (map snd (pools net))" using map_of_SomeD by force
  then show ?thesis using Some by (auto simp: pooled_ids_def pool_of_def dict_get_default_def)
qed

section \<open>Properties\<close>

text \<open>
  C15. In every state the worker threads can reach from an empty client by taking sockets out of
  the pools, returning and closing them in any interleaving, no two workers hold the same socket,
  and the socket a worker holds is open, in no pool, and connected to the port (the query port for
  a query) of the node it was asked for.
\<close>

theorem workers_never_share_a_socket:
  assumes "(worker_step get_key return_key close_sock)\<^sup>*\<^sup>* (empty_net, \<lambda>w. Idle) (net, own)"
    and "own w = Holds k s"
  shows "held net s \<and> sk_addr s = key_addr k \<and>
    (\<forall>w' k' s'. own w' = Holds k' s' \<and> sk_id s' = sk_id s \<longrightarrow> w' = w)"
  using sockets.exclusive_reachable [OF assms(1)] assms(2)
  unfolding sockets.exclusive_def by (metis fst_conv net_ok_empty snd_conv)

definition demo_pool_node :: node where
  "demo_pool_node = \<lparr>cluster_name = ''c'', node_id = 1, host = ''h'', port = 8000\<rparr>"

definition calm_env :: sock_env where
  "calm_env = \<lparr>se_connect = (\<lambda>a. None), se_readable = (\<lambda>i. False)\<rparr>"

theorem workers_never_share_a_socket_witness:
  "\<exists>net own s. own 0 = Holds (demo_pool_node, True) s \<and> held net s \<and> sk_addr s = (''h'', 9000)"
proof -
  let ?k = "(demo_pool_node, True)" and ?s = "\<lparr>sk_id = 0, sk_addr = (''h'', 9000)\<rparr>"
  let ?net = "\<lparr>pools = [(?k, [])], next_sock = 1, closed_socks = []\<rparr>"
  have "get_key calm_env ?k empty_net = (Inr ?s, ?net)"
    by (simp add: get_key_def get_socket_def calm_env_def new_sock_def node_addr_def demo_pool_node_def)
      (simp add: empty_net_def set_pool_def)
  then have "worker_step get_key return_key close_sock (empty_net, \<lambda>w. Idle)
      (?net, (\<lambda>w. Idle)(0 := Holds ?k ?s))"
    by (rule take_ok [rotated]) simp
  then have "(worker_step get_key return_key close_sock)\<^sup>*\<^sup>* (empty_net, \<lambda>w. Idle)
      (?net, (\<lambda>w. Idle)(0 := Holds ?k ?s))" by (rule r_into_rtranclp)
  moreover have "((\<lambda>w. Idle)(0 := Holds ?k ?s)) 0 = Holds ?k ?s" by simp
  ultimately have "held ?net ?s" by (rule workers_never_share_a_socket [THEN conjunct1])
  then show ?thesis
    by (intro exI [of _ ?net] exI [of _ "(\<lambda>w. Idle)(0 := Holds ?k ?s)"] exI [of _ ?s]) simp
qed

text \<open>
  \<open>_get_socket\<close> gives the oldest pooled socket that is not readable; the readable ones
  queued before it, which hold an end of stream or junk, are closed and dropped, the ones behind it
  stay. Only when the pool has none is a connection opened, and its failure is the exception.
\<close>

theorem get_socket_takes_oldest_silent:
  assumes "net_ok net"
  shows "\<exists>net'. get_socket env n q net =
      (case find (silent env) (pool_of net (n, q)) of
         Some s \<Rightarrow> Inr s
       | None \<Rightarrow> (case se_connect env (node_addr n q) of
           Some e \<Rightarrow> Inl e
         | None \<Rightarrow> Inr \<lparr>sk_id = next_sock net, sk_addr = node_addr n q\<rparr>), net') \<and>
    pool_of net' (n, q) = drop 1 (dropWhile (\<lambda>s. \<not> silent env s) (pool_of net (n, q))) \<and>
    closed_socks net' = rev (map sk_id (stale_prefix env (pool_of net (n, q)))) @ closed_socks net"
proof -
  obtain r net' where g: "get_socket env n q net = (r, net')" by force
  note p = get_socket_pooled [OF assms g]
  show ?thesis using p(1,2,3,4) g by (intro exI [of _ net']) (auto split: option.splits)
qed

definition pooled_net :: net where
  "pooled_net = return_socket demo_pool_node \<lparr>sk_id = 1, sk_addr = (''h'', 8000)\<rparr> False
     (return_socket demo_pool_node \<lparr>sk_id = 0, sk_addr = (''h'', 8000)\<rparr> False
       (empty_net\<lparr>next_sock := 2\<rparr>))"

lemma pooled_net_ok: "net_ok pooled_net"
proof -
  have "net_ok (empty_net\<lparr>next_sock := 2\<rparr>)"
    by (simp add: net_ok_def pooled_ids_def) (simp add: empty_net_def)
  then have "net_ok (return_socket demo_pool_node \<lparr>sk_id = 0, sk_addr = (''h'', 8000)\<rparr> False
      (empty_net\<lparr>next_sock := 2\<rparr>))"
    by (rule return_socket_ok(1))
      (simp_all add: held_def node_addr_def demo_pool_node_def, simp_all add: pooled_ids_def, simp_all add: empty_net_def)
  then show ?thesis unfolding pooled_net_def
    by (rule return_socket_ok(1))
      (simp_all add: held_def node_addr_def demo_pool_node_def, simp_all add: pooled_ids_def, simp_all add: empty_net_def)
qed

theorem get_socket_takes_oldest_silent_witness:
  "\<exists>net'. get_socket \<lparr>se_connect = (\<lambda>a. None), se_readable = (\<lambda>i. i = 0)\<rparr> demo_pool_node False pooled_net
       = (Inr \<lparr>sk_id = 1, sk_addr = (''h'', 8000)\<rparr>, net') \<and>
     pool_of net' (demo_pool_node, False) = [] \<and> closed_socks net' = [0]"
  using get_socket_takes_oldest_silent [OF pooled_net_ok,
      of "\<lparr>se_connect = (\<lambda>a. None), se_readable = (\<lambda>i. i = 0)\<rparr>" demo_pool_node False]
  by (simp add: pooled_net_def silent_def stale_prefix_def) (simp add: empty_net_def)

text \<open>
  \<open>connect\<close> over one cluster registers as leader the first node whose fresh connection is
  accepted and stays silent, and pools exactly that connection; when there is none, the registry
  and the pools are untouched.
\<close>

theorem connect_registers_first_silent_node:
  "\<exists>conn net' reg'. connect_nodes env ns net reg = (conn, net', reg') \<and>
   (case find (stays_silent env) (enumerate (next_sock net) ns) of
      None \<Rightarrow> conn = False \<and> reg' = reg \<and> pools net' = pools net
    | Some (i, n) \<Rightarrow> conn = True \<and> reg' = set_leader reg n \<and> pools net' = AList.update (n, False)
        (pool_of net (n, False) @ [\<lparr>sk_id = i, sk_addr = node_addr n False\<rparr>]) (pools net))"
proof -
  obtain conn net' reg' where "connect_nodes env ns net reg = (conn, net', reg')"
    by (metis prod_cases3)
  with connect_nodes_spec [OF this] show ?thesis by (auto split: option.splits)
qed

text \<open>
  \<open>disconnect\<close> leaves no socket pooled, and every socket that was pooled is closed.
\<close>

theorem disconnect_closes_every_pool:
  "pool_of (disconnect net) k = [] \<and>
   set (pooled_ids net k) \<subseteq> set (closed_socks (disconnect net)) \<and>
   set (closed_socks net) \<subseteq> set (closed_socks (disconnect net))"
  using foldl_close [of net "concat (map snd (pools net))"] pooled_ids_all [of net k]
  by (auto simp: disconnect_def)

end
