(* ===== verification/Byte_Stream.thy ===== *)
theory Byte_Stream
  imports Wire_Format
begin

text \<open>
  Receiving from a socket, and \<open>_recv_exact\<close> of \<open>client/dbclient.py\<close>. What a socket will
  deliver is a list of events: chunks of bytes as the peer's segments happen to arrive, and
  failures. \<open>recv(k)\<close> gives at most \<open>k\<close> bytes of the first chunk; the empty chunk is the end
  of the stream and stays; when nothing is left the socket's timeout expires.
\<close>

datatype recv_event = Chunk "byte list" | RecvFails exc

fun sock_recv :: "nat \<Rightarrow> recv_event list \<Rightarrow> byte list res \<times> recv_event list" where
  "sock_recv k [] = (Inl SocketTimeout, [])"
| "sock_recv k (RecvFails e # es) = (Inl e, es)"
| "sock_recv k (Chunk bs # es) =
     (if bs = [] then (Inr [], Chunk [] # es)
      else if length bs \<le> k then (Inr bs, es)
      else (Inr (take k bs), Chunk (drop k bs) # es))"

function recv_exact :: "nat \<Rightarrow> byte list \<Rightarrow> recv_event list \<Rightarrow> byte list res \<times> recv_event list" where
  "recv_exact n data es =
     (if length data < n
      then (case sock_recv (n - length data) es of
              (Inl e, es') \<Rightarrow> (Inl (if e = SocketTimeout then ConnectionError else e), es')
            | (Inr chunk, es') \<Rightarrow>
                if chunk = [] then (Inl ConnectionError, es')
                else recv_exact n (data @ chunk) es')
      else (Inr data, es))"
  by pat_completeness auto
termination
  by (relation "measure (\<lambda>(n, data, es). n - length data)") (auto intro!: diff_less_mono2)

declare recv_exact.simps [simp del]

section \<open>What the stream holds\<close>

text \<open>The bytes that arrive before the first failure or the end of the stream.\<close>

fun stream_bytes :: "recv_event list \<Rightarrow> byte list" where
  "stream_bytes (Chunk bs # es) = (if bs = [] then [] else bs @ stream_bytes es)"
| "stream_bytes _ = []"

lemma sock_recv_stream:
  assumes "stream_bytes es \<noteq> []" and "0 < k"
  shows "\<exists>bs es'. sock_recv k es = (Inr bs, es') \<and> bs \<noteq> [] \<and> length bs \<le> k \<and>
    stream_bytes es = bs @ stream_bytes es'"
proof (cases es)
  case Nil
  with assms show ?thesis by simp
next
  case (Cons ev rest)
  with assms show ?thesis
    by (cases ev) (auto split: if_splits intro: exI [of _ "[]"])
qed

lemma sock_recv_no_stream:
  assumes "stream_bytes es = []"
  shows "\<exists>r es'. sock_recv k es = (r, es') \<and> (r = Inr [] \<or> (\<exists>e. r = Inl e))"
  using assms by (cases es rule: stream_bytes.cases) (auto split: if_splits)

text \<open>\<open>_recv_exact\<close> gives the next \<open>n\<close> bytes of the stream, however they are cut into chunks, and
  leaves the rest; when the stream holds fewer it raises.\<close>

lemma recv_exact_enough:
  assumes "length data \<le> n" and "n - length data \<le> length (stream_bytes es)"
  shows "\<exists>es'. recv_exact n data es = (Inr (data @ take (n - length data) (stream_bytes es)), es') \<and>
    stream_bytes es' = drop (n - length data) (stream_bytes es)"
  using assms
proof (induction n data es rule: recv_exact.induct)
  case (1 n data es)
  show ?case
  proof (cases "length data < n")
    case False
    then show ?thesis using "1.prems" by (simp add: recv_exact.simps)
  next
    case True
    then have "stream_bytes es \<noteq> []" "0 < n - length data" using "1.prems" by auto
    then obtain bs es' where r: "sock_recv (n - length data) es = (Inr bs, es')" "bs \<noteq> []"
      "length bs \<le> n - length data" "stream_bytes es = bs @ stream_bytes es'"
      using sock_recv_stream by blast
    have "length (data @ bs) \<le> n" "n - length (data @ bs) \<le> length (stream_bytes es')"
      using r True "1.prems" by simp_all
    with "1.IH" [OF True r(1) [symmetric] refl r(2)] obtain es'' where
      "recv_exact n (data @ bs) es' = (Inr ((data @ bs) @ take (n - length (data @ bs)) (stream_bytes es')), es'')"
      "stream_bytes es'' = drop (n - length (data @ bs)) (stream_bytes es')"
      by blast
    then show ?thesis using True r by (simp add: recv_exact.simps [of n data es])
  qed
qed

lemma recv_exact_short:
  assumes "length data + length (stream_bytes es) < n"
  shows "\<exists>e es'. recv_exact n data es = (Inl e, es')"
  using assms
proof (induction n data es rule: recv_exact.induct)
  case (1 n data es)
  then have lt: "length data < n" by simp
  show ?case
  proof (cases "stream_bytes es = []")
    case True
    then show ?thesis using lt sock_recv_no_stream [OF True, of "n - length data"]
      by (auto simp: recv_exact.simps [of n data es])
  next
    case False
    then obtain bs es' where r: "sock_recv (n - length data) es = (Inr bs, es')" "bs \<noteq> []"
      "stream_bytes es = bs @ stream_bytes es'"
      using sock_recv_stream [of es "n - length data"] lt by auto
    have "length (data @ bs) + length (stream_bytes es') < n" using r(3) "1.prems" by simp
    with "1.IH" [OF lt r(1) [symmetric] refl r(2)] lt r show ?thesis
      by (simp add: recv_exact.simps [of n data es])
  qed
qed

lemma stream_bytes_chunks: "[] \<notin> set bss \<Longrightarrow> stream_bytes (map Chunk bss) = concat bss"
  by (induction bss) auto

end
