(* ===== verification/Py_Text.thy ===== *)
theory Py_Text
  imports Mock_Server
begin

text \<open>
  What \<open>_send_batch\<close> of \<open>client/dbclient.py\<close> uses of Python's text: \<open>bytes.decode('utf-8',
  errors='ignore')\<close>, \<open>str.strip\<close>, \<open>str.split\<close> and \<open>int\<close>, and the parsing of a redirect
  message with them. A text is the list of its code points. Decimal digits outside ASCII, which
  \<open>int\<close> accepts too, are not modelled: they count as malformed here.
\<close>

type_synonym ptext = "nat list"

definition lit :: "string \<Rightarrow> ptext" where
  "lit = map of_char"

section \<open>UTF-8\<close>

definition cont_byte :: "nat \<Rightarrow> bool" where
  "cont_byte b \<longleftrightarrow> 128 \<le> b \<and> b < 192"

text \<open>The code point at the head of the bytes, with the number of bytes it takes.\<close>

fun utf8_head :: "nat \<Rightarrow> nat list \<Rightarrow> (nat \<times> nat) option" where
  "utf8_head a bs =
     (if a < 128 then Some (a, 1)
      else if 194 \<le> a \<and> a \<le> 223 then
        (case bs of b # _ \<Rightarrow> if cont_byte b then Some ((a - 192) * 64 + (b - 128), 2) else None
         | _ \<Rightarrow> None)
      else if 224 \<le> a \<and> a \<le> 239 then
        (case bs of b # c # _ \<Rightarrow>
           if cont_byte b \<and> cont_byte c \<and> (a = 224 \<longrightarrow> 160 \<le> b) \<and> (a = 237 \<longrightarrow> b \<le> 159)
           then Some ((a - 224) * 4096 + (b - 128) * 64 + (c - 128), 3) else None
         | _ \<Rightarrow> None)
      else if 240 \<le> a \<and> a \<le> 244 then
        (case bs of b # c # d # _ \<Rightarrow>
           if cont_byte b \<and> cont_byte c \<and> cont_byte d \<and> (a = 240 \<longrightarrow> 144 \<le> b) \<and> (a = 244 \<longrightarrow> b \<le> 143)
           then Some ((a - 240) * 262144 + (b - 128) * 4096 + (c - 128) * 64 + (d - 128), 4) else None
         | _ \<Rightarrow> None)
      else None)"

text \<open>With \<open>errors='ignore'\<close> a byte that starts no valid sequence is skipped.\<close>

function utf8_ignore :: "nat list \<Rightarrow> ptext" where
  "utf8_ignore [] = []"
| "utf8_ignore (a # bs) = (case utf8_head a bs of
     Some (c, k) \<Rightarrow> c # utf8_ignore (drop (k - 1) bs) | None \<Rightarrow> utf8_ignore bs)"
  by pat_completeness auto
termination
  by (relation "measure length") auto

definition decode_utf8 :: "byte list \<Rightarrow> ptext" where
  "decode_utf8 bs = utf8_ignore (map unat bs)"

section \<open>\<open>strip\<close>, \<open>split\<close>, \<open>startswith\<close>, \<open>int\<close>\<close>

definition py_space :: "nat \<Rightarrow> bool" where
  "py_space c \<longleftrightarrow> (9 \<le> c \<and> c \<le> 13) \<or> (28 \<le> c \<and> c \<le> 32) \<or> c = 133 \<or> c = 160 \<or> c = 5760 \<or>
     (8192 \<le> c \<and> c \<le> 8202) \<or> c = 8232 \<or> c = 8233 \<or> c = 8239 \<or> c = 8287 \<or> c = 12288"

definition lstrip :: "ptext \<Rightarrow> ptext" where
  "lstrip = dropWhile py_space"

definition rstrip :: "ptext \<Rightarrow> ptext" where
  "rstrip t = rev (dropWhile py_space (rev t))"

definition strip :: "ptext \<Rightarrow> ptext" where
  "strip t = rstrip (lstrip t)"

fun split_on :: "nat \<Rightarrow> ptext \<Rightarrow> ptext list" where
  "split_on sep [] = [[]]"
| "split_on sep (c # cs) =
     (if c = sep then [] # split_on sep cs
      else (case split_on sep cs of [] \<Rightarrow> [[c]] | p # ps \<Rightarrow> (c # p) # ps))"

definition starts_with :: "ptext \<Rightarrow> ptext \<Rightarrow> bool" where
  "starts_with t pre \<longleftrightarrow> take (length pre) t = pre"

text \<open>Digits with single underscores between them; \<open>need\<close> when a digit must come next.\<close>

fun digits_val :: "ptext \<Rightarrow> int \<Rightarrow> bool \<Rightarrow> int option" where
  "digits_val [] acc need = (if need then None else Some acc)"
| "digits_val (c # cs) acc need =
     (if 48 \<le> c \<and> c \<le> 57 then digits_val cs (10 * acc + int c - 48) False
      else if c = 95 \<and> \<not> need then digits_val cs acc True
      else None)"

definition py_int :: "ptext \<Rightarrow> int res" where
  "py_int t = (let s = strip t;
       v = (case s of
              c # cs \<Rightarrow> if c = 45 then map_option uminus (digits_val cs 0 True)
                        else if c = 43 then digits_val cs 0 True
                        else digits_val s 0 True
            | [] \<Rightarrow> None)
     in case v of None \<Rightarrow> Inl ValueError | Some i \<Rightarrow> Inr i)"

section \<open>Redirect messages\<close>

text \<open>
  The branch of \<open>_send_batch\<close> after a first byte \<open>R\<close>: the node of the cluster the message names,
  or the exception that makes the attempt a failed one. \<open>rest\<close> is what one \<open>recv(255)\<close> gave.
\<close>

definition redirect_leader :: "node list \<Rightarrow> int \<Rightarrow> node res" where
  "redirect_leader nodes leader_id =
     (if leader_id = 0 then Inl ConnectionError
      else case find (\<lambda>n. node_id n = leader_id) nodes of
             Some n \<Rightarrow> Inr n
           | None \<Rightarrow> Inl ConnectionError)"

definition follow_redirect :: "node list \<Rightarrow> byte list \<Rightarrow> node res" where
  "follow_redirect nodes rest =
     (let msg_str = strip (decode_utf8 (82 # rest)) in
      if starts_with msg_str (lit ''REDIRECT'')
      then let parts = split_on 32 msg_str in
           if 3 \<le> length parts
           then bind_res (py_int (parts ! 1)) (redirect_leader nodes)
           else Inl ConnectionError
      else Inl ConnectionError)"

section \<open>Facts about texts\<close>

lemma utf8_ignore_ascii: "\<forall>b \<in> set bs. b < 128 \<Longrightarrow> utf8_ignore bs = bs"
  by (induction bs) auto

lemma split_on_nonempty: "split_on sep t \<noteq> []"
  by (cases t) (auto split: list.splits)

lemma split_on_length: "length (split_on sep t) = Suc (count_list t sep)"
proof (induction t)
  case (Cons c t)
  then show ?case using split_on_nonempty [of sep t] by (auto split: list.splits)
qed simp

lemma split_on_word: "sep \<notin> set w \<Longrightarrow> split_on sep (w @ sep # t) = w # split_on sep t"
  by (induction w) auto

lemma split_on_last: "sep \<notin> set w \<Longrightarrow> split_on sep w = [w]"
  by (induction w) auto

lemma rstrip_append:
  "rstrip (s @ t) = (if rstrip t = [] then rstrip s else s @ rstrip t)"
  by (auto simp: rstrip_def dropWhile_append dest: set_dropWhileD)

lemma rstrip_snoc_keep: "\<not> py_space c \<Longrightarrow> rstrip (s @ [c]) = s @ [c]"
  by (simp add: rstrip_def)

lemma rstrip_count: "count_list (rstrip t) c \<le> count_list t c"
proof -
  have "t = rstrip t @ rev (takeWhile py_space (rev t))"
    unfolding rstrip_def by (metis rev_append rev_rev_ident takeWhile_dropWhile_id)
  then have "count_list t c = count_list (rstrip t) c + count_list (rev (takeWhile py_space (rev t))) c"
    by (metis count_list_append)
  then show ?thesis by simp
qed

lemma lstrip_keep: "\<not> py_space c \<Longrightarrow> lstrip (c # t) = c # t"
  by (simp add: lstrip_def)

text \<open>Decimal text reads back.\<close>

definition digit :: "nat \<Rightarrow> bool" where
  "digit c \<longleftrightarrow> 48 \<le> c \<and> c \<le> 57"

lemma digits_of_digit: "c \<in> set (lit (digits_of n)) \<Longrightarrow> digit c"
proof (induction n rule: digits_of.induct)
  case (1 n)
  then show ?case
    by (subst (asm) digits_of.simps) (auto simp: lit_def digit_def split: if_splits)
qed

lemma digits_of_nonempty: "digits_of n \<noteq> []"
  by (subst digits_of.simps) simp

lemma digits_val_digit:
  "d < 10 \<Longrightarrow> digits_val ((48 + d) # t) acc need = digits_val t (10 * acc + int d) False"
  by simp

lemma digits_val_append:
  "digits_val (lit (digits_of n) @ t) 0 True = digits_val t (int n) False"
proof (induction n arbitrary: t rule: digits_of.induct)
  case (1 n)
  show ?case
  proof (cases "n < 10")
    case True
    then show ?thesis by (subst digits_of.simps) (simp add: lit_def)
  next
    case False
    have "lit (digits_of n) = lit (digits_of (n div 10)) @ [48 + n mod 10]"
      using False by (subst digits_of.simps) (simp add: lit_def)
    then have "digits_val (lit (digits_of n) @ t) 0 True =
        digits_val (lit (digits_of (n div 10)) @ (48 + n mod 10) # t) 0 True" by simp
    also have "\<dots> = digits_val ((48 + n mod 10) # t) (int (n div 10)) False"
      using 1 [OF False] .
    also have "\<dots> = digits_val t (10 * int (n div 10) + int (n mod 10)) False"
      by (rule digits_val_digit) simp
    also have "10 * int (n div 10) + int (n mod 10) = int n"
      by (metis mult_div_mod_eq of_nat_add of_nat_mult of_nat_numeral)
    finally show ?thesis .
  qed
qed

lemma digit_not_space: "digit c \<Longrightarrow> \<not> py_space c \<and> c \<noteq> 32 \<and> c \<noteq> 45 \<and> c \<noteq> 43 \<and> c < 128"
  by (auto simp: digit_def py_space_def)

lemma strip_word: "w \<noteq> [] \<Longrightarrow> \<forall>c \<in> set w. \<not> py_space c \<Longrightarrow> strip w = w"
proof -
  assume a: "w \<noteq> []" "\<forall>c \<in> set w. \<not> py_space c"
  have keep: "dropWhile py_space v = v" if "set v \<subseteq> set w" for v
    using a(2) that by (cases v) auto
  show "strip w = w" by (simp add: strip_def lstrip_def rstrip_def keep)
qed

lemma py_int_digits: "py_int (lit (digits_of n)) = Inr (int n)"
proof -
  let ?w = "lit (digits_of n)"
  have ne: "?w \<noteq> []" using digits_of_nonempty by (simp add: lit_def)
  have d: "\<forall>c \<in> set ?w. digit c" using digits_of_digit by blast
  then have "strip ?w = ?w" using ne digit_not_space by (intro strip_word) blast+
  moreover obtain c cs where w: "?w = c # cs" using ne by (cases ?w) auto
  moreover have "c \<noteq> 45" "c \<noteq> 43" using d w digit_not_space by force+
  moreover have "digits_val ?w 0 True = Some (int n)" using digits_val_append [of n "[]"] by simp
  ultimately show ?thesis by (simp add: py_int_def Let_def)
qed

section \<open>Redirects that arrive in part\<close>

text \<open>
  One \<open>recv(255)\<close> may deliver only a first part of the redirect line. Whatever part it is, the
  client either rejects it or reads the leader the whole line names: a number cut short is never
  taken for another one.
\<close>

lemma decode_ascii: "\<forall>c \<in> set s. of_char c < (128 :: nat) \<Longrightarrow> decode_utf8 (ascii s) = lit s"
proof -
  assume a: "\<forall>c \<in> set s. of_char c < (128 :: nat)"
  have "map unat (ascii s) = lit s"
    using a by (auto simp: ascii_def lit_def unat_of_nat)
  then show ?thesis using a by (simp add: decode_utf8_def lit_def utf8_ignore_ascii)
qed

definition redirect_word :: ptext where
  "redirect_word = lit ''REDIRECT''"

definition redirect_line :: "nat \<Rightarrow> ptext \<Rightarrow> ptext" where
  "redirect_line leader tail = redirect_word @ 32 # lit (digits_of leader) @ 32 # tail"

text \<open>The outcome of a decoded message.\<close>

definition redirect_outcome :: "node list \<Rightarrow> ptext \<Rightarrow> node res" where
  "redirect_outcome nodes msg =
     (let msg_str = strip msg in
      if starts_with msg_str redirect_word \<and> 3 \<le> length (split_on 32 msg_str)
      then bind_res (py_int (split_on 32 msg_str ! 1)) (redirect_leader nodes)
      else Inl ConnectionError)"

lemma follow_redirect_outcome:
  "follow_redirect nodes rest = redirect_outcome nodes (decode_utf8 (82 # rest))"
  by (simp add: follow_redirect_def redirect_outcome_def redirect_word_def Let_def)

lemma redirect_word_shape:
  "redirect_word = 82 # tl redirect_word" "32 \<notin> set redirect_word" "\<not> py_space (last redirect_word)"
  "\<not> py_space 82" "redirect_word \<noteq> []"
  by (simp_all add: redirect_word_def lit_def py_space_def)

lemma few_spaces_rejected:
  "count_list (strip msg) 32 \<le> 1 \<Longrightarrow> redirect_outcome nodes msg = Inl ConnectionError"
  by (simp add: redirect_outcome_def Let_def split_on_length)

lemma redirect_outcome_line:
  assumes "rstrip tail \<noteq> []"
  shows "redirect_outcome nodes (redirect_line leader tail) = redirect_leader nodes (int leader)"
proof -
  let ?id = "lit (digits_of leader)"
  have "strip (redirect_line leader tail) = redirect_word @ 32 # ?id @ 32 # rstrip tail"
  proof -
    have "lstrip (redirect_line leader tail) = redirect_line leader tail"
      unfolding redirect_line_def using redirect_word_shape(1,4) lstrip_keep by (metis append_Cons)
    moreover have "redirect_line leader tail = (redirect_word @ 32 # ?id @ [32]) @ tail"
      by (simp add: redirect_line_def)
    ultimately show ?thesis using assms rstrip_append [of "redirect_word @ 32 # ?id @ [32]" tail]
      by (simp add: strip_def)
  qed
  moreover have "32 \<notin> set ?id" using digits_of_digit digit_not_space by blast
  ultimately show ?thesis
    using redirect_word_shape(2) split_on_nonempty [of 32 "rstrip tail"]
    by (cases "split_on 32 (rstrip tail)")
      (simp_all add: redirect_outcome_def split_on_word starts_with_def py_int_digits)
qed

lemma redirect_prefix_outcome:
  "redirect_outcome nodes (take k (redirect_line leader tail)) \<in>
     {Inl ConnectionError, redirect_leader nodes (int leader)}"
proof -
  let ?id = "lit (digits_of leader)"
  let ?head = "redirect_word @ 32 # ?id"
  have line: "redirect_line leader tail = (?head @ [32]) @ tail" by (simp add: redirect_line_def)
  have nospace: "32 \<notin> set ?id" using digits_of_digit digit_not_space by blast
  have one: "count_list ?head 32 = 1"
    using nospace redirect_word_shape(2) by (simp add: count_list_0_iff)
  have lhead: "lstrip (?head @ t) = ?head @ t" for t
    using redirect_word_shape(1,4) lstrip_keep by (metis append_Cons)
  have idne: "?id \<noteq> []" using digits_of_nonempty by (simp add: lit_def)
  have rhead: "rstrip (?head @ [32]) = ?head"
  proof -
    have "\<not> py_space (last ?id)" using idne digits_of_digit digit_not_space last_in_set by blast
    then have "rstrip ?head = ?head" using idne rstrip_snoc_keep [of "last ?id" "redirect_word @ 32 # butlast ?id"] by simp
    moreover have "rstrip [32] = []" by (simp add: rstrip_def py_space_def)
    ultimately show ?thesis using rstrip_append [of ?head "[32]"] by simp
  qed
  show ?thesis
  proof (cases "k \<le> length ?head")
    case True
    then have "take k (redirect_line leader tail) = take k ?head"
      using take_append [of k ?head "32 # tail"] by (simp add: redirect_line_def del: take_append)
    moreover have "count_list (strip (take k ?head)) 32 \<le> 1"
    proof -
      have "count_list (strip (take k ?head)) 32 \<le> count_list (lstrip (take k ?head)) 32"
        unfolding strip_def by (rule rstrip_count)
      also have "\<dots> \<le> count_list (take k ?head) 32"
        unfolding lstrip_def by (metis count_list_append le_add2 takeWhile_dropWhile_id)
      also have "\<dots> \<le> count_list ?head 32"
        by (metis append_take_drop_id count_list_append le_add1)
      finally show ?thesis using one by simp
    qed
    ultimately show ?thesis using few_spaces_rejected by simp
  next
    case False
    define j where "j = k - length (?head @ [32])"
    have t: "take k (redirect_line leader tail) = (?head @ [32]) @ take j tail"
    proof -
      have "length (?head @ [32]) \<le> k" using False by simp
      then have "take k (?head @ [32]) = ?head @ [32]" by (rule take_all)
      then show ?thesis by (simp only: line j_def take_append)
    qed
    show ?thesis
    proof (cases "rstrip (take j tail) = []")
      case True
      have "strip (take k (redirect_line leader tail)) = ?head"
        unfolding t strip_def using lhead [of "32 # take j tail"] True rhead
          rstrip_append [of "?head @ [32]" "take j tail"] by simp
      then show ?thesis using few_spaces_rejected one by simp
    next
      case False
      have "take k (redirect_line leader tail) = redirect_line leader (take j tail)"
        unfolding t by (simp add: redirect_line_def)
      then show ?thesis using redirect_outcome_line [OF False] by simp
    qed
  qed
qed

lemma digits_of_ascii: "c \<in> set (digits_of n) \<Longrightarrow> of_char c < (128 :: nat)"
  using digits_of_digit [of "of_char c" n] digit_not_space by (force simp: lit_def)

lemma show_int_ascii: "c \<in> set (show_int i) \<Longrightarrow> of_char c < (128 :: nat)"
  by (auto simp: show_int_def digits_of_ascii split: if_splits)

text \<open>The mock server's redirect line, as text.\<close>

definition redirect_string :: "mock_server \<Rightarrow> string" where
  "redirect_string s = ''REDIRECT '' @ show_int (ms_leader_id s) @ '' 127.0.0.1 '' @
     show_int (ms_write_port s) @ [char_of (10 :: nat)]"

lemma redirect_string_ascii: "c \<in> set (redirect_string s) \<Longrightarrow> of_char c < (128 :: nat)"
  using show_int_ascii [of c] by (auto simp: redirect_string_def)

lemma redirect_string_line:
  "0 \<le> ms_leader_id s \<Longrightarrow> lit (redirect_string s) = redirect_line (nat (ms_leader_id s))
     (lit ''127.0.0.1 '' @ lit (show_int (ms_write_port s)) @ [10])"
  by (simp add: redirect_string_def redirect_line_def redirect_word_def show_int_def lit_def)

lemma redirect_msg_string: "redirect_msg s = ascii (redirect_string s)"
  by (simp only: redirect_msg_def redirect_string_def)

lemma redirect_msg_split: "redirect_msg s = 82 # tl (redirect_msg s)"
  by (simp add: redirect_msg_def ascii_def)

lemma decode_redirect_prefix:
  "decode_utf8 (82 # take k (tl (redirect_msg s))) = take (Suc k) (lit (redirect_string s))"
proof -
  have "82 # take k (tl (redirect_msg s)) = take (Suc k) (redirect_msg s)"
    using redirect_msg_split [of s] by (metis take_Suc_Cons)
  also have "\<dots> = ascii (take (Suc k) (redirect_string s))"
    unfolding redirect_msg_string ascii_def by (rule take_map)
  finally have "decode_utf8 (82 # take k (tl (redirect_msg s))) =
      decode_utf8 (ascii (take (Suc k) (redirect_string s)))" by simp
  also have "\<dots> = lit (take (Suc k) (redirect_string s))"
    using redirect_string_ascii in_set_takeD by (intro decode_ascii) fast
  finally show ?thesis by (simp add: lit_def take_map)
qed

lemma follow_mock_redirect:
  assumes "0 \<le> ms_leader_id s"
  shows "follow_redirect nodes (tl (redirect_msg s)) = redirect_leader nodes (ms_leader_id s)"
proof -
  let ?tail = "lit ''127.0.0.1 '' @ lit (show_int (ms_write_port s)) @ [10]"
  have len: "length (lit (redirect_string s)) = Suc (length (tl (redirect_msg s)))"
    using redirect_msg_split [of s] by (metis ascii_def length_Cons length_map lit_def redirect_msg_def redirect_string_def)
  have "decode_utf8 (82 # tl (redirect_msg s)) = lit (redirect_string s)"
    using decode_redirect_prefix [of "length (tl (redirect_msg s))" s] len by simp
  moreover have "rstrip ?tail \<noteq> []"
    by (auto simp: rstrip_def lit_def py_space_def dropWhile_eq_Nil_conv)
  ultimately show ?thesis
    using assms by (simp add: follow_redirect_outcome redirect_string_line redirect_outcome_line)
qed

section \<open>Property\<close>

text \<open>
  A redirect line of a server that is not leader, cut after any number of bytes, is either
  rejected by the client or leads it to the node with exactly the identifier the server sent; the
  whole line always leads to that node, or is rejected because the identifier is 0 or unknown.
\<close>

theorem redirect_names_the_leader:
  assumes "0 \<le> ms_leader_id s"
  shows "hd (redirect_msg s) = 82 \<and>
    follow_redirect nodes (tl (redirect_msg s)) = redirect_leader nodes (ms_leader_id s) \<and>
    follow_redirect nodes (take k (tl (redirect_msg s))) \<in>
      {Inl ConnectionError, redirect_leader nodes (ms_leader_id s)}"
proof (intro conjI)
  show "hd (redirect_msg s) = 82" by (subst redirect_msg_split) simp
  show "follow_redirect nodes (tl (redirect_msg s)) = redirect_leader nodes (ms_leader_id s)"
    by (rule follow_mock_redirect [OF assms])
  show "follow_redirect nodes (take k (tl (redirect_msg s))) \<in>
      {Inl ConnectionError, redirect_leader nodes (ms_leader_id s)}"
    using redirect_prefix_outcome [of nodes "Suc k" "nat (ms_leader_id s)"] assms
    by (simp add: follow_redirect_outcome decode_redirect_prefix redirect_string_line)
qed

theorem redirect_names_the_leader_witness:
  "follow_redirect [\<lparr>cluster_name = ''c'', node_id = 12, host = ''h'', port = 1\<rparr>]
     (tl (redirect_msg \<lparr>ms_write_port = 8000, ms_leader_id = 12, ms_is_leader = False\<rparr>)) =
   Inr \<lparr>cluster_name = ''c'', node_id = 12, host = ''h'', port = 1\<rparr>"
  using redirect_names_the_leader
    [of "\<lparr>ms_write_port = 8000, ms_leader_id = 12, ms_is_leader = False\<rparr>"
        "[\<lparr>cluster_name = ''c'', node_id = 12, host = ''h'', port = 1\<rparr>]"]
  by (simp add: redirect_leader_def)

end
