(* ===== verification/Send_Batch.thy ===== *)
theory Send_Batch
  imports Socket_Pool Byte_Stream Py_Text
begin

text \<open>
  \<open>_flush_batch\<close> and its worker \<open>_send_batch\<close> of \<open>client/dbclient.py\<close>: the loop that sends one
  batch to the leader of a cluster, follows redirects, and retries with a growing delay. The
  environment of one attempt is a record: the registry operations of other threads before it,
  what the sockets do, and whether the metrics callback raises. A run consumes a list of
  environments; a run that is still looping when the list is used up has no result yet.
\<close>

section \<open>State and environment\<close>

record client_config =
  cf_batch_size :: int
  cf_max_retries :: int
  cf_has_write_cb :: bool

text \<open>Besides the registry and the sockets, the state keeps what an observer sees: the payloads
  handed to \<open>sendall\<close>, the metrics handed to the callback, and the backoff delays.\<close>

record send_state =
  ss_reg :: registry
  ss_net :: net
  ss_sent :: "(node \<times> byte list) list"
  ss_metrics :: "batch_metrics list"
  ss_delays :: "rat list"

record send_env =
  sv_ops :: "registry_op list"
  sv_sock :: sock_env
  sv_sendall :: "exc option"
  sv_events :: "recv_event list"
  sv_ack_time :: int
  sv_write_cb :: "exc option"

section \<open>One attempt\<close>

text \<open>
  The delay before retry number \<open>retries\<close>: 0.1 doubled each time and capped at 2.0, before the
  jitter. The constant is the binary fraction the literal denotes; doubling it is exact. The power
  is an integer that has to become a float, which fails from \<open>2 ** 1024\<close> on.
\<close>

definition tenth :: rat where
  "tenth = 3602879701896397 / 36028797018963968"

definition backoff_delay :: "nat \<Rightarrow> rat res" where
  "backoff_delay retries =
     (if 1024 \<le> retries - 1 then Inl OverflowError
      else Inr (min (tenth * 2 ^ (retries - 1)) 2))"

datatype attempt = Acked | Redirected | Failed exc "sock option"

text \<open>The two branches on the first byte of the answer; \<open>Failed\<close> carries the exception and the
  value of \<open>sock\<close>, which the handler closes.\<close>

definition handle_redirect ::
  "node list \<Rightarrow> sock \<Rightarrow> recv_event list \<Rightarrow> send_state \<Rightarrow> attempt \<times> send_state" where
  "handle_redirect nodes sock es st =
     (case fst (sock_recv 255 es) of
        Inl e \<Rightarrow> (Failed e (Some sock), st)
      | Inr rest \<Rightarrow>
          let st = st\<lparr>ss_net := close_sock sock (ss_net st)\<rparr> in
          case follow_redirect nodes rest of
            Inl e \<Rightarrow> (Failed e None, st)
          | Inr new_leader \<Rightarrow> (Redirected, st\<lparr>ss_reg := set_leader (ss_reg st) new_leader\<rparr>))"

definition handle_acks ::
  "client_config \<Rightarrow> db_record list \<Rightarrow> byte list \<Rightarrow> int \<Rightarrow> node \<Rightarrow> sock \<Rightarrow> send_env \<Rightarrow> recv_event list \<Rightarrow>
     send_state \<Rightarrow> attempt \<times> send_state" where
  "handle_acks cfg batch payload send_time current_node sock env es st =
     (let remaining = length batch - 1 in
      case (if 0 < remaining then fst (recv_exact remaining [] es) else Inr []) of
        Inl e \<Rightarrow> (Failed e (Some sock), st)
      | Inr _ \<Rightarrow>
          let st = st\<lparr>ss_net := return_socket current_node sock False (ss_net st),
                      ss_reg := set_leader (ss_reg st) current_node\<rparr>
          in if cf_has_write_cb cfg then
               let st = st\<lparr>ss_metrics := ss_metrics st @
                 [\<lparr>bm_send_time_ms = send_time, bm_ack_recv_time_ms = sv_ack_time env,
                   bm_record_count = int (length batch),
                   bm_batch_bytes = int (length payload)\<rparr>]\<rparr>
               in case sv_write_cb env of
                    None \<Rightarrow> (Acked, st)
                  | Some e \<Rightarrow> (Failed e (Some sock), st)
             else (Acked, st))"

text \<open>The body of the \<open>try\<close>. A connection the peer has broken still lets the answer be read.\<close>

definition send_error :: "send_env \<Rightarrow> exc option" where
  "send_error env = (case sv_sendall env of
     None \<Rightarrow> None
   | Some e \<Rightarrow> if e \<in> {BrokenPipeError, ConnectionResetError} then None else Some e)"

definition send_attempt ::
  "client_config \<Rightarrow> node list \<Rightarrow> db_record list \<Rightarrow> int \<Rightarrow> node \<Rightarrow> send_env \<Rightarrow> send_state \<Rightarrow>
     attempt \<times> send_state" where
  "send_attempt cfg nodes batch send_time current_node env st =
     (case get_socket (sv_sock env) current_node False (ss_net st) of
        (Inl e, net) \<Rightarrow> (Failed e None, st\<lparr>ss_net := net\<rparr>)
      | (Inr sock, net) \<Rightarrow>
          let st = st\<lparr>ss_net := net\<rparr> in
          case serialize_batch batch of
            Inl e \<Rightarrow> (Failed e (Some sock), st)
          | Inr payload \<Rightarrow>
              let st = st\<lparr>ss_sent := ss_sent st @ [(current_node, payload)]\<rparr> in
              case send_error env of
                Some e \<Rightarrow> (Failed e (Some sock), st)
              | None \<Rightarrow>
                  (case sock_recv 1 (sv_events env) of
                     (Inl e, es) \<Rightarrow> (Failed e (Some sock), st)
                   | (Inr first_byte, es) \<Rightarrow>
                       if first_byte = [] then (Failed ConnectionError (Some sock), st)
                       else if first_byte = [82] then handle_redirect nodes sock es st
                       else handle_acks cfg batch payload send_time current_node sock env es st))"

section \<open>The retry loop\<close>

text \<open>The \<open>except\<close> clause: forget the leader, close the socket.\<close>

definition after_failure :: "node \<Rightarrow> sock option \<Rightarrow> send_state \<Rightarrow> send_state" where
  "after_failure current_node sock st =
     st\<lparr>ss_reg := clear_leader (ss_reg st) current_node,
        ss_net := (case sock of None \<Rightarrow> ss_net st | Some s \<Rightarrow> close_sock s (ss_net st))\<rparr>"

definition choose_node :: "registry \<Rightarrow> string \<Rightarrow> node list \<Rightarrow> nat \<Rightarrow> node res" where
  "choose_node reg c nodes retries =
     (case get_leader reg c of
        Some n \<Rightarrow> Inr n
      | None \<Rightarrow> bind_res (py_mod (int retries) (int (length nodes))) (py_index nodes))"

fun send_loop ::
  "client_config \<Rightarrow> string \<Rightarrow> node list \<Rightarrow> db_record list \<Rightarrow> int \<Rightarrow> nat \<Rightarrow> send_env list \<Rightarrow> send_state \<Rightarrow>
     db_record list res option \<times> send_state" where
  "send_loop cfg c nodes batch t retries [] st =
     (if int retries < cf_max_retries cfg then None else Some (Inl RuntimeError), st)"
| "send_loop cfg c nodes batch t retries (env # envs) st =
     (if \<not> int retries < cf_max_retries cfg then (Some (Inl RuntimeError), st)
      else let st = st\<lparr>ss_reg := foldl registry_step (ss_reg st) (sv_ops env)\<rparr> in
        case choose_node (ss_reg st) c nodes retries of
          Inl e \<Rightarrow> (Some (Inl e), st)
        | Inr current_node \<Rightarrow>
            (case send_attempt cfg nodes batch t current_node env st of
               (Acked, st) \<Rightarrow> (Some (Inr batch), st)
             | (Redirected, st) \<Rightarrow> send_loop cfg c nodes batch t retries envs st
             | (Failed e sock, st) \<Rightarrow>
                 let st = after_failure current_node sock st; retries = Suc retries in
                 case backoff_delay retries of
                   Inl e \<Rightarrow> (Some (Inl e), st)
                 | Inr delay \<Rightarrow> send_loop cfg c nodes batch t retries envs
                     (st\<lparr>ss_delays := ss_delays st @ [delay]\<rparr>)))"

text \<open>\<open>_flush_batch\<close>: an empty batch is done at once; the node of a record that no cluster could
  take is \<open>None\<close>, which has no \<open>cluster_name\<close>.\<close>

definition flush_batch ::
  "client_config \<Rightarrow> clusters \<Rightarrow> node option \<Rightarrow> db_record list \<Rightarrow> int \<Rightarrow> send_env list \<Rightarrow> send_state \<Rightarrow>
     db_record list res option \<times> send_state" where
  "flush_batch cfg cs node batch t envs st =
     (if batch = [] then (Some (Inr []), st)
      else case node of
        None \<Rightarrow> (Some (Inl AttributeError), st)
      | Some n \<Rightarrow> send_loop cfg (cluster_name n) (dict_get_default cs (cluster_name n) []) batch t 0
          envs st)"

end
