(* ===== verification/Send_Props.thy ===== *)
theory Send_Props
  imports Send_Batch
begin

text \<open>
  What one attempt and the whole retry loop of \<open>_send_batch\<close> do: the shared lemmas about
  attempts, and the properties of the loop.
\<close>

section \<open>One attempt\<close>

lemma handle_redirect_log:
  assumes "handle_redirect nodes sock es st = (a, st')"
  shows "ss_delays st' = ss_delays st" "ss_sent st' = ss_sent st" "a \<noteq> Acked"
  using assms by (auto simp: handle_redirect_def Let_def split: sum.splits)

lemma handle_acks_log:
  assumes "handle_acks cfg batch payload t cur sock env es st = (a, st')"
  shows "ss_delays st' = ss_delays st" "ss_sent st' = ss_sent st" "a \<noteq> Redirected"
  using assms by (auto simp: handle_acks_def Let_def split: sum.splits option.splits if_splits)

text \<open>The three ways an attempt goes: it fails before anything is sent, it fails after the payload
  was sent and before an answer, or an answer is handled.\<close>

lemma send_attempt_cases [consumes 1, case_names early sent redirect acks]:
  assumes "send_attempt cfg nodes batch t cur env st = (a, st')"
  obtains e s net where "a = Failed e s" "st' = st\<lparr>ss_net := net\<rparr>"
      "get_socket (sv_sock env) cur False (ss_net st) = (Inl e, net) \<and> s = None \<or>
       (\<exists>sock. get_socket (sv_sock env) cur False (ss_net st) = (Inr sock, net) \<and> s = Some sock \<and>
          serialize_batch batch = Inl e)"
    | e sock net p where "a = Failed e (Some sock)" "get_socket (sv_sock env) cur False (ss_net st) = (Inr sock, net)"
      "serialize_batch batch = Inr p" "st' = st\<lparr>ss_net := net, ss_sent := ss_sent st @ [(cur, p)]\<rparr>"
    | sock net p b es where "get_socket (sv_sock env) cur False (ss_net st) = (Inr sock, net)"
      "serialize_batch batch = Inr p" "sock_recv (Suc 0) (sv_events env) = (Inr b, es)" "b \<noteq> []"
      "b = [82]" "handle_redirect nodes sock es (st\<lparr>ss_net := net, ss_sent := ss_sent st @ [(cur, p)]\<rparr>) = (a, st')"
    | sock net p b es where "get_socket (sv_sock env) cur False (ss_net st) = (Inr sock, net)"
      "serialize_batch batch = Inr p" "sock_recv (Suc 0) (sv_events env) = (Inr b, es)" "b \<noteq> []"
      "b \<noteq> [82]"
      "handle_acks cfg batch p t cur sock env es (st\<lparr>ss_net := net, ss_sent := ss_sent st @ [(cur, p)]\<rparr>) = (a, st')"
  using assms unfolding send_attempt_def Let_def
  by (auto split: prod.split_asm sum.split_asm option.split_asm if_split_asm)

lemma send_attempt_log:
  assumes "send_attempt cfg nodes batch t cur env st = (a, st')"
  shows "ss_delays st' = ss_delays st"
    and "(ss_sent st' = ss_sent st \<and> (\<exists>e s. a = Failed e s)) \<or>
      (\<exists>p. serialize_batch batch = Inr p \<and> ss_sent st' = ss_sent st @ [(cur, p)])"
proof -
  have "ss_delays st' = ss_delays st \<and> ((ss_sent st' = ss_sent st \<and> (\<exists>e s. a = Failed e s)) \<or>
      (\<exists>p. serialize_batch batch = Inr p \<and> ss_sent st' = ss_sent st @ [(cur, p)]))"
    using assms
  proof (cases rule: send_attempt_cases)
    case (redirect sock net p b es)
    then show ?thesis using handle_redirect_log [OF redirect(6)] by simp
  next
    case (acks sock net p b es)
    then show ?thesis using handle_acks_log [OF acks(6)] by simp
  qed auto
  then show "ss_delays st' = ss_delays st"
    "(ss_sent st' = ss_sent st \<and> (\<exists>e s. a = Failed e s)) \<or>
      (\<exists>p. serialize_batch batch = Inr p \<and> ss_sent st' = ss_sent st @ [(cur, p)])" by blast+
qed

text \<open>The first byte of the answer decides between redirect and acknowledgement.\<close>

definition answers_redirect :: "send_env \<Rightarrow> bool" where
  "answers_redirect env \<longleftrightarrow> take 1 (stream_bytes (sv_events env)) = [82]"

definition answers_acks :: "nat \<Rightarrow> send_env \<Rightarrow> bool" where
  "answers_acks n env \<longleftrightarrow> n \<le> length (stream_bytes (sv_events env)) \<and>
     stream_bytes (sv_events env) \<noteq> [] \<and> hd (stream_bytes (sv_events env)) \<noteq> 82"

lemma sock_recv_Inr:
  assumes "sock_recv k es = (Inr bs, es')" and "bs \<noteq> []"
  shows "stream_bytes es = bs @ stream_bytes es'"
  using assms by (cases es rule: stream_bytes.cases) (auto split: if_splits)

lemma sock_recv_length: "sock_recv k es = (Inr bs, es') \<Longrightarrow> length bs \<le> k"
  by (cases es rule: stream_bytes.cases) (auto split: if_splits)

lemma first_byte:
  assumes "sock_recv (Suc 0) es = (Inr bs, es')" and "bs \<noteq> []"
  shows "\<exists>b. bs = [b] \<and> stream_bytes es = b # stream_bytes es'"
proof -
  have "length bs = Suc 0" using sock_recv_length [OF assms(1)] assms(2) by (cases bs) auto
  then obtain b where "bs = [b]" by (metis length_0_conv length_Suc_conv)
  then show ?thesis using sock_recv_Inr [OF assms] by simp
qed

lemma send_attempt_Redirected:
  assumes "send_attempt cfg nodes batch t cur env st = (Redirected, st')"
  shows "answers_redirect env"
  using assms
proof (cases rule: send_attempt_cases)
  case (redirect sock net p b es)
  then show ?thesis using first_byte [OF redirect(3,4)] by (auto simp: answers_redirect_def)
next
  case (acks sock net p b es)
  then show ?thesis using handle_acks_log(3) by blast
qed simp_all

lemma recv_exact_Inr:
  "recv_exact n data es = (Inr x, es') \<Longrightarrow> n \<le> length data + length (stream_bytes es)"
  using recv_exact_short [of data es n] by force

lemma handle_acks_Acked:
  assumes "handle_acks cfg batch payload t cur sock env es st = (Acked, st')"
  shows "length batch - 1 \<le> length (stream_bytes es) \<and> get_leader (ss_reg st') (cluster_name cur) = Some cur \<and>
    (cf_has_write_cb cfg \<longrightarrow> ss_metrics st' = ss_metrics st @ [\<lparr>bm_send_time_ms = t,
       bm_ack_recv_time_ms = sv_ack_time env, bm_record_count = int (length batch),
       bm_batch_bytes = int (length payload)\<rparr>])"
proof -
  have "\<exists>x. (if 0 < length batch - 1 then fst (recv_exact (length batch - 1) [] es) else Inr []) = Inr x"
    using assms by (auto simp: handle_acks_def Let_def split: sum.splits)
  then have "length batch - 1 \<le> length (stream_bytes es)"
    using recv_exact_Inr [of "length batch - 1" "[]" es] by (auto simp: fst_def split: prod.splits if_splits)
  then show ?thesis using assms
    by (auto simp: handle_acks_def Let_def split: sum.splits option.splits if_splits)
qed

lemma send_attempt_Acked:
  assumes "send_attempt cfg nodes batch t cur env st = (Acked, st')"
  shows "answers_acks (length batch) env \<and> get_leader (ss_reg st') (cluster_name cur) = Some cur \<and>
    (\<exists>p. serialize_batch batch = Inr p \<and> ss_sent st' = ss_sent st @ [(cur, p)])"
  using assms
proof (cases rule: send_attempt_cases)
  case (redirect sock net p b es)
  then show ?thesis using handle_redirect_log(3) by blast
next
  case (acks sock net p b es)
  note a = handle_acks_Acked [OF acks(6)] and l = handle_acks_log [OF acks(6)]
  obtain c where "b = [c]" "stream_bytes (sv_events env) = c # stream_bytes es"
    using first_byte [OF acks(3,4)] by blast
  with acks(5) a have "answers_acks (length batch) env" by (auto simp: answers_acks_def)
  then show ?thesis using a l acks(2) by simp
qed simp_all

text \<open>Conversely, a server that acknowledges makes the attempt succeed.\<close>

lemma sock_recv_first:
  assumes "stream_bytes es = b # bs"
  shows "\<exists>es'. sock_recv 1 es = (Inr [b], es') \<and> stream_bytes es' = bs"
proof -
  obtain cs es' where r: "sock_recv 1 es = (Inr cs, es')" "cs \<noteq> []"
    using sock_recv_stream [of es 1] assms by auto
  then obtain c where "cs = [c]" "stream_bytes es = c # stream_bytes es'"
    using first_byte [of es cs es'] by auto
  with assms r(1) show ?thesis by auto
qed

definition callback_ok :: "client_config \<Rightarrow> send_env \<Rightarrow> bool" where
  "callback_ok cfg env \<longleftrightarrow> (cf_has_write_cb cfg \<longrightarrow> sv_write_cb env = None)"

lemma send_attempt_succeeds:
  assumes sock: "get_socket (sv_sock env) cur False (ss_net st) = (Inr sock, net)"
    and ser: "serialize_batch batch = Inr payload"
    and send: "sv_sendall env \<in> {None, Some BrokenPipeError, Some ConnectionResetError}"
    and acks: "answers_acks (length batch) env" and cb: "callback_ok cfg env"
  shows "\<exists>st'. send_attempt cfg nodes batch t cur env st = (Acked, st') \<and>
    ss_sent st' = ss_sent st @ [(cur, payload)] \<and> ss_reg st' = set_leader (ss_reg st) cur \<and>
    ss_net st' = return_socket cur sock False net \<and> ss_delays st' = ss_delays st"
proof -
  obtain b bs where b: "stream_bytes (sv_events env) = b # bs" "b \<noteq> 82" "length batch \<le> Suc (length bs)"
    using acks by (cases "stream_bytes (sv_events env)") (auto simp: answers_acks_def)
  obtain es where es: "sock_recv 1 (sv_events env) = (Inr [b], es)" "stream_bytes es = bs"
    using sock_recv_first [OF b(1)] by blast
  obtain x es' where "recv_exact (length batch - 1) [] es = (Inr x, es')"
  proof -
    have "length batch - 1 \<le> length (stream_bytes es)" using es(2) b(3) by simp
    then show thesis using recv_exact_enough [of "[]" "length batch - 1" es] that by auto
  qed
  moreover have "send_error env = None"
    using send by (auto simp: send_error_def)
  ultimately show ?thesis
    using sock ser es(1) b(2) cb by (auto simp: send_attempt_def handle_acks_def Let_def callback_ok_def)
qed

section \<open>The retry loop\<close>

lemma choose_node_Inl: "choose_node reg c nodes r = Inl e \<Longrightarrow> e \<in> {ZeroDivisionError, IndexError}"
  by (auto simp: choose_node_def py_mod_def py_index_def Let_def split: option.splits if_splits)

lemma choose_node_some:
  assumes "nodes \<noteq> []"
  shows "\<exists>n. choose_node reg c nodes r = Inr n"
proof -
  have "0 \<le> int r mod int (length nodes)" "int r mod int (length nodes) < int (length nodes)"
    using assms by (simp_all)
  then have "\<exists>n. py_index nodes (int r mod int (length nodes)) = Inr n"
    using py_index_in_range by blast
  then show ?thesis using assms by (auto simp: choose_node_def py_mod_def split: option.splits)
qed

definition at_env :: "send_env \<Rightarrow> send_state \<Rightarrow> send_state" where
  "at_env env st = st\<lparr>ss_reg := foldl registry_step (ss_reg st) (sv_ops env)\<rparr>"

lemma at_env_simps [simp]:
  "ss_net (at_env env st) = ss_net st" "ss_sent (at_env env st) = ss_sent st"
  "ss_delays (at_env env st) = ss_delays st" "ss_metrics (at_env env st) = ss_metrics st"
  "ss_reg (at_env env st) = foldl registry_step (ss_reg st) (sv_ops env)"
  by (simp_all add: at_env_def)

lemma after_failure_simps [simp]:
  "ss_sent (after_failure n s st) = ss_sent st" "ss_delays (after_failure n s st) = ss_delays st"
  "get_leader (ss_reg (after_failure n s st)) c = (if c = cluster_name n then None else get_leader (ss_reg st) c)"
  by (simp_all add: after_failure_def)

definition slept :: "rat \<Rightarrow> send_state \<Rightarrow> send_state" where
  "slept d st = st\<lparr>ss_delays := ss_delays st @ [d]\<rparr>"

lemma slept_simps [simp]:
  "ss_sent (slept d st) = ss_sent st" "ss_delays (slept d st) = ss_delays st @ [d]"
  "ss_net (slept d st) = ss_net st" "ss_reg (slept d st) = ss_reg st"
  by (simp_all add: slept_def)

lemma send_loop_cases [consumes 1, case_names gives_up no_node acked redirected overflow failed]:
  assumes "send_loop cfg c nodes batch t r (env # envs) st = (res, st')"
  obtains "\<not> int r < cf_max_retries cfg" "res = Some (Inl RuntimeError)" "st' = st"
    | e where "int r < cf_max_retries cfg" "choose_node (ss_reg (at_env env st)) c nodes r = Inl e"
      "res = Some (Inl e)" "st' = at_env env st"
    | cur where "int r < cf_max_retries cfg" "choose_node (ss_reg (at_env env st)) c nodes r = Inr cur"
      "send_attempt cfg nodes batch t cur env (at_env env st) = (Acked, st')" "res = Some (Inr batch)"
    | cur st1 where "int r < cf_max_retries cfg" "choose_node (ss_reg (at_env env st)) c nodes r = Inr cur"
      "send_attempt cfg nodes batch t cur env (at_env env st) = (Redirected, st1)"
      "send_loop cfg c nodes batch t r envs st1 = (res, st')"
    | cur e s st1 e' where "int r < cf_max_retries cfg" "choose_node (ss_reg (at_env env st)) c nodes r = Inr cur"
      "send_attempt cfg nodes batch t cur env (at_env env st) = (Failed e s, st1)"
      "backoff_delay (Suc r) = Inl e'" "res = Some (Inl e')" "st' = after_failure cur s st1"
    | cur e s st1 d where "int r < cf_max_retries cfg" "choose_node (ss_reg (at_env env st)) c nodes r = Inr cur"
      "send_attempt cfg nodes batch t cur env (at_env env st) = (Failed e s, st1)"
      "backoff_delay (Suc r) = Inr d"
      "send_loop cfg c nodes batch t (Suc r) envs (slept d (after_failure cur s st1)) = (res, st')"
  using assms unfolding send_loop.simps(2) Let_def at_env_def [symmetric] slept_def [symmetric]
  by (auto split: prod.split_asm sum.split_asm attempt.split_asm if_split_asm)

text \<open>Enough environments that do not redirect: the loop ends.\<close>

lemma send_loop_ends:
  assumes "nat (cf_max_retries cfg - int r) \<le> length (filter (\<lambda>e. \<not> answers_redirect e) envs)"
  shows "fst (send_loop cfg c nodes batch t r envs st) \<noteq> None"
  using assms
proof (induction envs arbitrary: r st)
  case Nil
  then show ?case by simp
next
  case (Cons env envs)
  obtain res st' where run: "send_loop cfg c nodes batch t r (env # envs) st = (res, st')" by force
  then show ?case
  proof (cases rule: send_loop_cases)
    case (redirected cur st1)
    then have "answers_redirect env" using send_attempt_Redirected by blast
    then show ?thesis using Cons.IH [of r st1] Cons.prems redirected(4) run by simp
  next
    case (failed cur e s st1 d)
    have "nat (cf_max_retries cfg - int (Suc r)) \<le> length (filter (\<lambda>e. \<not> answers_redirect e) envs)"
      using Cons.prems by (simp split: if_splits)
    then show ?thesis using Cons.IH failed(5) run by (metis fst_conv)
  qed (use run in simp_all)
qed

text \<open>A batch is reported sent only after one byte per record came back.\<close>

lemma send_loop_success:
  assumes "send_loop cfg c nodes batch t r envs st = (Some (Inr b), st')"
  shows "b = batch \<and> (\<exists>env \<in> set envs. \<exists>n p. serialize_batch batch = Inr p \<and>
    answers_acks (length batch) env \<and> ss_sent st' \<noteq> [] \<and> last (ss_sent st') = (n, p) \<and>
    get_leader (ss_reg st') (cluster_name n) = Some n)"
  using assms
proof (induction envs arbitrary: r st)
  case Nil
  then show ?case by (simp split: if_splits)
next
  case (Cons env envs)
  from Cons.prems show ?case
  proof (cases rule: send_loop_cases)
    case (acked cur)
    from send_attempt_Acked [OF acked(3)] acked(4) show ?thesis by auto
  next
    case (redirected cur st1)
    from Cons.IH [OF redirected(4)] show ?thesis by auto
  next
    case (failed cur e s st1 d)
    from Cons.IH [OF failed(5)] show ?thesis by auto
  qed simp_all
qed

definition delay :: "nat \<Rightarrow> rat" where
  "delay i = min (tenth * 2 ^ i) 2"

lemma backoff_delay_Suc: "backoff_delay (Suc r) = (if 1024 \<le> r then Inl OverflowError else Inr (delay r))"
  by (simp add: backoff_delay_def delay_def)

lemma retries_used_up: "\<not> int r < m \<Longrightarrow> [r..<nat m] = []"
  by (rule upt_conv_Nil) linarith

text \<open>Giving up takes every retry, each followed by its delay.\<close>

lemma send_loop_gives_up:
  assumes "send_loop cfg c nodes batch t r envs st = (Some (Inl RuntimeError), st')"
  shows "ss_delays st' = ss_delays st @ map delay [r..<nat (cf_max_retries cfg)]"
  using assms
proof (induction envs arbitrary: r st)
  case Nil
  then have "\<not> int r < cf_max_retries cfg" "st' = st" by (simp_all split: if_splits)
  then show ?case by (simp add: retries_used_up)
next
  case (Cons env envs)
  from Cons.prems show ?case
  proof (cases rule: send_loop_cases)
    case gives_up
    then show ?thesis by (simp add: retries_used_up)
  next
    case (no_node e)
    then show ?thesis using choose_node_Inl by fastforce
  next
    case (redirected cur st1)
    from Cons.IH [OF redirected(4)] send_attempt_log(1) [OF redirected(3)] show ?thesis by simp
  next
    case (overflow cur e s st1 e')
    then show ?thesis by (auto simp: backoff_delay_Suc split: if_splits)
  next
    case (failed cur e s st1 d)
    have "d = delay r" using failed(4) by (auto simp: backoff_delay_Suc split: if_splits)
    moreover have "[r..<nat (cf_max_retries cfg)] = r # [Suc r..<nat (cf_max_retries cfg)]"
      using failed(1) by (simp add: upt_conv_Cons)
    ultimately show ?thesis
      using Cons.IH [OF failed(5)] send_attempt_log(1) [OF failed(3)] by simp
  qed simp_all
qed

text \<open>Transmissions: only the serialized batch, at most one per retry and one per redirect.\<close>

lemma send_loop_sent:
  assumes "send_loop cfg c nodes batch t r envs st = (res, st')"
  shows "\<exists>log. ss_sent st' = ss_sent st @ log \<and>
    length log \<le> nat (cf_max_retries cfg - int r) + length (filter answers_redirect envs) \<and>
    (\<forall>(n, p) \<in> set log. serialize_batch batch = Inr p)"
  using assms
proof (induction envs arbitrary: r st)
  case Nil
  then show ?case by auto
next
  case (Cons env envs)
  let ?extend = "\<lambda>st1. \<exists>l. ss_sent st1 = ss_sent st @ l \<and> length l \<le> 1 \<and> (\<forall>(n, p) \<in> set l. serialize_batch batch = Inr p)"
  have extend: "?extend st1" if "send_attempt cfg nodes batch t cur env (at_env env st) = (a, st1)" for cur a st1
    using send_attempt_log(2) [OF that] by (elim disjE exE conjE) auto
  from Cons.prems show ?case
  proof (cases rule: send_loop_cases)
    case (acked cur)
    obtain l where "ss_sent st' = ss_sent st @ l" "length l \<le> 1" "\<forall>(n, p) \<in> set l. serialize_batch batch = Inr p"
      using extend [OF acked(3)] by blast
    then show ?thesis using acked(1) by (intro exI [of _ l]) auto
  next
    case (redirected cur st1)
    obtain l where l: "ss_sent st1 = ss_sent st @ l" "length l \<le> 1" "\<forall>(n, p) \<in> set l. serialize_batch batch = Inr p"
      using extend [OF redirected(3)] by blast
    obtain k where k: "ss_sent st' = ss_sent st1 @ k"
      "length k \<le> nat (cf_max_retries cfg - int r) + length (filter answers_redirect envs)"
      "\<forall>(n, p) \<in> set k. serialize_batch batch = Inr p" using Cons.IH [OF redirected(4)] by blast
    show ?thesis using l k send_attempt_Redirected [OF redirected(3)]
      by (intro exI [of _ "l @ k"]) auto
  next
    case (overflow cur e s st1 e')
    obtain l where l: "ss_sent st1 = ss_sent st @ l" "length l \<le> 1" "\<forall>(n, p) \<in> set l. serialize_batch batch = Inr p"
      using extend [OF overflow(3)] by blast
    then show ?thesis using overflow(1,6) by (intro exI [of _ l]) auto
  next
    case (failed cur e s st1 d)
    obtain l where l: "ss_sent st1 = ss_sent st @ l" "length l \<le> 1" "\<forall>(n, p) \<in> set l. serialize_batch batch = Inr p"
      using extend [OF failed(3)] by blast
    obtain k where k: "ss_sent st' = ss_sent st1 @ k"
      "length k \<le> nat (cf_max_retries cfg - int (Suc r)) + length (filter answers_redirect envs)"
      "\<forall>(n, p) \<in> set k. serialize_batch batch = Inr p" using Cons.IH [OF failed(5)] by auto
    show ?thesis using l k failed(1) by (intro exI [of _ "l @ k"]) auto
  qed auto
qed

section \<open>The sockets of the loop\<close>

lemma send_attempt_net:
  assumes ok: "net_ok (ss_net st)" and cb: "callback_ok cfg env"
    and run: "send_attempt cfg nodes batch t cur env st = (a, st')"
  shows "net_ok (ss_net st')"
    and "a = Failed e (Some s) \<Longrightarrow> held (ss_net st') s"
    and "held (ss_net st) u \<Longrightarrow> held (ss_net st') u \<and> (\<forall>e s. a = Failed e (Some s) \<longrightarrow> sk_id s \<noteq> sk_id u)"
proof -
  have "net_ok (ss_net st') \<and> (\<forall>e s. a = Failed e (Some s) \<longrightarrow> held (ss_net st') s) \<and>
    (\<forall>u. held (ss_net st) u \<longrightarrow> held (ss_net st') u \<and> (\<forall>e s. a = Failed e (Some s) \<longrightarrow> sk_id s \<noteq> sk_id u))"
    using run
  proof (cases rule: send_attempt_cases)
    case (early e s net)
    then show ?thesis using get_socket_ok [OF ok] by (elim disjE exE conjE) auto
  next
    case (sent e sock net p)
    then show ?thesis using get_socket_ok [OF ok sent(2)] by auto
  next
    case (redirect sock net p b es)
    note g = get_socket_ok [OF ok redirect(1)]
    then have h: "net_ok net" "held net sock" by auto
    have others: "held net u \<and> sk_id u \<noteq> sk_id sock \<and> sk_id sock \<noteq> sk_id u" if "held (ss_net st) u" for u
      using g(3) [OF that, of sock] by auto
    show ?thesis using redirect(6) others close_sock_ok [OF h] h
      by (auto simp: handle_redirect_def Let_def split: sum.splits)
  next
    case (acks sock net p b es)
    note g = get_socket_ok [OF ok acks(1)]
    then have h: "net_ok net" "held net sock" "sk_addr sock = node_addr cur False" by auto
    have others: "held net u \<and> sk_id u \<noteq> sk_id sock \<and> sk_id sock \<noteq> sk_id u" if "held (ss_net st) u" for u
      using g(3) [OF that, of sock] by auto
    show ?thesis using acks(6) others return_socket_ok [OF h] h cb
      by (auto simp: handle_acks_def Let_def callback_ok_def split: sum.splits if_splits option.splits)
  qed
  then show "net_ok (ss_net st')" "a = Failed e (Some s) \<Longrightarrow> held (ss_net st') s"
    "held (ss_net st) u \<Longrightarrow> held (ss_net st') u \<and> (\<forall>e s. a = Failed e (Some s) \<longrightarrow> sk_id s \<noteq> sk_id u)"
    by blast+
qed

lemma after_failure_net:
  assumes ok: "net_ok (ss_net st)" and cb: "callback_ok cfg env"
    and run: "send_attempt cfg nodes batch t cur env st = (Failed e s, st')"
  shows "net_ok (ss_net (after_failure cur s st'))"
    and "held (ss_net st) u \<Longrightarrow> held (ss_net (after_failure cur s st')) u"
proof -
  note n = send_attempt_net [OF ok cb run]
  show "net_ok (ss_net (after_failure cur s st'))"
    using n(1,2) close_sock_ok(1) by (cases s) (auto simp: after_failure_def)
  show "held (ss_net (after_failure cur s st')) u" if u: "held (ss_net st) u"
  proof (cases s)
    case (Some x)
    then have "held (ss_net st') x" "held (ss_net st') u" "sk_id u \<noteq> sk_id x"
      using n(2) n(3) [OF u] by auto
    then show ?thesis using Some close_sock_ok(2) [OF n(1)] by (simp add: after_failure_def)
  qed (use n(3) [OF u] in \<open>simp add: after_failure_def\<close>)
qed

lemma send_loop_net:
  assumes "net_ok (ss_net st)" and "\<forall>env \<in> set envs. callback_ok cfg env"
    and "send_loop cfg c nodes batch t r envs st = (res, st')"
  shows "net_ok (ss_net st') \<and> (\<forall>u. held (ss_net st) u \<longrightarrow> held (ss_net st') u)"
  using assms
proof (induction envs arbitrary: r st)
  case Nil
  then show ?case by auto
next
  case (Cons env envs)
  have cb: "callback_ok cfg env" "\<forall>env \<in> set envs. callback_ok cfg env" using Cons.prems(2) by simp_all
  have ok: "net_ok (ss_net (at_env env st))" using Cons.prems(1) by simp
  from Cons.prems(3) show ?case
  proof (cases rule: send_loop_cases)
    case (acked cur)
    from send_attempt_net [OF ok cb(1) acked(3)] show ?thesis by simp
  next
    case (redirected cur st1)
    note n = send_attempt_net [OF ok cb(1) redirected(3)]
    from Cons.IH [OF n(1) cb(2) redirected(4)] n(3) show ?thesis by simp
  next
    case (overflow cur e s st1 e')
    from after_failure_net [OF ok cb(1) overflow(3)] overflow(6) show ?thesis by simp
  next
    case (failed cur e s st1 d)
    note n = after_failure_net [OF ok cb(1) failed(3)]
    from Cons.IH [OF _ cb(2) failed(5)] n show ?thesis by simp
  qed (use Cons.prems in simp_all)
qed

section \<open>Batches that cannot be serialized\<close>

lemma send_attempt_unencodable:
  assumes "serialize_batch batch = Inl err"
  shows "\<exists>e s st'. send_attempt cfg nodes batch t cur env st = (Failed e s, st') \<and>
    ss_sent st' = ss_sent st \<and> ss_reg st' = ss_reg st \<and> ss_delays st' = ss_delays st"
  using assms by (auto simp: send_attempt_def Let_def split: prod.splits sum.splits)

lemma send_loop_unencodable:
  assumes "serialize_batch batch = Inl err" and "nodes \<noteq> []" and "cf_max_retries cfg \<le> 1024"
    and "nat (cf_max_retries cfg - int r) \<le> length envs"
  shows "\<exists>st'. send_loop cfg c nodes batch t r envs st = (Some (Inl RuntimeError), st') \<and>
    ss_sent st' = ss_sent st"
  using assms(4)
proof (induction envs arbitrary: r st)
  case Nil
  then show ?case by simp
next
  case (Cons env envs)
  obtain res st' where run: "send_loop cfg c nodes batch t r (env # envs) st = (res, st')" by force
  have att: "ss_sent st1 = ss_sent st \<and> (\<exists>e s. a = Failed e s)"
    if "send_attempt cfg nodes batch t cur env (at_env env st) = (a, st1)" for cur a st1
    using send_attempt_unencodable [OF assms(1), of cfg nodes t cur env "at_env env st"] that by auto
  from run show ?case
  proof (cases rule: send_loop_cases)
    case gives_up
    then show ?thesis using run by simp
  next
    case (no_node e)
    then show ?thesis using choose_node_some [OF assms(2)] by (metis Inl_Inr_False)
  next
    case (acked cur)
    then show ?thesis using att by blast
  next
    case (redirected cur st1)
    then show ?thesis using att by blast
  next
    case (overflow cur e s st1 e')
    then show ?thesis using assms(3) by (auto simp: backoff_delay_Suc split: if_splits)
  next
    case (failed cur e s st1 d)
    have "nat (cf_max_retries cfg - int (Suc r)) \<le> length envs" using Cons.prems by simp
    then obtain st2 where "send_loop cfg c nodes batch t (Suc r) envs (slept d (after_failure cur s st1)) =
        (Some (Inl RuntimeError), st2)" "ss_sent st2 = ss_sent st1"
      using Cons.IH [of "Suc r" "slept d (after_failure cur s st1)"] by auto
    then show ?thesis using failed(5) run att [OF failed(3)] by auto
  qed
qed

section \<open>A follower, then the leader\<close>

lemma get_socket_connects:
  assumes "net_ok net" and "\<And>a. se_connect env a = None"
  shows "\<exists>s net'. get_socket env n q net = (Inr s, net') \<and> net_ok net'"
proof -
  obtain r net' where g: "get_socket env n q net = (r, net')" by force
  then show ?thesis
    using get_socket_ok(1) [OF assms(1) g] get_socket_pooled(3,4) [OF assms(1) g] assms(2)
    by (cases "find (silent env) (pool_of net (n, q))") auto
qed

lemma send_attempt_redirects:
  assumes "get_socket (sv_sock env) cur False (ss_net st) = (Inr sock, net)"
    and "serialize_batch batch = Inr p" and "sv_sendall env = None"
    and "sv_events env = [Chunk (82 # rest)]" and "0 < length rest" and "length rest \<le> 255"
    and "follow_redirect nodes rest = Inr lead"
  shows "send_attempt cfg nodes batch t cur env st =
    (Redirected, st\<lparr>ss_net := close_sock sock net, ss_sent := ss_sent st @ [(cur, p)],
                    ss_reg := set_leader (ss_reg st) lead\<rparr>)"
  using assms by (auto simp: send_attempt_def handle_redirect_def send_error_def Let_def)

end
