(* ===== verification/Send_Theorems.thy ===== *)
theory Send_Theorems
  imports Send_Props
begin

text \<open>
  The properties of the retry loop of \<open>_send_batch\<close>, each with a run of the loop on concrete
  environments as witness.
\<close>

section \<open>Concrete runs\<close>

definition fresh_state :: send_state where
  "fresh_state = \<lparr>ss_reg = empty_registry, ss_net = empty_net, ss_sent = [], ss_metrics = [], ss_delays = []\<rparr>"

definition demo_cfg :: "int \<Rightarrow> client_config" where
  "demo_cfg m = \<lparr>cf_batch_size = 2, cf_max_retries = m, cf_has_write_cb = True\<rparr>"

definition demo_batch :: "db_record list" where
  "demo_batch = [\<lparr>key_id = 5, timestamp = 6, content = CInt 7\<rparr>, \<lparr>key_id = 8, timestamp = 9, content = CIndex 10\<rparr>]"

text \<open>A node that answers with the given bytes, over connections that always open.\<close>

definition answering :: "byte list \<Rightarrow> exc option \<Rightarrow> send_env" where
  "answering bs cb = \<lparr>sv_ops = [], sv_sock = calm_env, sv_sendall = None, sv_events = [Chunk bs],
     sv_ack_time = 3, sv_write_cb = cb\<rparr>"

text \<open>A node whose connection is refused.\<close>

definition refusing :: send_env where
  "refusing = \<lparr>sv_ops = [], sv_sock = calm_env\<lparr>se_connect := (\<lambda>a. Some OSError)\<rparr>, sv_sendall = None,
     sv_events = [], sv_ack_time = 0, sv_write_cb = None\<rparr>"

abbreviation demo_send :: "client_config \<Rightarrow> db_record list \<Rightarrow> send_env list \<Rightarrow> db_record list res option \<times> send_state" where
  "demo_send cfg batch envs \<equiv> send_loop cfg ''c'' [demo_pool_node] batch 0 0 envs fresh_state"

lemmas demo_defs = demo_cfg_def answering_def refusing_def calm_env_def demo_pool_node_def fresh_state_def

lemma demo_batch_bytes: "serialize_batch demo_batch = Inr (concat (map write_frame demo_batch))"
  by (simp add: serialize_batch_eq demo_batch_def encodable_def is_u64_def)

lemma demo_choose:
  "get_leader reg c = None \<Longrightarrow> choose_node reg c [n] r = Inr n"
  by (simp add: choose_node_def py_index_def)

lemma fresh_state_net_ok: "net_ok (ss_net fresh_state)"
  by (simp add: fresh_state_def)

section \<open>Ending, success and failure\<close>

text \<open>
  C16. The retry loop ends: given as many attempts that are not answered by a redirect as there are
  retries left, it has returned the batch or raised, whatever the sockets, the other threads and
  the callback do.
\<close>

theorem send_loop_terminates:
  assumes "nat (cf_max_retries cfg - int r) \<le> length (filter (\<lambda>e. \<not> answers_redirect e) envs)"
  shows "fst (send_loop cfg c nodes batch t r envs st) \<noteq> None"
  by (rule send_loop_ends [OF assms])

theorem send_loop_terminates_witness:
  "fst (demo_send (demo_cfg 2) demo_batch [refusing, answering [] None]) \<noteq> None"
  by (rule send_loop_terminates)
    (simp add: demo_cfg_def answers_redirect_def answering_def refusing_def)

text \<open>
  C12. When the loop returns, it returns the batch it was given, and in one attempt at least one
  byte per record came back, the first of them not the \<open>R\<close> of a redirect; the last payload handed
  to a socket is the serialization of the whole batch, and the node it went to is now registered as
  leader of its cluster.
\<close>

theorem returned_batch_was_acknowledged:
  assumes "send_loop cfg c nodes batch t r envs st = (Some (Inr b), st')"
  shows "b = batch \<and> (\<exists>env \<in> set envs. \<exists>n p. serialize_batch batch = Inr p \<and>
    answers_acks (length batch) env \<and> ss_sent st' \<noteq> [] \<and> last (ss_sent st') = (n, p) \<and>
    get_leader (ss_reg st') (cluster_name n) = Some n)"
  by (rule send_loop_success [OF assms])

lemma demo_success:
  "\<exists>st'. demo_send (demo_cfg 3) demo_batch [refusing, answering [0, 0] None] = (Some (Inr demo_batch), st')"
  by (simp add: send_attempt_def demo_batch_bytes demo_defs send_error_def handle_acks_def choose_node_def
      py_index_def get_socket_def new_sock_def after_failure_def backoff_delay_def recv_exact.simps
      Let_def demo_batch_def [symmetric])
    (simp add: demo_batch_def recv_exact.simps)

theorem returned_batch_was_acknowledged_witness:
  "\<exists>st' env. env \<in> {refusing, answering [0, 0] None} \<and> answers_acks 2 env \<and>
     demo_send (demo_cfg 3) demo_batch [refusing, answering [0, 0] None] = (Some (Inr demo_batch), st') \<and>
     snd (last (ss_sent st')) = concat (map write_frame demo_batch)"
proof -
  obtain st' where r: "demo_send (demo_cfg 3) demo_batch [refusing, answering [0, 0] None] = (Some (Inr demo_batch), st')"
    using demo_success by blast
  from returned_batch_was_acknowledged [OF r] obtain env n p where
    "env \<in> set [refusing, answering [0, 0] None]" "serialize_batch demo_batch = Inr p"
    "answers_acks (length demo_batch) env" "last (ss_sent st') = (n, p)"
    by blast
  moreover have "length demo_batch = 2" by (simp add: demo_batch_def)
  ultimately show ?thesis using r demo_batch_bytes
    by (intro exI [of _ st'] exI [of _ env]) (simp del: send_loop.simps)
qed

text \<open>
  C29. When the loop gives up with \<open>RuntimeError\<close>, every retry was used and the delays between
  them were 0.1 seconds doubled each time up to 2 seconds; and in any run, however it ends, the
  payloads handed to sockets are serializations of the whole batch, at most one per retry and one
  per attempt answered by a redirect.
\<close>

theorem retries_and_transmissions:
  assumes "send_loop cfg c nodes batch t 0 envs st = (res, st')"
  shows "(res = Some (Inl RuntimeError) \<longrightarrow>
      ss_delays st' = ss_delays st @ map (\<lambda>i. min (tenth * 2 ^ i) 2) [0..<nat (cf_max_retries cfg)]) \<and>
    (\<exists>log. ss_sent st' = ss_sent st @ log \<and>
      length log \<le> nat (cf_max_retries cfg) + length (filter answers_redirect envs) \<and>
      (\<forall>(n, p) \<in> set log. serialize_batch batch = Inr p))"
proof -
  have "delay = (\<lambda>i. min (tenth * 2 ^ i) 2)" by (rule ext) (simp add: delay_def)
  then show ?thesis
    using send_loop_gives_up [of cfg c nodes batch t 0 envs st st'] send_loop_sent [OF assms] assms by auto
qed

lemma demo_gives_up:
  "\<exists>st'. demo_send (demo_cfg 2) demo_batch [refusing, refusing] = (Some (Inl RuntimeError), st')"
  by (simp add: send_attempt_def demo_defs choose_node_def py_index_def get_socket_def new_sock_def
      after_failure_def backoff_delay_def Let_def)

theorem retries_and_transmissions_witness:
  "\<exists>st'. demo_send (demo_cfg 2) demo_batch [refusing, refusing] = (Some (Inl RuntimeError), st') \<and>
     ss_delays st' = [tenth, tenth * 2]"
proof -
  obtain st' where r: "demo_send (demo_cfg 2) demo_batch [refusing, refusing] = (Some (Inl RuntimeError), st')"
    using demo_gives_up by blast
  from retries_and_transmissions [OF r] have "ss_delays st' = ss_delays fresh_state @
      map (\<lambda>i. min (tenth * 2 ^ i) 2) [0..<2]"
    by (simp add: demo_cfg_def)
  then have "ss_delays st' = [tenth, tenth * 2]"
    by (simp add: fresh_state_def upt_rec tenth_def)
  with r show ?thesis by blast
qed



section \<open>Redirects\<close>

text \<open>
  A batch sent to a follower reaches the leader: the follower's redirect line makes the client
  send the same payload to the node it names, without using up a retry, and the acknowledgements of
  that node, in whatever pieces they arrive, complete the batch and register it as leader.
\<close>

theorem redirected_batch_reaches_leader:
  assumes "net_ok (ss_net st)" and "list_all encodable batch" and "batch \<noteq> []"
    and calm: "\<And>a. se_connect (sv_sock env1) a = None" "\<And>a. se_connect (sv_sock env2) a = None"
    and sent: "sv_sendall env1 = None" "sv_sendall env2 = None" "sv_ops env2 = []"
    and follower: "\<not> ms_is_leader s" "0 < ms_leader_id s" "length (redirect_msg s) \<le> 256"
    and lead: "find (\<lambda>n. node_id n = ms_leader_id s) nodes = Some lead" "cluster_name lead = c"
    and answer1: "handle_write s [] = Some ans1" "sv_events env1 = [Chunk ans1]"
    and leader: "ms_is_leader s'" "concat chunks = concat (map write_frame batch)" "[] \<notin> set chunks"
    and answer2: "handle_write s' chunks = Some ans2" "stream_bytes (sv_events env2) = ans2"
    and start: "choose_node (foldl registry_step (ss_reg st) (sv_ops env1)) c nodes r = Inr first"
    and r: "int r < cf_max_retries cfg" and cb: "callback_ok cfg env2"
  shows "\<exists>st' p. serialize_batch batch = Inr p \<and>
    send_loop cfg c nodes batch t r [env1, env2] st = (Some (Inr batch), st') \<and>
    get_leader (ss_reg st') c = Some lead \<and> ss_sent st' = ss_sent st @ [(first, p), (lead, p)]"
proof -
  define p where "p = concat (map write_frame batch)"
  have p: "serialize_batch batch = Inr p"
    using assms(2) by (simp add: serialize_batch_eq p_def list_all_iff)
  obtain s1 net1 where g1: "get_socket (sv_sock env1) first False (ss_net (at_env env1 st)) = (Inr s1, net1)"
    "net_ok net1" using get_socket_connects [OF assms(1) calm(1)] by fastforce
  have ans1: "ans1 = 82 # tl (redirect_msg s)"
    using answer1(1) follower(1) redirect_msg_split [of s] by (simp add: handle_write_def)
  have lead_ok: "follow_redirect nodes (tl (redirect_msg s)) = Inr lead"
    using follow_mock_redirect [of s nodes] follower(2) lead(1) by (simp add: redirect_leader_def)
  have len: "length (tl (redirect_msg s)) \<le> 255" "0 < length (tl (redirect_msg s))"
    using follower(3) by (auto simp: redirect_msg_def ascii_def)
  define st1 where "st1 = (at_env env1 st)\<lparr>ss_net := close_sock s1 net1,
    ss_sent := ss_sent (at_env env1 st) @ [(first, p)], ss_reg := set_leader (ss_reg (at_env env1 st)) lead\<rparr>"
  have a1: "send_attempt cfg nodes batch t first env1 (at_env env1 st) = (Redirected, st1)"
    unfolding st1_def using g1(1) p sent(1) answer1(2) ans1 len lead_ok
    by (intro send_attempt_redirects) simp_all
  have ok1: "net_ok (ss_net (at_env env2 st1))"
    using close_sock_ok(1) [OF g1(2)] get_socket_ok(2) [OF _ g1(1)] assms(1) by (simp add: st1_def)
  obtain s2 net2 where g2: "get_socket (sv_sock env2) lead False (ss_net (at_env env2 st1)) = (Inr s2, net2)"
    using get_socket_connects [OF ok1 calm(2)] by fastforce
  have "serve_writes [] chunks [] = Some ([] @ replicate (length (map write_frame batch)) 0)"
    using leader(2,3) write_frame_message by (intro serve_writes_acks) (auto simp: message_cut_def)
  then have "ans2 = replicate (length batch) 0" using leader(1) answer2(1) by (simp add: handle_write_def)
  then have acks: "answers_acks (length batch) env2"
    using assms(3) answer2(2) by (auto simp: answers_acks_def)
  have send2: "sv_sendall env2 \<in> {None, Some BrokenPipeError, Some ConnectionResetError}"
    using sent(2) by simp
  obtain st2 where a2: "send_attempt cfg nodes batch t lead env2 (at_env env2 st1) = (Acked, st2)"
    "ss_sent st2 = ss_sent (at_env env2 st1) @ [(lead, p)]"
    "ss_reg st2 = set_leader (ss_reg (at_env env2 st1)) lead"
    using send_attempt_succeeds [OF g2 p send2 acks cb, of nodes t] by blast
  have c1: "choose_node (ss_reg (at_env env1 st)) c nodes r = Inr first" using start by simp
  have c2: "choose_node (ss_reg (at_env env2 st1)) c nodes r = Inr lead"
    using sent(3) lead(2) by (simp add: choose_node_def st1_def)
  have "send_loop cfg c nodes batch t r [env1, env2] st = (Some (Inr batch), st2)"
    using r c1 c2 a1 a2(1) unfolding send_loop.simps(2) Let_def at_env_def [symmetric] by simp
  then show ?thesis using p a2 lead(2)
    by (intro exI [of _ st2] exI [of _ p]) (simp add: st1_def)
qed

definition demo_leader_node :: node where
  "demo_leader_node = \<lparr>cluster_name = ''c'', node_id = 2, host = ''h'', port = 8100\<rparr>"

definition demo_follower :: mock_server where
  "demo_follower = \<lparr>ms_write_port = 8000, ms_leader_id = 2, ms_is_leader = False\<rparr>"

definition demo_leader :: mock_server where
  "demo_leader = \<lparr>ms_write_port = 8100, ms_leader_id = 2, ms_is_leader = True\<rparr>"

lemma demo_bytes_nonempty: "concat (map write_frame demo_batch) \<noteq> []"
proof
  assume "concat (map write_frame demo_batch) = []"
  then have "33 * length demo_batch = 0" by (metis length_concat_frames list.size(3))
  then show False by (simp add: demo_batch_def)
qed

lemma demo_leader_acks:
  "handle_write demo_leader [concat (map write_frame demo_batch)] = Some [0, 0]"
proof -
  let ?bytes = "concat (map write_frame demo_batch)"
  have "[] \<notin> set [?bytes]" using demo_bytes_nonempty by simp
  then have "serve_writes [] [?bytes] [] = Some ([] @ replicate (length (map write_frame demo_batch)) 0)"
    using write_frame_message by (intro serve_writes_acks) (auto simp: message_cut_def)
  then show ?thesis
    by (simp add: handle_write_def demo_leader_def demo_batch_def del: serve_writes.simps)
qed

lemma demo_redirect_length: "length (redirect_msg demo_follower) = 26"
  by (simp add: redirect_msg_def demo_follower_def ascii_def show_int_def digits_of.simps)

theorem redirected_batch_reaches_leader_witness:
  "\<exists>st'. send_loop (demo_cfg 1) ''c'' [demo_pool_node, demo_leader_node] demo_batch 0 0
       [answering (redirect_msg demo_follower) None, answering [0, 0] None] fresh_state =
       (Some (Inr demo_batch), st') \<and>
     get_leader (ss_reg st') ''c'' = Some demo_leader_node"
proof -
  let ?env1 = "answering (redirect_msg demo_follower) None" and ?env2 = "answering [0, 0] None"
  let ?nodes = "[demo_pool_node, demo_leader_node]"
  have enc: "list_all encodable demo_batch" "demo_batch \<noteq> []"
    by (simp_all add: demo_batch_def encodable_def is_u64_def)
  have calm: "se_connect (sv_sock ?env1) a = None" "se_connect (sv_sock ?env2) a = None" for a
    by (simp_all add: answering_def calm_env_def)
  have sent: "sv_sendall ?env1 = None" "sv_sendall ?env2 = None" "sv_ops ?env2 = []"
    by (simp_all add: answering_def)
  have follower: "\<not> ms_is_leader demo_follower" "0 < ms_leader_id demo_follower"
    "length (redirect_msg demo_follower) \<le> 256"
    using demo_redirect_length by (simp_all add: demo_follower_def)
  have lead: "find (\<lambda>n. node_id n = ms_leader_id demo_follower) ?nodes = Some demo_leader_node"
    "cluster_name demo_leader_node = ''c''"
    by (simp_all add: demo_follower_def demo_leader_node_def demo_pool_node_def)
  have answer1: "handle_write demo_follower [] = Some (redirect_msg demo_follower)"
    "sv_events ?env1 = [Chunk (redirect_msg demo_follower)]"
    using follower(1) by (simp_all add: handle_write_def answering_def)
  have leader: "ms_is_leader demo_leader"
    "concat [concat (map write_frame demo_batch)] = concat (map write_frame demo_batch)"
    "[] \<notin> set [concat (map write_frame demo_batch)]"
    using demo_bytes_nonempty by (simp_all add: demo_leader_def)
  have answer2: "stream_bytes (sv_events ?env2) = [0, 0]" by (simp add: answering_def)
  have start: "choose_node (foldl registry_step (ss_reg fresh_state) (sv_ops ?env1)) ''c'' ?nodes 0 = Inr demo_pool_node"
    by (simp add: fresh_state_def answering_def choose_node_def py_index_def)
  have r: "int 0 < cf_max_retries (demo_cfg 1)" and cb: "callback_ok (demo_cfg 1) ?env2"
    by (simp_all add: demo_cfg_def callback_ok_def answering_def)
  from redirected_batch_reaches_leader [OF fresh_state_net_ok enc calm sent follower lead answer1 leader
      demo_leader_acks answer2 start r cb, of 0] show ?thesis by blast
qed

text \<open>An answer that names the node it comes from as the leader.\<close>

definition self_redirect :: send_env where
  "self_redirect = answering (redirect_msg \<lparr>ms_write_port = 8000, ms_leader_id = 1, ms_is_leader = False\<rparr>) None"

lemma self_redirect_step:
  assumes "net_ok (ss_net st)" and "get_leader (ss_reg st) ''c'' \<in> {None, Some demo_pool_node}"
  shows "\<exists>st'. send_loop (demo_cfg (int (Suc m))) ''c'' [demo_pool_node] demo_batch 0 0 (self_redirect # envs) st =
      send_loop (demo_cfg (int (Suc m))) ''c'' [demo_pool_node] demo_batch 0 0 envs st' \<and>
    net_ok (ss_net st') \<and> get_leader (ss_reg st') ''c'' = Some demo_pool_node \<and>
    length (ss_sent st') = Suc (length (ss_sent st))"
proof -
  let ?s = "\<lparr>ms_write_port = 8000, ms_leader_id = 1, ms_is_leader = False\<rparr>"
  have choose: "choose_node (ss_reg (at_env self_redirect st)) ''c'' [demo_pool_node] 0 = Inr demo_pool_node"
    using assms(2) by (auto simp: choose_node_def py_index_def self_redirect_def answering_def)
  obtain s net where g: "get_socket (sv_sock self_redirect) demo_pool_node False (ss_net (at_env self_redirect st)) = (Inr s, net)"
    "net_ok net"
    using get_socket_connects [of "ss_net st" "sv_sock self_redirect" demo_pool_node False] assms(1)
    by (auto simp: self_redirect_def answering_def calm_env_def)
  have lead: "follow_redirect [demo_pool_node] (tl (redirect_msg ?s)) = Inr demo_pool_node"
    using follow_mock_redirect [of ?s "[demo_pool_node]"] by (simp add: redirect_leader_def demo_pool_node_def)
  have len: "length (redirect_msg ?s) = 26"
    by (simp add: redirect_msg_def ascii_def show_int_def digits_of.simps)
  have events: "sv_events self_redirect = [Chunk (82 # tl (redirect_msg ?s))]"
    using redirect_msg_split [of ?s] by (simp add: self_redirect_def answering_def)
  note att = send_attempt_redirects [OF g(1) demo_batch_bytes _ events _ _ lead, of "demo_cfg (int (Suc m))" 0]
  have "held net s" using get_socket_ok(2) [OF _ g(1)] assms(1) by simp
  then have "net_ok (close_sock s net)" using close_sock_ok(1) g(2) by blast
  then show ?thesis
    using att len choose demo_batch_bytes unfolding send_loop.simps(2) Let_def at_env_def [symmetric]
    by (intro exI) (auto simp: demo_cfg_def self_redirect_def answering_def demo_pool_node_def)
qed

lemma self_redirect_run:
  assumes "net_ok (ss_net st)" and "get_leader (ss_reg st) ''c'' \<in> {None, Some demo_pool_node}"
  shows "\<exists>st'. send_loop (demo_cfg (int (Suc m))) ''c'' [demo_pool_node] demo_batch 0 0 (replicate k self_redirect) st =
      (None, st') \<and> length (ss_sent st') = length (ss_sent st) + k"
  using assms
proof (induction k arbitrary: st)
  case 0
  then show ?case by (simp add: demo_cfg_def)
next
  case (Suc k)
  from self_redirect_step [OF Suc.prems, of m "replicate k self_redirect"] obtain st1 where
    "send_loop (demo_cfg (int (Suc m))) ''c'' [demo_pool_node] demo_batch 0 0 (self_redirect # replicate k self_redirect) st =
      send_loop (demo_cfg (int (Suc m))) ''c'' [demo_pool_node] demo_batch 0 0 (replicate k self_redirect) st1"
    "net_ok (ss_net st1)" "get_leader (ss_reg st1) ''c'' = Some demo_pool_node"
    "length (ss_sent st1) = Suc (length (ss_sent st))" by blast
  with Suc.IH [of st1] show ?case by (auto simp del: send_loop.simps)
qed

text \<open>
  C39. Redirects do not count as retries: against a node that keeps naming itself as the leader, a
  client configured for any number of retries is still looping after any number of attempts, and
  has sent the whole batch once in each of them.
\<close>

theorem redirects_are_not_bounded:
  "\<exists>st'. demo_send (demo_cfg (int (Suc m))) demo_batch (replicate k self_redirect) = (None, st') \<and>
     length (ss_sent st') = k"
  using self_redirect_run [of fresh_state m k] by (simp add: fresh_state_def)

section \<open>Failures that are retried in vain\<close>

text \<open>
  A batch with a record whose key, timestamp or content does not fit 64 bits can never be
  sent, yet every retry is spent on it: nothing is handed to a socket and the loop gives up with
  \<open>RuntimeError\<close>, whatever the other attempts' sockets would have answered.
\<close>

theorem unencodable_batch_wastes_retries:
  assumes "\<not> list_all encodable batch" and "nodes \<noteq> []" and "cf_max_retries cfg \<le> 1024"
    and "nat (cf_max_retries cfg) \<le> length envs"
  shows "\<exists>st'. send_loop cfg c nodes batch t 0 envs st = (Some (Inl RuntimeError), st') \<and>
    ss_sent st' = ss_sent st"
proof -
  have "serialize_batch batch = Inl StructError"
    using assms(1) by (auto simp: serialize_batch_eq list_all_iff)
  then show ?thesis using send_loop_unencodable assms by force
qed

theorem unencodable_batch_wastes_retries_witness:
  "\<exists>st'. demo_send (demo_cfg 3) [\<lparr>key_id = 1, timestamp = 0, content = CInt (- 1)\<rparr>]
     [answering [0] None, answering [0] None, answering [0] None] = (Some (Inl RuntimeError), st') \<and>
     ss_sent st' = []"
  using unencodable_batch_wastes_retries [of "[\<lparr>key_id = 1, timestamp = 0, content = CInt (- 1)\<rparr>]"
      "[demo_pool_node]" "demo_cfg 3" "[answering [0] None, answering [0] None, answering [0] None]"
      "''c''" 0 fresh_state]
  by (simp add: encodable_def is_u64_def demo_cfg_def fresh_state_def del: send_loop.simps)

text \<open>
  A metrics callback that raises makes an acknowledged batch be sent again: the handler closes
  the connection that was already back in the pool, the next attempt fails on that closed
  connection, and the one after it sends the same payload a second time.
\<close>

theorem raising_callback_resends_batch:
  "\<exists>st'. demo_send (demo_cfg 3) demo_batch
      [answering [0, 0] (Some ValueError), answering [0, 0] None, answering [0, 0] None] =
      (Some (Inr demo_batch), st') \<and>
    ss_sent st' = replicate 2 (demo_pool_node, concat (map write_frame demo_batch)) \<and>
    length (ss_metrics st') = 2 \<and> length (ss_delays st') = 2"
  by (simp add: send_attempt_def demo_batch_bytes demo_defs send_error_def handle_acks_def choose_node_def
      py_index_def get_socket_def new_sock_def after_failure_def backoff_delay_def recv_exact.simps
      Let_def demo_batch_def [symmetric])
    (simp add: demo_batch_def recv_exact.simps numeral_2_eq_2)

end
