(* ===== verification/Query_Node.thy ===== *)
theory Query_Node
  imports Socket_Pool Byte_Stream Mock_Server
begin

text \<open>
  \<open>_query_single_node\<close> and \<open>_query_batch_single_node\<close> of \<open>client/dbclient.py\<close>: sending one
  query, or a pipeline of queries, to one node of a cluster, reading the answers, and falling
  back to the other nodes of the cluster. The environment of an attempt says what its sockets do
  and what the clock shows.
\<close>

section \<open>Environment and state\<close>

record query_env =
  qv_sock :: sock_env
  qv_sendall :: "exc option"
  qv_events :: "recv_event list"
  qv_start :: rat
  qv_end :: rat
  qv_recv_ts :: "nat \<Rightarrow> rat"

text \<open>The sockets and the next value of the request counter.\<close>

record query_state =
  qs_net :: net
  qs_counter :: int

section \<open>The order of the nodes\<close>

definition preferred_nodes :: "node \<Rightarrow> node list \<Rightarrow> node option \<Rightarrow> node list" where
  "preferred_nodes node nodes leader =
     (let non_leaders = filter (\<lambda>n. Some n \<noteq> leader) nodes;
          leader_node = filter (\<lambda>n. Some n = leader) nodes;
          preferred = non_leaders @ leader_node
      in if node \<in> set preferred then node # remove1 node preferred else preferred)"

text \<open>The \<open>for\<close> loop over the nodes: the first attempt that does not raise decides.\<close>

fun try_nodes ::
  "(nat \<Rightarrow> node \<Rightarrow> query_state \<Rightarrow> 'a res \<times> query_state) \<Rightarrow> nat \<Rightarrow> node list \<Rightarrow> query_state \<Rightarrow>
     'a res \<times> query_state" where
  "try_nodes attempt i [] st = (Inl RuntimeError, st)"
| "try_nodes attempt i (n # ns) st =
     (case attempt i n st of
        (Inr x, st') \<Rightarrow> (Inr x, st')
      | (Inl e, st') \<Rightarrow> try_nodes attempt (Suc i) ns st')"

section \<open>Reading one answer\<close>

text \<open>Header, check of the request id, keys, body, records.\<close>

definition read_reply ::
  "(int \<Rightarrow> bool) \<Rightarrow> bool \<Rightarrow> recv_event list \<Rightarrow> response res \<times> recv_event list" where
  "read_reply expected skip_records es =
     (case recv_exact QUERY_RESP_HEADER_SIZE [] es of
        (Inl e, es1) \<Rightarrow> (Inl e, es1)
      | (Inr header_data, es1) \<Rightarrow>
          (case decode_header header_data of
             Inl e \<Rightarrow> (Inl e, es1)
           | Inr h \<Rightarrow>
               if \<not> expected (h_req_id h) then (Inl ConnectionError, es1)
               else case bind_res (unpack_key (h_min_key h)) (\<lambda>mn.
                      bind_res (unpack_key (h_max_key h)) (\<lambda>mx. Inr (mn, mx))) of
                 Inl e \<Rightarrow> (Inl e, es1)
               | Inr ((mn_id, mn_ts), (mx_id, mx_ts)) \<Rightarrow>
                   let body_size = h_total_size h - int QUERY_RESP_HEADER_SIZE in
                   case (if 0 < body_size then recv_exact (nat body_size) [] es1 else (Inr [], es1)) of
                     (Inl e, es2) \<Rightarrow> (Inl e, es2)
                   | (Inr body_data, es2) \<Rightarrow>
                       (parse_response (h_req_id h) (h_limit h) mn_id mn_ts mx_id mx_ts
                          (h_records_bytes h) (h_records_count h) body_data skip_records, es2)))"

section \<open>\<open>_query_single_node\<close>\<close>

definition single_attempt ::
  "(nat \<Rightarrow> query_env) \<Rightarrow> query_request \<Rightarrow> bool \<Rightarrow> int option \<Rightarrow> nat \<Rightarrow> node \<Rightarrow> query_state \<Rightarrow>
     (node \<times> response \<times> rat \<times> rat) res \<times> query_state" where
  "single_attempt envs q skip_records req_id i n st =
     (let env = envs i;
          actual_req_id = (case req_id of Some r \<Rightarrow> r | None \<Rightarrow> qs_counter st);
          st = (case req_id of Some r \<Rightarrow> st | None \<Rightarrow> st\<lparr>qs_counter := qs_counter st + 1\<rparr>)
      in case encode_query actual_req_id q of
           Inl e \<Rightarrow> (Inl e, st)
         | Inr req_data \<Rightarrow>
             (case get_socket (qv_sock env) n True (qs_net st) of
                (Inl e, net) \<Rightarrow> (Inl e, st\<lparr>qs_net := net\<rparr>)
              | (Inr sock, net) \<Rightarrow>
                  case (case qv_sendall env of Some e \<Rightarrow> Inl e
                        | None \<Rightarrow> fst (read_reply (\<lambda>r. r = actual_req_id) skip_records (qv_events env))) of
                    Inl e \<Rightarrow> (Inl e, st\<lparr>qs_net := close_sock sock net\<rparr>)
                  | Inr response \<Rightarrow>
                      (Inr (n, response, qv_start env, qv_end env),
                       st\<lparr>qs_net := return_socket n sock True net\<rparr>)))"

definition query_single_node ::
  "clusters \<Rightarrow> registry \<Rightarrow> (nat \<Rightarrow> query_env) \<Rightarrow> node \<Rightarrow> query_request \<Rightarrow> bool \<Rightarrow> int option \<Rightarrow> query_state \<Rightarrow>
     (node \<times> response \<times> rat \<times> rat) res \<times> query_state" where
  "query_single_node cs reg envs node q skip_records req_id st =
     try_nodes (single_attempt envs q skip_records req_id) 0
       (preferred_nodes node (dict_get_default cs (cluster_name node) [])
          (get_leader reg (cluster_name node))) st"

section \<open>\<open>_query_batch_single_node\<close>\<close>

text \<open>The loop that builds the payload: the request ids, given by the caller or drawn from the
  counter, and the concatenated requests.\<close>

definition next_req_id :: "int list option \<Rightarrow> nat \<Rightarrow> int \<Rightarrow> int res \<times> int" where
  "next_req_id req_ids i cnt = (case req_ids of
     Some ids \<Rightarrow> (py_index ids (int i), cnt) | None \<Rightarrow> (Inr cnt, cnt + 1))"

fun batch_payload ::
  "int list option \<Rightarrow> nat \<Rightarrow> query_request list \<Rightarrow> int \<Rightarrow> (int list \<times> byte list) res \<times> int" where
  "batch_payload req_ids i [] cnt = (Inr ([], []), cnt)"
| "batch_payload req_ids i (q # qs) cnt =
     (case next_req_id req_ids i cnt of
        (Inl e, cnt) \<Rightarrow> (Inl e, cnt)
      | (Inr r, cnt) \<Rightarrow>
          (case encode_query r q of
             Inl e \<Rightarrow> (Inl e, cnt)
           | Inr req_data \<Rightarrow>
               (case batch_payload req_ids (Suc i) qs cnt of
                  (Inl e, cnt) \<Rightarrow> (Inl e, cnt)
                | (Inr (rs, payload), cnt) \<Rightarrow> (Inr (r # rs, req_data @ payload), cnt))))"

text \<open>\<open>req_id_to_idx\<close>: a repeated id keeps the last index.\<close>

definition req_index :: "int list \<Rightarrow> (int, nat) dict" where
  "req_index ids = foldl (\<lambda>d (r, i). AList.update r i d) [] (zip ids [0..<length ids])"

fun read_replies ::
  "nat \<Rightarrow> nat \<Rightarrow> (int \<Rightarrow> bool) \<Rightarrow> bool \<Rightarrow> (nat \<Rightarrow> rat) \<Rightarrow> recv_event list \<Rightarrow> response list res" where
  "read_replies i 0 known skip_records clock es = Inr []"
| "read_replies i (Suc k) known skip_records clock es =
     (case read_reply known skip_records es of
        (Inl e, es') \<Rightarrow> Inl e
      | (Inr resp, es') \<Rightarrow>
          bind_res (read_replies (Suc i) k known skip_records clock es')
            (\<lambda>rs. Inr (resp\<lparr>r_recv_ts := Some (clock i)\<rparr> # rs)))"

text \<open>\<open>ordered_responses\<close>: each response at the index of its query, \<open>None\<close> where none came.\<close>

definition order_responses :: "(int, nat) dict \<Rightarrow> nat \<Rightarrow> response list \<Rightarrow> response option list" where
  "order_responses idx k responses =
     foldl (\<lambda>ordered resp. case map_of idx (r_req_id resp) of
        Some i \<Rightarrow> ordered[i := Some resp] | None \<Rightarrow> ordered) (replicate k None) responses"

definition batch_attempt ::
  "(nat \<Rightarrow> query_env) \<Rightarrow> query_request list \<Rightarrow> bool \<Rightarrow> int list option \<Rightarrow> nat \<Rightarrow> node \<Rightarrow> query_state \<Rightarrow>
     (node \<times> response option list \<times> rat \<times> rat) res \<times> query_state" where
  "batch_attempt envs queries skip_records req_ids i n st =
     (let env = envs i in
      case get_socket (qv_sock env) n True (qs_net st) of
        (Inl e, net) \<Rightarrow> (Inl e, st\<lparr>qs_net := net\<rparr>)
      | (Inr sock, net) \<Rightarrow>
          (case batch_payload req_ids 0 queries (qs_counter st) of (built, cnt) \<Rightarrow>
            let st = st\<lparr>qs_counter := cnt\<rparr> in
            case bind_res built (\<lambda>(ids, payload).
                   case qv_sendall env of
                     Some e \<Rightarrow> Inl e
                   | None \<Rightarrow>
                       let req_id_to_idx = req_index ids in
                       bind_res (read_replies 0 (length queries) (\<lambda>r. map_of req_id_to_idx r \<noteq> None)
                                   skip_records (qv_recv_ts env) (qv_events env))
                         (\<lambda>responses. Inr (order_responses req_id_to_idx (length queries) responses))) of
              Inl e \<Rightarrow> (Inl e, st\<lparr>qs_net := close_sock sock net\<rparr>)
            | Inr ordered_responses \<Rightarrow>
                (Inr (n, ordered_responses, qv_start env, qv_end env),
                 st\<lparr>qs_net := return_socket n sock True net\<rparr>)))"

definition query_batch_single_node ::
  "clusters \<Rightarrow> registry \<Rightarrow> (nat \<Rightarrow> query_env) \<Rightarrow> node \<Rightarrow> query_request list \<Rightarrow> bool \<Rightarrow> int list option \<Rightarrow>
     query_state \<Rightarrow> (node \<times> response option list \<times> rat \<times> rat) res \<times> query_state" where
  "query_batch_single_node cs reg envs node queries skip_records req_ids st =
     try_nodes (batch_attempt envs queries skip_records req_ids) 0
       (preferred_nodes node (dict_get_default cs (cluster_name node) [])
          (get_leader reg (cluster_name node))) st"

section \<open>Node order\<close>

lemma preferred_nodes_mset: "mset (preferred_nodes node nodes leader) = mset nodes"
proof -
  have "mset (filter (\<lambda>n. Some n \<noteq> leader) nodes @ filter (\<lambda>n. Some n = leader) nodes) = mset nodes"
    by (induction nodes) auto
  then show ?thesis by (auto simp: preferred_nodes_def Let_def)
qed

lemma preferred_nodes_first:
  "node \<in> set nodes \<Longrightarrow> \<exists>ns. preferred_nodes node nodes leader = node # ns"
  by (simp add: preferred_nodes_def Let_def)

lemma preferred_nodes_leader_last:
  assumes "leader = Some l" and "l \<in> set nodes" and "l \<noteq> node"
  shows "\<exists>ns. preferred_nodes node nodes leader = ns @ [l]"
proof -
  have "filter (\<lambda>n. Some n = leader) nodes \<noteq> []" using assms(1,2) by (auto simp: filter_empty_conv)
  moreover have "\<forall>x \<in> set (filter (\<lambda>n. Some n = leader) nodes). x = l" using assms(1) by simp
  ultimately obtain ls where l: "filter (\<lambda>n. Some n = leader) nodes = ls @ [l]"
    by (metis append_butlast_last_id last_in_set)
  let ?all = "filter (\<lambda>n. Some n \<noteq> leader) nodes @ ls @ [l]"
  have "\<exists>ns. (if node \<in> set ?all then node # remove1 node ?all else ?all) = ns @ [l]"
  proof (cases "node \<in> set ?all")
    case True
    have "remove1 node (xs @ [l]) = remove1 node xs @ [l]" for xs
      using assms(3) by (simp add: remove1_append remove1_idem)
    then have "remove1 node ?all = remove1 node (filter (\<lambda>n. Some n \<noteq> leader) nodes @ ls) @ [l]"
      by (metis append.assoc)
    then show ?thesis using True by (metis append_Cons)
  next
    case False
    then show ?thesis by (metis append.assoc)
  qed
  then show ?thesis by (simp only: preferred_nodes_def Let_def l)
qed

text \<open>The loop succeeds with the first node that does, and raises only when every node failed.\<close>

lemma try_nodes_spec:
  "try_nodes attempt i ns st = (r, st') \<Longrightarrow>
   (case r of
      Inr x \<Rightarrow> \<exists>pre n post stn. ns = pre @ n # post \<and> attempt (i + length pre) n stn = (Inr x, st')
    | Inl e \<Rightarrow> e = RuntimeError)"
proof (induction attempt i ns st arbitrary: r st' rule: try_nodes.induct)
  case (1 attempt i st)
  then show ?case by auto
next
  case (2 attempt i n ns st)
  obtain a st1 where a: "attempt i n st = (a, st1)" by force
  show ?case
  proof (cases a)
    case (Inr x)
    then have "r = Inr x \<and> st' = st1" using "2.prems" a by simp
    then show ?thesis using Inr a
      by (auto intro!: exI [of _ "[]"])
  next
    case (Inl e)
    then have "try_nodes attempt (Suc i) ns st1 = (r, st')" using "2.prems" a by simp
    from "2.IH" [OF a [symmetric] Inl this] show ?thesis
    proof (cases r)
      case (Inr x)
      with \<open>case r of Inl e \<Rightarrow> e = RuntimeError | Inr x \<Rightarrow> \<exists>pre n post stn. ns = pre @ n # post \<and>
          attempt (Suc i + length pre) n stn = (Inr x, st')\<close>
      obtain pre m post stn where "ns = pre @ m # post" "attempt (Suc i + length pre) m stn = (Inr x, st')"
        by auto
      then show ?thesis using Inr by (auto intro!: exI [of _ "n # pre"])
    qed simp
  qed
qed

end
