(* ===== verification/Query_Props.thy ===== *)
theory Query_Props
  imports Query_Node
begin

text \<open>
  Facts about the query functions: what a well-formed answer reads back as, in whatever pieces it
  arrives; the mock server as the peer; the order of pipelined answers; the sockets.
\<close>

section \<open>A well-formed answer reads back\<close>

lemma read_reply_encoded:
  assumes "header_ok h" and "encode_header h = Inr hb"
    and "h_total_size h = int QUERY_RESP_HEADER_SIZE + int (length body)"
    and "h_min_key h = key_bytes mn mts" "is_u64 mn" "is_u64 mts"
    and "h_max_key h = key_bytes mx xts" "is_u64 mx" "is_u64 xts"
    and "expected (h_req_id h)" and "stream_bytes es = hb @ body @ rest"
  shows "\<exists>es'. read_reply expected skip_records es =
      (parse_response (h_req_id h) (h_limit h) mn mts mx xts (h_records_bytes h) (h_records_count h)
         body skip_records, es') \<and> stream_bytes es' = rest"
proof -
  have len: "length hb = QUERY_RESP_HEADER_SIZE" by (rule encode_header_length [OF assms(2)])
  obtain es1 where h: "recv_exact QUERY_RESP_HEADER_SIZE [] es = (Inr hb, es1)" "stream_bytes es1 = body @ rest"
    using recv_exact_enough [of "[]" QUERY_RESP_HEADER_SIZE es] assms(11) len by auto
  have d: "decode_header hb = Inr h" by (rule decode_encode_header [OF assms(1,2)])
  have keys: "unpack_key (h_min_key h) = Inr (mn, mts)" "unpack_key (h_max_key h) = Inr (mx, xts)"
    using assms by (simp_all add: codec_simps)
  show ?thesis
  proof (cases "body = []")
    case True
    then show ?thesis using h d keys assms(3,10) by (simp add: read_reply_def)
  next
    case False
    have "\<exists>es2. recv_exact (length body) [] es1 = (Inr body, es2) \<and> stream_bytes es2 = rest"
      using recv_exact_enough [of "[]" "length body" es1] h(2) by auto
    then show ?thesis using h d keys assms(3,10) False by (auto simp: read_reply_def)
  qed
qed

section \<open>The mock server as a peer\<close>

text \<open>What a client should read from the mock server for a query.\<close>

definition mock_keys :: "int \<Rightarrow> int \<Rightarrow> int list" where
  "mock_keys lo hi = map (\<lambda>i. lo + int i) [0..<nat (min 10 (max 0 (hi - lo + 1)))]"

definition mock_last :: "int \<Rightarrow> int \<Rightarrow> int" where
  "mock_last lo hi = (if mock_keys lo hi = [] then lo else last (mock_keys lo hi))"

definition mock_rec :: "int \<Rightarrow> db_record" where
  "mock_rec k = \<lparr>key_id = k, timestamp = 0, content = CInt (k * 10)\<rparr>"

definition mock_answer :: "int \<Rightarrow> query_request \<Rightarrow> bool \<Rightarrow> response" where
  "mock_answer req_id q skip_records =
     (let keys = mock_keys (min_id q) (max_id q); top = mock_last (min_id q) (max_id q) in
      \<lparr>r_req_id = req_id, r_limit_reached = (top < max_id q), r_min_id = min_id q, r_min_ts = 0,
       r_max_id = top, r_max_ts = 0, r_records_bytes = 29 * int (length keys),
       r_records_count = int (length keys),
       r_records = (if skip_records then [] else map mock_rec keys), r_recv_ts = None\<rparr>)"

lemma mock_keys_length: "int (length (mock_keys lo hi)) = min 10 (max 0 (hi - lo + 1))"
  by (simp add: mock_keys_def)

lemma mock_keys_bounds: "k \<in> set (mock_keys lo hi) \<Longrightarrow> lo \<le> k \<and> k \<le> hi"
  by (auto simp: mock_keys_def min_def max_def split: if_splits)

definition mock_wire :: "int \<Rightarrow> wire_record" where
  "mock_wire k = \<lparr>w_key = k, w_ts = 0, w_type = 1, w_raw = le_bytes 8 (k * 10)\<rparr>"

lemma mock_record_wire:
  "is_u64 k \<Longrightarrow> is_u64 (k * 10) \<Longrightarrow> mock_record k = Inr (wire_bytes (mock_wire k))"
  by (simp add: mock_record_def wire_bytes_def mock_wire_def key_bytes_def LSMT_TYPE_INT_def codec_simps
      is_u64_def [of 0] del: pack_field.simps le_bytes.simps)

lemma mock_wire_ok: "is_u64 k \<Longrightarrow> wire_ok (mock_wire k)"
  by (simp add: wire_ok_def mock_wire_def is_u64_def)

lemma decode_mock_wire: "is_u64 (k * 10) \<Longrightarrow> decode_wire (mock_wire k) = mock_rec k"
  by (simp add: decode_wire_def mock_wire_def mock_rec_def content_value_def LSMT_TYPE_INT_def
      le_int_le_bytes is_u64_def del: le_bytes.simps)

lemma length_mock_wire: "length (wire_bytes (mock_wire k)) = 29"
  by (simp add: wire_bytes_def mock_wire_def)

lemma length_mock_body: "length (concat (map (\<lambda>k. wire_bytes (mock_wire k)) ks)) = 29 * length ks"
  by (induction ks) (simp_all add: length_mock_wire)

text \<open>Parsing the concatenated records of a body that holds exactly the announced number.\<close>

lemma parse_wire_body:
  assumes "\<forall>w \<in> set ws. wire_ok w"
  shows "parse_records (length ws) (concat (map wire_bytes ws)) 0 = Inr (map decode_wire ws)"
  using resp_frames.frames_from_enc [OF assms, of "[]" "[]"] by (simp add: parse_records_frames)

definition queries_fit :: "query_request \<Rightarrow> bool" where
  "queries_fit q \<longleftrightarrow> query_u64 q \<and> max_id q * 10 < 2 ^ 64"

definition mock_header :: "int \<Rightarrow> query_request \<Rightarrow> resp_header" where
  "mock_header req_id q =
     (let keys = mock_keys (min_id q) (max_id q); top = mock_last (min_id q) (max_id q) in
      \<lparr>h_total_size = 61 + 29 * int (length keys), h_req_id = req_id,
       h_limit = (if top < max_id q then 1 else 0), h_min_key = key_bytes (min_id q) 0,
       h_max_key = key_bytes top 0, h_records_bytes = 29 * int (length keys),
       h_records_count = int (length keys)\<rparr>)"

definition mock_body :: "query_request \<Rightarrow> byte list" where
  "mock_body q = concat (map (\<lambda>k. wire_bytes (mock_wire k)) (mock_keys (min_id q) (max_id q)))"

lemma mock_last_u64: "query_u64 q \<Longrightarrow> is_u64 (mock_last (min_id q) (max_id q))"
  using mock_keys_bounds [of "last (mock_keys (min_id q) (max_id q))" "min_id q" "max_id q"]
  by (auto simp: mock_last_def query_u64_def is_u64_def)

lemma mock_header_ok: "query_u64 q \<Longrightarrow> is_u64 req_id \<Longrightarrow> header_ok (mock_header req_id q)"
proof -
  assume "is_u64 req_id"
  moreover have "int (length (mock_keys (min_id q) (max_id q))) \<le> 10" by (simp add: mock_keys_length)
  ultimately show ?thesis by (simp add: header_ok_def mock_header_def Let_def is_u64_def is_u32_def)
qed

lemma encode_query_bytes:
  "encode_query req_id q = Inr bs \<Longrightarrow> is_u64 req_id \<and> query_u64 q \<and>
     bs = le_bytes 8 req_id @ key_bytes (min_id q) (min_ts q) @ key_bytes (max_id q) (max_ts q)"
  by (simp add: encode_query_eq split: if_splits)

lemma length_encode_query: "encode_query req_id q = Inr bs \<Longrightarrow> length bs = QUERY_REQ_SIZE"
  by (drule encode_query_bytes) (simp add: QUERY_REQ_SIZE_def)

text \<open>The server unpacks what the client packed.\<close>

lemma unpack_query:
  assumes "encode_query req_id q = Inr bs"
  shows "struct_unpack QUERY_REQ_FMT bs = Inr [SInt req_id,
    SBytes (key_bytes (min_id q) (min_ts q)), SBytes (key_bytes (max_id q) (max_ts q))]"
  using encode_query_bytes [OF assms]
  by (auto simp: struct_unpack_def QUERY_REQ_FMT_def le_int_le_bytes is_u64_def simp del: le_bytes.simps)

lemma mock_respond_query:
  assumes "encode_query req_id q = Inr bs" and "queries_fit q"
  shows "\<exists>hb. encode_header (mock_header req_id q) = Inr hb \<and> mock_respond bs = Inr (hb @ mock_body q)"
proof -
  let ?keys = "mock_keys (min_id q) (max_id q)"
  have u: "is_u64 req_id" "query_u64 q" using encode_query_bytes [OF assms(1)] by blast+
  then have q: "is_u64 (min_id q)" "is_u64 (min_ts q)" "is_u64 (max_id q)" "is_u64 (max_ts q)"
    by (simp_all add: query_u64_def)
  have "is_u64 k \<and> is_u64 (k * 10)" if "k \<in> set ?keys" for k
    using mock_keys_bounds [OF that] q(1,3) assms(2) by (auto simp: is_u64_def queries_fit_def)
  then have bodies: "map_res mock_record ?keys = Inr (map (\<lambda>k. wire_bytes (mock_wire k)) ?keys)"
    using mock_record_wire by (intro map_res_total) blast
  obtain hb where hb: "encode_header (mock_header req_id q) = Inr hb"
    using encode_header_total [OF mock_header_ok [OF u(2,1)]] by blast
  have top: "is_u64 (mock_last (min_id q) (max_id q))" by (rule mock_last_u64 [OF u(2)])
  have zero: "is_u64 0" by (simp add: is_u64_def)
  have "mock_respond bs = bind_res (encode_header
      \<lparr>h_total_size = int QUERY_RESP_HEADER_SIZE + int (length (mock_body q)), h_req_id = req_id,
       h_limit = (if mock_last (min_id q) (max_id q) < max_id q then 1 else 0),
       h_min_key = key_bytes (min_id q) 0, h_max_key = key_bytes (mock_last (min_id q) (max_id q)) 0,
       h_records_bytes = int (length (mock_body q)),
       h_records_count = min 10 (max 0 (max_id q - min_id q + 1))\<rparr>) (\<lambda>hd. Inr (hd @ mock_body q))"
    using q top zero bodies
    unfolding mock_respond_def Let_def mock_keys_def [symmetric] mock_last_def [symmetric]
    by (simp add: unpack_query [OF assms(1)] unpack_key_bytes pack_key_eq mock_body_def [symmetric])
  also have "\<dots> = Inr (hb @ mock_body q)"
    using hb by (simp add: mock_header_def Let_def QUERY_RESP_HEADER_SIZE_def mock_body_def
        length_mock_body mock_keys_length [symmetric])
  finally show ?thesis using hb by blast
qed

lemma parse_mock_body:
  assumes "queries_fit q"
  shows "parse_response req_id (if mock_last (min_id q) (max_id q) < max_id q then 1 else 0) (min_id q) 0
      (mock_last (min_id q) (max_id q)) 0 (29 * int (length (mock_keys (min_id q) (max_id q))))
      (int (length (mock_keys (min_id q) (max_id q)))) (mock_body q) skip_records =
    Inr (mock_answer req_id q skip_records)"
proof -
  let ?keys = "mock_keys (min_id q) (max_id q)"
  have u: "is_u64 k \<and> is_u64 (k * 10)" if "k \<in> set ?keys" for k
    using mock_keys_bounds [OF that] assms by (auto simp: is_u64_def queries_fit_def query_u64_def)
  have "parse_records (length ?keys) (mock_body q) 0 = Inr (map mock_rec ?keys)"
    using parse_wire_body [of "map mock_wire ?keys"] u mock_wire_ok decode_mock_wire
    by (simp add: mock_body_def o_def)
  moreover have "mock_body q = [] \<longleftrightarrow> ?keys = []"
    using length_mock_body [of ?keys] by (metis length_0_conv mock_body_def mult_is_0 zero_neq_numeral)
  ultimately show ?thesis by (simp add: parse_response_def mock_answer_def Let_def)
qed

lemma read_mock_reply:
  assumes "encode_query req_id q = Inr bs" and "queries_fit q" and "expected req_id"
    and "mock_respond bs = Inr ans" and "stream_bytes es = ans @ rest"
  shows "\<exists>es'. read_reply expected skip_records es = (Inr (mock_answer req_id q skip_records), es') \<and>
    stream_bytes es' = rest"
proof -
  have u: "is_u64 req_id" "query_u64 q" using encode_query_bytes [OF assms(1)] by blast+
  obtain hb where hb: "encode_header (mock_header req_id q) = Inr hb" "ans = hb @ mock_body q"
    using mock_respond_query [OF assms(1,2)] assms(4) by auto
  have size: "h_total_size (mock_header req_id q) = int QUERY_RESP_HEADER_SIZE + int (length (mock_body q))"
    by (simp add: mock_header_def Let_def QUERY_RESP_HEADER_SIZE_def mock_body_def length_mock_body)
  have keys: "h_min_key (mock_header req_id q) = key_bytes (min_id q) 0"
    "h_max_key (mock_header req_id q) = key_bytes (mock_last (min_id q) (max_id q)) 0"
    by (simp_all add: mock_header_def Let_def)
  have "is_u64 (min_id q)" "is_u64 0" using u(2) by (simp_all add: query_u64_def is_u64_def)
  from read_reply_encoded [OF mock_header_ok [OF u(2,1)] hb(1) size keys(1) this keys(2)
      mock_last_u64 [OF u(2)] this(2), of expected es rest skip_records]
  show ?thesis using assms(3,5) hb(2) parse_mock_body [OF assms(2)]
    by (simp add: mock_header_def Let_def)
qed

section \<open>Putting pipelined answers in order\<close>

lemma req_index_snoc: "req_index (ids @ [x]) = AList.update x (length ids) (req_index ids)"
  by (simp add: req_index_def)

lemma req_index_None: "map_of (req_index ids) r = None \<longleftrightarrow> r \<notin> set ids"
proof (induction ids rule: rev_induct)
  case Nil
  then show ?case by (simp add: req_index_def)
next
  case (snoc x ids)
  then show ?case by (simp add: req_index_snoc update_conv)
qed

lemma req_index_Some:
  "distinct ids \<Longrightarrow> map_of (req_index ids) r = Some i \<longleftrightarrow> i < length ids \<and> ids ! i = r"
proof (induction ids rule: rev_induct)
  case Nil
  then show ?case by (simp add: req_index_def)
next
  case (snoc x ids)
  then show ?case by (auto simp: req_index_snoc update_conv nth_append less_Suc_eq)
qed

lemma order_responses_snoc:
  "order_responses idx k (rs @ [x]) = (case map_of idx (r_req_id x) of
     Some i \<Rightarrow> (order_responses idx k rs)[i := Some x] | None \<Rightarrow> order_responses idx k rs)"
  by (simp add: order_responses_def split: option.split)

lemma order_responses_find:
  assumes "distinct ids"
  shows "order_responses (req_index ids) (length ids) rs =
    map (\<lambda>i. find (\<lambda>r. r_req_id r = i) (rev rs)) ids"
proof (induction rs rule: rev_induct)
  case Nil
  then show ?case by (simp add: order_responses_def map_replicate_const)
next
  case (snoc x rs)
  show ?case
  proof (cases "map_of (req_index ids) (r_req_id x)")
    case None
    then have "r_req_id x \<notin> set ids" by (simp add: req_index_None)
    then show ?thesis using snoc None by (auto simp: order_responses_snoc)
  next
    case (Some i)
    then have i: "i < length ids" "ids ! i = r_req_id x" using req_index_Some [OF assms] by auto
    have "(map (\<lambda>i. find (\<lambda>r. r_req_id r = i) (rev rs)) ids)[i := Some x] =
        map (\<lambda>i. find (\<lambda>r. r_req_id r = i) (rev (rs @ [x]))) ids"
      using i assms by (intro nth_equalityI) (auto simp: nth_list_update nth_eq_iff_index_eq)
    then show ?thesis using snoc Some by (simp add: order_responses_snoc)
  qed
qed

lemma find_permuted:
  "distinct (map f ys) \<Longrightarrow> y \<in> set ys \<Longrightarrow> find (\<lambda>x. f x = f y) ys = Some y"
  by (induction ys) (auto dest: rev_image_eqI [of y _ _ f])

text \<open>Answers that are a permutation of one answer per query come back in query order.\<close>

lemma order_responses_permuted:
  assumes "distinct ids" and "map r_req_id ordered = ids" and "mset rs = mset ordered"
  shows "order_responses (req_index ids) (length ids) rs = map Some ordered"
proof -
  have perm: "mset (rev rs) = mset ordered" using assms(3) by simp
  have "mset (map r_req_id (rev rs)) = mset ids" using perm assms(2) by (metis mset_map)
  then have d: "distinct (map r_req_id (rev rs))" using assms(1) mset_eq_imp_distinct_iff by blast
  have "find (\<lambda>r. r_req_id r = r_req_id y) (rev rs) = Some y" if "y \<in> set ordered" for y
    using find_permuted [OF d, of y] that mset_eq_setD [OF perm] by simp
  then have "map (\<lambda>i. find (\<lambda>r. r_req_id r = i) (rev rs)) ids = map Some ordered"
    by (simp flip: assms(2))
  then show ?thesis by (simp only: order_responses_find [OF assms(1)])
qed

section \<open>A pipeline of queries\<close>

lemma batch_payload_ids:
  "\<forall>(r, q) \<in> set (zip (drop i ids) qs). \<exists>bs. encode_query r q = Inr bs \<Longrightarrow> length ids = i + length qs \<Longrightarrow>
   \<exists>bss. map_res (\<lambda>(r, q). encode_query r q) (zip (drop i ids) qs) = Inr bss \<and>
     batch_payload (Some ids) i qs cnt = (Inr (drop i ids, concat bss), cnt)"
proof (induction qs arbitrary: i)
  case Nil
  then show ?case by simp
next
  case (Cons q qs)
  then have i: "i < length ids" "drop i ids = ids ! i # drop (Suc i) ids"
    by (simp_all add: Cons_nth_drop_Suc)
  obtain bs where bs: "encode_query (ids ! i) q = Inr bs" using Cons.prems(1) i(2) by auto
  obtain bss where "map_res (\<lambda>(r, q). encode_query r q) (zip (drop (Suc i) ids) qs) = Inr bss"
    "batch_payload (Some ids) (Suc i) qs cnt = (Inr (drop (Suc i) ids, concat bss), cnt)"
    using Cons.IH [of "Suc i"] Cons.prems i(2) by auto
  then show ?case using bs i by (simp add: next_req_id_def py_index_in_range)
qed

text \<open>The mock server answers a pipeline in order.\<close>

lemma serve_reads_cons:
  assumes "length bs = QUERY_REQ_SIZE" and "mock_respond bs = Inr ans"
  shows "serve_reads (bs @ rest) = ans @ serve_reads rest"
  using assms by (subst serve_reads.simps) simp

lemma read_replies_mock:
  assumes "map_res (\<lambda>(r, q). encode_query r q) (zip ids qs) = Inr bss" and "length ids = length qs"
    and "\<forall>q \<in> set qs. queries_fit q" and "\<forall>r \<in> set ids. known r"
    and "stream_bytes es = serve_reads (concat bss) @ rest"
  shows "read_replies i (length qs) known skip_records clock es =
    Inr (map (\<lambda>(j, r, q). (mock_answer r q skip_records)\<lparr>r_recv_ts := Some (clock j)\<rparr>)
      (zip [i..<i + length qs] (zip ids qs)))"
  using assms
proof (induction qs arbitrary: ids bss es i)
  case Nil
  then show ?case by simp
next
  case (Cons q qs)
  obtain r ids' where ids: "ids = r # ids'" using Cons.prems(2) by (cases ids) auto
  obtain bs bss' where b: "encode_query r q = Inr bs" "map_res (\<lambda>(r, q). encode_query r q) (zip ids' qs) = Inr bss'"
    "bss = bs # bss'" using Cons.prems(1) ids by (auto simp: res_simps)
  have fit: "queries_fit q" and known: "known r" using Cons.prems(3,4) ids by simp_all
  obtain ans where ans: "mock_respond bs = Inr ans" using mock_respond_query [OF b(1) fit] by blast
  have "stream_bytes es = ans @ serve_reads (concat bss') @ rest"
    using Cons.prems(5) serve_reads_cons [OF length_encode_query [OF b(1)] ans] b(3) by simp
  from read_mock_reply [where expected = known, OF b(1) fit known ans this] obtain es' where
    es': "read_reply known skip_records es = (Inr (mock_answer r q skip_records), es')"
    "stream_bytes es' = serve_reads (concat bss') @ rest" by blast
  have "read_replies (Suc i) (length qs) known skip_records clock es' =
      Inr (map (\<lambda>(j, r, q). (mock_answer r q skip_records)\<lparr>r_recv_ts := Some (clock j)\<rparr>)
        (zip [Suc i..<Suc i + length qs] (zip ids' qs)))"
    using Cons.prems(2,3,4) ids b(2) es'(2) by (intro Cons.IH) simp_all
  moreover have "[i..<i + length (q # qs)] = i # [Suc i..<Suc i + length qs]"
    by (simp add: upt_conv_Cons del: upt_Suc)
  ultimately show ?case using es'(1) ids by (simp del: upt_Suc)
qed

section \<open>Sockets of the queries\<close>

definition query_state_ok :: "query_state \<Rightarrow> query_state \<Rightarrow> bool" where
  "query_state_ok st st' \<longleftrightarrow> net_ok (qs_net st') \<and> (\<forall>u. held (qs_net st) u \<longrightarrow> held (qs_net st') u)"

lemma socket_given_back:
  assumes "net_ok net" and "get_socket env n q net = (Inr sock, net')"
  shows "net_ok (close_sock sock net') \<and> (\<forall>u. held net u \<longrightarrow> held (close_sock sock net') u)"
    and "net_ok (return_socket n sock q net') \<and> (\<forall>u. held net u \<longrightarrow> held (return_socket n sock q net') u)"
proof -
  note g = get_socket_ok [OF assms]
  have h: "net_ok net'" "held net' sock" "sk_addr sock = node_addr n q" using g by auto
  have others: "held net' u \<and> sk_id u \<noteq> sk_id sock" if "held net u" for u using g(3) [OF that, of sock] by auto
  show "net_ok (close_sock sock net') \<and> (\<forall>u. held net u \<longrightarrow> held (close_sock sock net') u)"
    using close_sock_ok [OF h(1,2)] others by blast
  show "net_ok (return_socket n sock q net') \<and> (\<forall>u. held net u \<longrightarrow> held (return_socket n sock q net') u)"
    using return_socket_ok [OF h] others by blast
qed

lemma single_attempt_net:
  assumes "net_ok (qs_net st)" and "single_attempt envs q skip_records req_id i n st = (r, st')"
  shows "query_state_ok st st'"
proof -
  obtain s net where g: "get_socket (qv_sock (envs i)) n True (qs_net st) = (s, net)" by force
  show ?thesis
  proof (cases s)
    case (Inl e)
    then show ?thesis using assms g get_socket_ok(1,3) [OF assms(1) g]
      by (auto simp: single_attempt_def Let_def query_state_ok_def split: sum.splits option.splits)
  next
    case (Inr sock)
    note give = socket_given_back [OF assms(1) g [unfolded Inr]]
    then show ?thesis using assms g Inr
      by (auto simp: single_attempt_def Let_def query_state_ok_def split: sum.splits option.splits)
  qed
qed

lemma batch_attempt_net:
  assumes "net_ok (qs_net st)" and "batch_attempt envs qs skip_records req_ids i n st = (r, st')"
  shows "query_state_ok st st'"
proof -
  obtain s net where g: "get_socket (qv_sock (envs i)) n True (qs_net st) = (s, net)" by force
  obtain built cnt where p: "batch_payload req_ids 0 qs (qs_counter st) = (built, cnt)" by force
  show ?thesis
  proof (cases s)
    case (Inl e)
    then show ?thesis using assms g get_socket_ok(1,3) [OF assms(1) g]
      by (auto simp: batch_attempt_def Let_def query_state_ok_def)
  next
    case (Inr sock)
    note give = socket_given_back [OF assms(1) g [unfolded Inr]]
    then show ?thesis using assms(2) g p Inr
      by (auto simp: batch_attempt_def Let_def query_state_ok_def split: sum.splits)
  qed
qed

lemma try_nodes_net:
  assumes "\<And>i n st r st'. net_ok (qs_net st) \<Longrightarrow> attempt i n st = (r, st') \<Longrightarrow> query_state_ok st st'"
  shows "net_ok (qs_net st) \<Longrightarrow> try_nodes attempt i ns st = (r, st') \<Longrightarrow> query_state_ok st st'"
proof (induction ns arbitrary: i st)
  case Nil
  then show ?case by (auto simp: query_state_ok_def)
next
  case (Cons n ns)
  obtain a st1 where a: "attempt i n st = (a, st1)" by force
  have one: "query_state_ok st st1" by (rule assms [OF Cons.prems(1) a])
  show ?case
  proof (cases a)
    case (Inr x)
    then show ?thesis using Cons.prems(2) a one by simp
  next
    case (Inl e)
    then have "try_nodes attempt (Suc i) ns st1 = (r, st')" using Cons.prems(2) a by simp
    then have "query_state_ok st1 st'" using one by (intro Cons.IH) (simp_all add: query_state_ok_def)
    then show ?thesis using one by (simp add: query_state_ok_def)
  qed
qed

text \<open>A first attempt that succeeds is the result.\<close>

lemma try_nodes_first:
  "attempt i n st = (Inr x, st') \<Longrightarrow> try_nodes attempt i (n # ns) st = (Inr x, st')"
  by simp

section \<open>Attempts against the mock server\<close>

text \<open>\<open>_parse_response\<close> raises nothing: a body cut short ends the loop.\<close>

lemma parse_response_total: "\<exists>r. parse_response i l a b c d rb rc body skip_records = Inr r"
  by (simp add: parse_response_def parse_records_frames Let_def)

text \<open>An environment in which a mock server answers what it is sent, and one in which a node cannot be
  reached or written to.\<close>

definition mock_behind :: "query_env \<Rightarrow> byte list \<Rightarrow> bool" where
  "mock_behind env bs \<longleftrightarrow> (\<forall>a. se_connect (qv_sock env) a = None) \<and> qv_sendall env = None \<and>
     stream_bytes (qv_events env) = serve_reads bs"

definition node_down :: "query_env \<Rightarrow> bool" where
  "node_down env \<longleftrightarrow> qv_sendall env \<noteq> None \<or>
     ((\<forall>a. se_connect (qv_sock env) a \<noteq> None) \<and> (\<forall>s. se_readable (qv_sock env) s))"

lemma socket_obtained:
  assumes "net_ok net" and "\<forall>a. se_connect env a = None"
  shows "\<exists>sock net'. get_socket env n q net = (Inr sock, net')"
proof -
  obtain r net' where g: "get_socket env n q net = (r, net')" by force
  then show ?thesis using get_socket_pooled(3,4) [OF assms(1) g] assms(2)
    by (cases "find (silent env) (pool_of net (n, q))") auto
qed

lemma socket_refused:
  assumes "net_ok net" and "\<forall>a. se_connect env a \<noteq> None" and "\<forall>s. se_readable env s"
  shows "\<exists>e net'. get_socket env n q net = (Inl e, net')"
proof -
  obtain r net' where g: "get_socket env n q net = (r, net')" by force
  have "find (silent env) (pool_of net (n, q)) = None" using assms(3) by (simp add: find_None_iff silent_def)
  moreover obtain e where "se_connect env (node_addr n q) = Some e" using assms(2) by blast
  ultimately show ?thesis using get_socket_pooled(4) [OF assms(1) g] g by simp
qed

lemma single_attempt_mock:
  assumes "net_ok (qs_net st)" and "encode_query req_id q = Inr bs" and "queries_fit q" and "mock_behind (envs i) bs"
  shows "\<exists>st'. single_attempt envs q skip_records (Some req_id) i n st =
    (Inr (n, mock_answer req_id q skip_records, qv_start (envs i), qv_end (envs i)), st')"
proof -
  have env: "\<forall>a. se_connect (qv_sock (envs i)) a = None" "qv_sendall (envs i) = None"
    "stream_bytes (qv_events (envs i)) = serve_reads bs" using assms(4) by (simp_all add: mock_behind_def)
  obtain sock net where g: "get_socket (qv_sock (envs i)) n True (qs_net st) = (Inr sock, net)"
    using socket_obtained [OF assms(1) env(1)] by blast
  obtain ans where ans: "mock_respond bs = Inr ans" using mock_respond_query [OF assms(2,3)] by blast
  have "serve_reads bs = ans @ serve_reads []"
    using serve_reads_cons [OF length_encode_query [OF assms(2)] ans, of "[]"] by simp
  then have "stream_bytes (qv_events (envs i)) = ans @ serve_reads []" using env(3) by simp
  from read_mock_reply [where expected = "\<lambda>r. r = req_id", OF assms(2,3) _ ans this, of skip_records]
  have "fst (read_reply (\<lambda>r. r = req_id) skip_records (qv_events (envs i))) =
      Inr (mock_answer req_id q skip_records)" by auto
  then show ?thesis using assms(2) env(2) g by (simp add: single_attempt_def Let_def)
qed

lemma single_attempt_down:
  assumes "net_ok (qs_net st)" and "node_down (envs i)"
  shows "\<exists>e st'. single_attempt envs q skip_records req_id i n st = (Inl e, st')"
proof (cases "qv_sendall (envs i)")
  case None
  then have "\<exists>e net'. get_socket (qv_sock (envs i)) n True (qs_net st) = (Inl e, net')"
    using assms by (intro socket_refused) (simp_all add: node_down_def)
  then show ?thesis by (auto simp: single_attempt_def Let_def split: sum.split option.split)
next
  case (Some e)
  then show ?thesis by (auto simp: single_attempt_def Let_def split: sum.split option.split prod.split)
qed

text \<open>The answers to a pipeline, in the order of its queries.\<close>

definition mock_pipeline :: "int list \<Rightarrow> query_request list \<Rightarrow> bool \<Rightarrow> (nat \<Rightarrow> rat) \<Rightarrow> response option list" where
  "mock_pipeline ids qs skip_records clock =
     map (\<lambda>(j, r, q). Some ((mock_answer r q skip_records)\<lparr>r_recv_ts := Some (clock j)\<rparr>)) (zip [0..<length qs] (zip ids qs))"

lemma batch_attempt_mock:
  assumes "net_ok (qs_net st)" and "distinct ids" and "length ids = length qs"
    and "map_res (\<lambda>(r, q). encode_query r q) (zip ids qs) = Inr bss" and "list_all queries_fit qs"
    and "mock_behind (envs i) (concat bss)"
  shows "\<exists>st'. batch_attempt envs qs skip_records (Some ids) i n st =
    (Inr (n, mock_pipeline ids qs skip_records (qv_recv_ts (envs i)), qv_start (envs i), qv_end (envs i)), st')"
proof -
  let ?answers = "map (\<lambda>(j, r, q). (mock_answer r q skip_records)\<lparr>r_recv_ts := Some (qv_recv_ts (envs i) j)\<rparr>)
    (zip [0..<length qs] (zip ids qs))"
  have env: "\<forall>a. se_connect (qv_sock (envs i)) a = None" "qv_sendall (envs i) = None"
    "stream_bytes (qv_events (envs i)) = serve_reads (concat bss)" using assms(6) by (simp_all add: mock_behind_def)
  obtain sock net where g: "get_socket (qv_sock (envs i)) n True (qs_net st) = (Inr sock, net)"
    using socket_obtained [OF assms(1) env(1)] by blast
  have "\<forall>(r, q) \<in> set (zip (drop 0 ids) qs). \<exists>bs. encode_query r q = Inr bs"
    using map_res_InrD [OF assms(4)] by fastforce
  then have p: "batch_payload (Some ids) 0 qs (qs_counter st) = (Inr (ids, concat bss), qs_counter st)"
    using batch_payload_ids [of 0 ids qs "qs_counter st"] assms(3,4) by simp
  have known: "\<forall>r \<in> set ids. map_of (req_index ids) r \<noteq> None" by (simp add: req_index_None)
  have "read_replies 0 (length qs) (\<lambda>r. map_of (req_index ids) r \<noteq> None) skip_records (qv_recv_ts (envs i))
      (qv_events (envs i)) = Inr ?answers"
    using read_replies_mock [OF assms(4,3) _ known, of "qv_events (envs i)" "[]" 0] assms(5) env(3)
    by (simp add: list_all_iff)
  moreover have "map r_req_id ?answers = ids"
    using assms(3) by (auto simp: mock_answer_def Let_def intro!: nth_equalityI)
  then have "order_responses (req_index ids) (length qs) ?answers = map Some ?answers"
    using order_responses_permuted [OF assms(2) _ refl, of ?answers] assms(3) by simp
  moreover have "map Some ?answers = mock_pipeline ids qs skip_records (qv_recv_ts (envs i))"
    by (auto simp: mock_pipeline_def)
  ultimately show ?thesis using p g env(2) by (simp add: batch_attempt_def Let_def)
qed

text \<open>Failover: the nodes before the \<open>k\<close>-th raise, the \<open>k\<close>-th answers.\<close>

lemma try_nodes_reaches:
  assumes "\<And>i n st r st'. net_ok (qs_net st) \<Longrightarrow> attempt i n st = (r, st') \<Longrightarrow> query_state_ok st st'"
    and "\<forall>i < k. \<forall>n st. net_ok (qs_net st) \<longrightarrow> (\<exists>e st'. attempt (j + i) n st = (Inl e, st'))"
    and "\<forall>st. net_ok (qs_net st) \<longrightarrow> (\<exists>st'. attempt (j + k) (ns ! k) st = (Inr x, st'))"
    and "k < length ns" and "net_ok (qs_net st)"
  shows "\<exists>st'. try_nodes attempt j ns st = (Inr x, st') \<and> query_state_ok st st'"
  using assms(2-5)
proof (induction k arbitrary: j ns st)
  case 0
  obtain n ns' where ns: "ns = n # ns'" using 0 by (cases ns) auto
  then obtain st' where "attempt j n st = (Inr x, st')" using 0 by auto
  then show ?case using ns assms(1) [OF 0(4)] by auto
next
  case (Suc k)
  obtain n ns' where ns: "ns = n # ns'" using Suc.prems(3) by (cases ns) auto
  obtain e st1 where a: "attempt j n st = (Inl e, st1)" using Suc.prems(1,4) by force
  have one: "query_state_ok st st1" by (rule assms(1) [OF Suc.prems(4) a])
  have "\<forall>i < k. \<forall>n st. net_ok (qs_net st) \<longrightarrow> (\<exists>e st'. attempt (Suc j + i) n st = (Inl e, st'))"
    using Suc.prems(1) by (metis Suc_less_eq add_Suc_shift)
  moreover have "\<forall>st. net_ok (qs_net st) \<longrightarrow> (\<exists>st'. attempt (Suc j + k) (ns' ! k) st = (Inr x, st'))"
    using Suc.prems(2) ns by simp
  ultimately have "\<exists>st'. try_nodes attempt (Suc j) ns' st1 = (Inr x, st') \<and> query_state_ok st1 st'"
    using Suc.prems(3) ns one by (intro Suc.IH) (simp_all add: query_state_ok_def)
  then show ?case using a ns one by (auto simp: query_state_ok_def)
qed

text \<open>A call to a cluster some of whose nodes are down, the first that is not answering as the mock server.\<close>

definition cluster_answers :: "clusters \<Rightarrow> (nat \<Rightarrow> query_env) \<Rightarrow> node \<Rightarrow> byte list \<Rightarrow> bool" where
  "cluster_answers cs envs node bs \<longleftrightarrow> (\<exists>k < length (dict_get_default cs (cluster_name node) []).
     (\<forall>i < k. node_down (envs i)) \<and> mock_behind (envs k) bs)"

lemma preferred_nodes_in:
  "set (preferred_nodes node nodes leader) = set nodes" "length (preferred_nodes node nodes leader) = length nodes"
  using preferred_nodes_mset [of node nodes leader] by (metis set_mset_mset, metis size_mset)

lemma query_single_node_mock:
  assumes "net_ok (qs_net st)" and "encode_query req_id q = Inr bs" and "queries_fit q"
    and "cluster_answers cs envs node bs"
  shows "\<exists>n s e st'. query_single_node cs reg envs node q skip_records (Some req_id) st =
      (Inr (n, mock_answer req_id q skip_records, s, e), st') \<and>
    n \<in> set (dict_get_default cs (cluster_name node) []) \<and> query_state_ok st st'"
proof -
  let ?ns = "preferred_nodes node (dict_get_default cs (cluster_name node) []) (get_leader reg (cluster_name node))"
  obtain k where k: "k < length ?ns" "\<forall>i < k. node_down (envs i)" "mock_behind (envs k) bs"
    using assms(4) by (auto simp: cluster_answers_def preferred_nodes_in)
  let ?x = "(?ns ! k, mock_answer req_id q skip_records, qv_start (envs k), qv_end (envs k))"
  have "\<exists>st'. try_nodes (single_attempt envs q skip_records (Some req_id)) 0 ?ns st = (Inr ?x, st') \<and> query_state_ok st st'"
    using k assms(1) single_attempt_mock [where envs = envs and i = k, OF _ assms(2,3) k(3)]
    by (intro try_nodes_reaches [of _ k] single_attempt_net) (auto intro: single_attempt_down)
  moreover have "?ns ! k \<in> set (dict_get_default cs (cluster_name node) [])"
    using nth_mem [OF k(1)] by (simp add: preferred_nodes_in)
  ultimately show ?thesis unfolding query_single_node_def by blast
qed

lemma query_batch_single_node_mock:
  assumes "net_ok (qs_net st)" and "node \<in> set (dict_get_default cs (cluster_name node) [])"
    and "distinct ids" and "length ids = length qs"
    and "map_res (\<lambda>(r, q). encode_query r q) (zip ids qs) = Inr bss" and "list_all queries_fit qs"
    and "mock_behind (envs 0) (concat bss)"
  shows "\<exists>st'. query_batch_single_node cs reg envs node qs skip_records (Some ids) st =
    (Inr (node, mock_pipeline ids qs skip_records (qv_recv_ts (envs 0)), qv_start (envs 0), qv_end (envs 0)), st') \<and>
    query_state_ok st st'"
proof -
  obtain ns where ns: "preferred_nodes node (dict_get_default cs (cluster_name node) [])
      (get_leader reg (cluster_name node)) = node # ns" using preferred_nodes_first [OF assms(2)] by blast
  obtain st' where st': "batch_attempt envs qs skip_records (Some ids) 0 node st =
      (Inr (node, mock_pipeline ids qs skip_records (qv_recv_ts (envs 0)), qv_start (envs 0), qv_end (envs 0)), st')"
    using batch_attempt_mock [where envs = envs and i = 0, OF assms(1,3-7)] by blast
  then show ?thesis using batch_attempt_net [OF assms(1) st'] ns by (simp add: query_batch_single_node_def)
qed

end
