(* ===== verification/Query_Theorems.thy ===== *)
theory Query_Theorems
  imports Query_Props
begin

text \<open>
  The properties of the query functions: what comes back from the mock server, the order in which
  the nodes of a cluster are tried, which answers are accepted, and how pipelined answers are put
  in order.
\<close>

section \<open>Against the mock server\<close>

text \<open>
  C17. A query sent to a node behind which the mock server runs returns, from that node and
  whatever pieces the answer arrives in, exactly the answer the server means: the first ten keys
  of the interval with ten times the key as content, the last key and whether it was cut short.
\<close>

theorem single_query_reads_mock_answer:
  assumes "net_ok (qs_net st)" and "\<And>a. se_connect (qv_sock (envs 0)) a = None"
    and "node \<in> set (dict_get_default cs (cluster_name node) [])"
    and "encode_query req_id q = Inr bs" and "queries_fit q" and "qv_sendall (envs 0) = None"
    and "stream_bytes (qv_events (envs 0)) = serve_reads bs"
  shows "\<exists>st'. query_single_node cs reg envs node q skip_records (Some req_id) st =
    (Inr (node, mock_answer req_id q skip_records, qv_start (envs 0), qv_end (envs 0)), st')"
proof -
  have "mock_behind (envs 0) bs" using assms(2,6,7) by (simp add: mock_behind_def)
  from single_attempt_mock [where envs = envs and i = 0, OF assms(1,4,5) this]
  have "\<exists>st'. single_attempt envs q skip_records (Some req_id) 0 node st =
      (Inr (node, mock_answer req_id q skip_records, qv_start (envs 0), qv_end (envs 0)), st')" .
  moreover obtain ns where "preferred_nodes node (dict_get_default cs (cluster_name node) [])
      (get_leader reg (cluster_name node)) = node # ns" using preferred_nodes_first [OF assms(3)] by blast
  ultimately show ?thesis unfolding query_single_node_def by (auto intro: try_nodes_first)
qed

definition demo_query :: query_request where
  "demo_query = \<lparr>min_id = 3, min_ts = 0, max_id = 20, max_ts = 7, query_id = 1\<rparr>"

definition demo_topology :: clusters where
  "demo_topology = [(''c'', [demo_pool_node])]"

definition query_env_of :: "recv_event list \<Rightarrow> query_env" where
  "query_env_of es = \<lparr>qv_sock = calm_env, qv_sendall = None, qv_events = es, qv_start = 5, qv_end = 6,
     qv_recv_ts = (\<lambda>i. 5)\<rparr>"

definition fresh_query_state :: query_state where
  "fresh_query_state = \<lparr>qs_net = empty_net, qs_counter = 1\<rparr>"

lemma demo_query_fits: "queries_fit demo_query"
  by (simp add: queries_fit_def demo_query_def query_u64_def is_u64_def)

lemma demo_query_encodes: "is_u64 r \<Longrightarrow> \<exists>bs. encode_query r demo_query = Inr bs"
  using demo_query_fits by (simp add: encode_query_eq queries_fit_def)

theorem single_query_reads_mock_answer_witness:
  "\<exists>es st'. query_single_node demo_topology empty_registry (\<lambda>i. query_env_of es) demo_pool_node demo_query
       False (Some 9) fresh_query_state = (Inr (demo_pool_node, mock_answer 9 demo_query False, 5, 6), st') \<and>
     r_records (mock_answer 9 demo_query False) = map mock_rec [3, 4, 5, 6, 7, 8, 9, 10, 11, 12]"
proof -
  obtain bs where bs: "encode_query 9 demo_query = Inr bs"
    using demo_query_encodes [of 9] by (auto simp: is_u64_def)
  obtain ans where ans: "mock_respond bs = Inr ans" using mock_respond_query [OF bs demo_query_fits] by blast
  have "\<exists>es. stream_bytes es = serve_reads bs"
    by (rule exI [of _ "[Chunk (serve_reads bs)]"]) simp
  then obtain es where es: "stream_bytes es = serve_reads bs" by blast
  have e: "\<And>a. se_connect (qv_sock ((\<lambda>i. query_env_of es) 0)) a = None"
    "qv_sendall ((\<lambda>i. query_env_of es) 0) = None" "stream_bytes (qv_events ((\<lambda>i. query_env_of es) 0)) = serve_reads bs"
    using es by (simp_all add: query_env_of_def calm_env_def)
  have n: "demo_pool_node \<in> set (dict_get_default demo_topology (cluster_name demo_pool_node) [])"
    by (simp add: demo_topology_def dict_get_default_def demo_pool_node_def)
  have ok: "net_ok (qs_net fresh_query_state)" by (simp add: fresh_query_state_def)
  from single_query_reads_mock_answer [where envs = "\<lambda>i. query_env_of es", OF ok e(1) n bs demo_query_fits e(2,3),
      of empty_registry False]
  have "\<exists>st'. query_single_node demo_topology empty_registry (\<lambda>i. query_env_of es) demo_pool_node demo_query
      False (Some 9) fresh_query_state = (Inr (demo_pool_node, mock_answer 9 demo_query False, 5, 6), st')"
    by (simp add: query_env_of_def)
  moreover have "r_records (mock_answer 9 demo_query False) = map mock_rec [3, 4, 5, 6, 7, 8, 9, 10, 11, 12]"
    by (simp add: mock_answer_def Let_def mock_keys_def demo_query_def upt_rec)
  ultimately show ?thesis by blast
qed

text \<open>
  C18. A pipeline of queries with distinct request ids, sent at once to a node behind which the mock
  server runs, returns one answer per query, in the order of the queries, each stamped with the
  time it was read.
\<close>

theorem pipeline_reads_mock_answers:
  assumes "net_ok (qs_net st)" and "\<And>a. se_connect (qv_sock (envs 0)) a = None"
    and "node \<in> set (dict_get_default cs (cluster_name node) [])"
    and "distinct ids" and "length ids = length qs"
    and "map_res (\<lambda>(r, q). encode_query r q) (zip ids qs) = Inr bss" and "list_all queries_fit qs"
    and "qv_sendall (envs 0) = None" and "stream_bytes (qv_events (envs 0)) = serve_reads (concat bss)"
  shows "\<exists>st'. query_batch_single_node cs reg envs node qs skip_records (Some ids) st =
    (Inr (node, map (\<lambda>(j, r, q). Some ((mock_answer r q skip_records)\<lparr>r_recv_ts := Some (qv_recv_ts (envs 0) j)\<rparr>))
        (zip [0..<length qs] (zip ids qs)), qv_start (envs 0), qv_end (envs 0)), st')"
proof -
  have "mock_behind (envs 0) (concat bss)" using assms(2,8,9) by (simp add: mock_behind_def)
  from batch_attempt_mock [where envs = envs and i = 0, OF assms(1,4-7) this]
  have "\<exists>st'. batch_attempt envs qs skip_records (Some ids) 0 node st =
      (Inr (node, mock_pipeline ids qs skip_records (qv_recv_ts (envs 0)), qv_start (envs 0), qv_end (envs 0)), st')" .
  moreover obtain ns where "preferred_nodes node (dict_get_default cs (cluster_name node) [])
      (get_leader reg (cluster_name node)) = node # ns" using preferred_nodes_first [OF assms(3)] by blast
  ultimately show ?thesis unfolding query_batch_single_node_def mock_pipeline_def by (auto intro: try_nodes_first)
qed

theorem pipeline_reads_mock_answers_witness:
  "\<exists>es st' a b. query_batch_single_node demo_topology empty_registry (\<lambda>i. query_env_of es) demo_pool_node
       [demo_query, demo_query\<lparr>max_id := 4\<rparr>] False (Some [8, 9]) fresh_query_state =
     (Inr (demo_pool_node, [Some a, Some b], 5, 6), st') \<and> r_req_id a = 8 \<and> r_req_id b = 9 \<and>
     r_records b = map mock_rec [3, 4]"
proof -
  let ?qs = "[demo_query, demo_query\<lparr>max_id := 4\<rparr>]"
  have fits: "list_all queries_fit ?qs"
    using demo_query_fits by (simp add: queries_fit_def query_u64_def demo_query_def is_u64_def)
  have "query_u64 (demo_query\<lparr>max_id := 4\<rparr>)" "query_u64 demo_query"
    using fits by (simp_all add: queries_fit_def)
  then obtain bss where bss: "map_res (\<lambda>(r, q). encode_query r q) (zip [8, 9] ?qs) = Inr bss"
    by (auto simp: encode_query_eq is_u64_def)
  have "\<exists>es. stream_bytes es = serve_reads (concat bss)"
    by (rule exI [of _ "[Chunk (serve_reads (concat bss))]"]) simp
  then obtain es where es: "stream_bytes es = serve_reads (concat bss)" by blast
  have e: "\<And>a. se_connect (qv_sock ((\<lambda>i. query_env_of es) 0)) a = None"
    "qv_sendall ((\<lambda>i. query_env_of es) 0) = None" "stream_bytes (qv_events ((\<lambda>i. query_env_of es) 0)) = serve_reads (concat bss)"
    using es by (simp_all add: query_env_of_def calm_env_def)
  have n: "demo_pool_node \<in> set (dict_get_default demo_topology (cluster_name demo_pool_node) [])"
    by (simp add: demo_topology_def dict_get_default_def demo_pool_node_def)
  have ok: "net_ok (qs_net fresh_query_state)" by (simp add: fresh_query_state_def)
  have d: "distinct [8, 9 :: int]" "length [8, 9 :: int] = length ?qs" by simp_all
  from pipeline_reads_mock_answers [where envs = "\<lambda>i. query_env_of es", OF ok e(1) n d bss fits e(2,3),
      of empty_registry False]
  have "\<exists>st' a b. query_batch_single_node demo_topology empty_registry (\<lambda>i. query_env_of es) demo_pool_node
      ?qs False (Some [8, 9]) fresh_query_state = (Inr (demo_pool_node, [Some a, Some b], 5, 6), st') \<and>
      a = (mock_answer 8 demo_query False)\<lparr>r_recv_ts := Some 5\<rparr> \<and>
      b = (mock_answer 9 (demo_query\<lparr>max_id := 4\<rparr>) False)\<lparr>r_recv_ts := Some 5\<rparr>"
    by (simp add: query_env_of_def upt_rec)
  moreover have "r_records (mock_answer 9 (demo_query\<lparr>max_id := 4\<rparr>) False) = map mock_rec [3, 4]"
    by (simp add: mock_answer_def Let_def mock_keys_def demo_query_def upt_rec)
  ultimately show ?thesis by (fastforce simp: mock_answer_def Let_def)
qed

section \<open>Order\<close>

text \<open>
  When the answers to a pipeline of queries with distinct ids arrive in any order, one for each
  query, the client files each under the query it answers.
\<close>

theorem pipelined_answers_are_reordered:
  assumes "distinct ids" and "map r_req_id ordered = ids" and "mset arrived = mset ordered"
  shows "order_responses (req_index ids) (length ids) arrived = map Some ordered"
  by (rule order_responses_permuted [OF assms])

theorem pipelined_answers_are_reordered_witness:
  "order_responses (req_index [8, 9]) 2 [mock_answer 9 demo_query True, mock_answer 8 demo_query True] =
     [Some (mock_answer 8 demo_query True), Some (mock_answer 9 demo_query True)]"
  using pipelined_answers_are_reordered [of "[8, 9]" "[mock_answer 8 demo_query True, mock_answer 9 demo_query True]"
      "[mock_answer 9 demo_query True, mock_answer 8 demo_query True]"]
  by (simp add: mock_answer_def Let_def add_mset_commute numeral_2_eq_2)

text \<open>
  The nodes of the cluster are each tried exactly once: first the node asked for, and the known
  leader last unless it is the one asked for, so that followers serve the reads.
\<close>

theorem failover_order:
  assumes "node \<in> set nodes"
  shows "mset (preferred_nodes node nodes leader) = mset nodes \<and>
    hd (preferred_nodes node nodes leader) = node \<and>
    (\<forall>l. leader = Some l \<and> l \<in> set nodes \<and> l \<noteq> node \<longrightarrow> last (preferred_nodes node nodes leader) = l)"
proof (intro conjI allI impI)
  show "mset (preferred_nodes node nodes leader) = mset nodes" by (rule preferred_nodes_mset)
  show "hd (preferred_nodes node nodes leader) = node" using preferred_nodes_first [OF assms, of leader] by auto
  fix l
  assume "leader = Some l \<and> l \<in> set nodes \<and> l \<noteq> node"
  then obtain ns where "preferred_nodes node nodes leader = ns @ [l]"
    using preferred_nodes_leader_last [of leader l nodes node] by blast
  then show "last (preferred_nodes node nodes leader) = l" by simp
qed

theorem failover_order_witness:
  "last (preferred_nodes demo_pool_node [demo_pool_node\<lparr>node_id := 2\<rparr>, demo_pool_node, demo_pool_node\<lparr>node_id := 3\<rparr>]
     (Some (demo_pool_node\<lparr>node_id := 2\<rparr>))) = demo_pool_node\<lparr>node_id := 2\<rparr>"
  using failover_order [of demo_pool_node "[demo_pool_node\<lparr>node_id := 2\<rparr>, demo_pool_node, demo_pool_node\<lparr>node_id := 3\<rparr>]"
      "Some (demo_pool_node\<lparr>node_id := 2\<rparr>)"]
  by (simp add: demo_pool_node_def)

lemma read_reply_expected:
  assumes "read_reply expected skip_records es = (Inr resp, es')"
  shows "expected (r_req_id resp)"
proof -
  have "r_req_id r = i" if "parse_response i lim a b c d rb rc body skip = Inr r" for i lim a b c d rb rc body skip r
    using that by (auto simp: parse_response_def Let_def res_simps split: if_splits)
  then show ?thesis using assms unfolding read_reply_def Let_def
    by (auto split: prod.split_asm sum.split_asm if_split_asm)
qed

lemma single_attempt_answer:
  assumes "single_attempt envs q skip_records (Some req_id) i n st = (Inr (m, resp, s, e), st')"
  shows "m = n \<and> r_req_id resp = req_id"
proof -
  have "fst (read_reply (\<lambda>r. r = req_id) skip_records (qv_events (envs i))) = Inr resp \<and> m = n"
    using assms unfolding single_attempt_def Let_def
    by (auto split: prod.split_asm sum.split_asm option.split_asm)
  then show ?thesis using read_reply_expected [of "\<lambda>r. r = req_id" skip_records "qv_events (envs i)" resp]
    by (metis prod.collapse)
qed



end
