(* ===== verification/Read_Pages.thy ===== *)
theory Read_Pages
  imports Query_Node Routing_Strats
begin

text \<open>
  \<open>read\<close> of \<open>client/dbclient.py\<close>: one query to the nodes the router names, and the aggregator
  that follows the pages of each answer. The futures complete in any order: a run of the aggregator
  is a list of completions, each the number of a future and what it returned or raised. Times are
  the rationals the clock's floats denote; the final subtraction rounds.
\<close>

section \<open>State of the aggregator\<close>

text \<open>A call submitted to the pool: \<open>_query_single_node(node, query, skip_records, req_id)\<close>.\<close>

record page_call =
  pc_node :: node
  pc_query :: query_request
  pc_req_id :: int

type_synonym page_outcome = "(node \<times> response \<times> rat \<times> rat) res"

text \<open>\<open>ag_active\<close> are the futures waited for, with the calls they stand for; \<open>ag_tracker\<close> is
  \<open>pagination_tracker\<close>; a minimum over nothing (\<open>float('inf')\<close>) is \<open>None\<close>.\<close>

record aggregator =
  ag_active :: "(nat \<times> page_call) list"
  ag_tracker :: "(nat, node \<times> int) dict"
  ag_accum :: "(node, response) dict"
  ag_metrics :: "read_request_metrics list"
  ag_min_start :: "rat option"
  ag_max_end :: rat
  ag_next_req :: int
  ag_next_fut :: nat

definition read_start :: "query_request \<Rightarrow> node list \<Rightarrow> int \<Rightarrow> aggregator" where
  "read_start q nodes req_id =
     \<lparr>ag_active = enumerate 0 (map (\<lambda>n. \<lparr>pc_node = n, pc_query = q, pc_req_id = req_id\<rparr>) nodes),
      ag_tracker = [], ag_accum = [], ag_metrics = [], ag_min_start = None, ag_max_end = 0,
      ag_next_req = req_id + 1, ag_next_fut = length nodes\<rparr>"

text \<open>The router names the nodes first; its exceptions leave \<open>read\<close> before anything is submitted.\<close>

definition read_submit :: "router \<Rightarrow> query_request \<Rightarrow> int \<Rightarrow> aggregator res \<times> router" where
  "read_submit rt q req_id =
     (case router_query rt q of (ns, rt') \<Rightarrow> (bind_res ns (\<lambda>ns. Inr (read_start q ns req_id)), rt'))"

section \<open>One completion\<close>

definition note_times :: "rat \<Rightarrow> rat \<Rightarrow> aggregator \<Rightarrow> aggregator" where
  "note_times net_start net_end st =
     st\<lparr>ag_min_start := Some (case ag_min_start st of None \<Rightarrow> net_start | Some m \<Rightarrow> min m net_start),
        ag_max_end := max (ag_max_end st) net_end\<rparr>"

definition note_metrics :: "int \<Rightarrow> response \<Rightarrow> rat \<Rightarrow> rat \<Rightarrow> aggregator \<Rightarrow> aggregator" where
  "note_metrics qid resp net_start net_end st =
     st\<lparr>ag_metrics := ag_metrics st @
       [\<lparr>rm_query_id = qid, rm_req_id = r_req_id resp, rm_send_time_ms = net_start,
         rm_recv_time_ms = net_end, rm_record_count = r_records_count resp,
         rm_records_bytes = r_records_bytes resp\<rparr>]\<rparr>"

definition next_page_query :: "query_request \<Rightarrow> response \<Rightarrow> query_request" where
  "next_page_query q resp = \<lparr>min_id = r_max_id resp + 1, min_ts = 0, max_id = max_id q, max_ts = max_ts q,
     query_id = query_id q\<rparr>"

text \<open>What follows an answer: the next page is submitted, or the limit flag is cleared.\<close>

definition follow_pages :: "query_request \<Rightarrow> node \<Rightarrow> response \<Rightarrow> aggregator \<Rightarrow> aggregator" where
  "follow_pages q n resp st =
     (if r_limit_reached resp \<and> r_max_id resp < max_id q
      then st\<lparr>ag_accum := AList.update n resp (ag_accum st),
              ag_next_req := ag_next_req st + 1,
              ag_active := ag_active st @ [(ag_next_fut st,
                \<lparr>pc_node = n, pc_query = next_page_query q resp, pc_req_id = ag_next_req st\<rparr>)],
              ag_tracker := AList.update (ag_next_fut st) (n, ag_next_req st) (ag_tracker st),
              ag_next_fut := Suc (ag_next_fut st)\<rparr>
      else st\<lparr>ag_accum := AList.update n (resp\<lparr>r_limit_reached := False\<rparr>) (ag_accum st)\<rparr>)"

definition append_page :: "response \<Rightarrow> response \<Rightarrow> response" where
  "append_page acc page = acc\<lparr>r_records := r_records acc @ r_records page,
     r_records_count := r_records_count acc + r_records_count page,
     r_records_bytes := r_records_bytes acc + r_records_bytes page,
     r_limit_reached := r_limit_reached page, r_max_id := r_max_id page, r_max_ts := r_max_ts page\<rparr>"

definition page_done ::
  "query_request \<Rightarrow> node \<Rightarrow> int \<Rightarrow> response \<Rightarrow> rat \<Rightarrow> rat \<Rightarrow> aggregator \<Rightarrow> aggregator res" where
  "page_done q n expected_req_id page net_start net_end st =
     (if r_req_id page \<noteq> expected_req_id then Inl ConnectionError
      else if r_limit_reached page \<and> r_records_count page = 0 then Inl ConnectionError
      else let st = note_metrics (query_id q) page net_start net_end st in
        bind_res (dict_index (ag_accum st) n) (\<lambda>acc.
          if r_limit_reached page \<and> r_max_id page < r_max_id acc then Inl ConnectionError
          else Inr (follow_pages q n (append_page acc page) st)))"

definition initial_done ::
  "query_request \<Rightarrow> node \<Rightarrow> response \<Rightarrow> rat \<Rightarrow> rat \<Rightarrow> aggregator \<Rightarrow> aggregator res" where
  "initial_done q n resp net_start net_end st =
     (if r_limit_reached resp \<and> r_records_count resp = 0 then Inl ConnectionError
      else if r_limit_reached resp \<and> r_max_id resp < min_id q then Inl ConnectionError
      else Inr (follow_pages q n resp (note_metrics (query_id q) resp net_start net_end st)))"

definition read_step :: "query_request \<Rightarrow> aggregator \<Rightarrow> nat \<times> page_outcome \<Rightarrow> aggregator res" where
  "read_step q st ev = (case ev of (fut, outcome) \<Rightarrow>
     let st = st\<lparr>ag_active := filter (\<lambda>a. fst a \<noteq> fut) (ag_active st)\<rparr> in
     bind_res outcome (\<lambda>(n, resp, net_start, net_end).
       let st = note_times net_start net_end st in
       case map_of (ag_tracker st) fut of
         Some (m, expected_req_id) \<Rightarrow> page_done q m expected_req_id resp net_start net_end st
       | None \<Rightarrow> initial_done q n resp net_start net_end st))"

section \<open>A run, and its result\<close>

text \<open>A future completes once: a completion of a future that is not waited for is ignored.\<close>

fun read_run :: "query_request \<Rightarrow> aggregator \<Rightarrow> (nat \<times> page_outcome) list \<Rightarrow> aggregator res" where
  "read_run q st [] = Inr st"
| "read_run q st (ev # evs) =
     (if fst ev \<in> set (map fst (ag_active st))
      then bind_res (read_step q st ev) (\<lambda>st'. read_run q st' evs)
      else read_run q st evs)"

record read_results =
  rr_clusters :: "(string, (string \<times> node \<times> response) list) dict"
  rr_latency_ms :: rat
  rr_request_metrics :: "read_request_metrics list"

definition node_name :: "node \<Rightarrow> string" where
  "node_name n = show_int (node_id n) @ '':'' @ host n @ '':'' @ show_int (port n)"

definition file_under ::
  "node \<times> 'r \<Rightarrow> (string, (string \<times> node \<times> 'r) list) dict \<Rightarrow> (string, (string \<times> node \<times> 'r) list) dict" where
  "file_under p results = (case p of (n, resp) \<Rightarrow>
     AList.update (cluster_name n)
       (dict_get_default results (cluster_name n) [] @ [(node_name n, n, resp)]) results)"

definition latency :: "rat option \<Rightarrow> rat \<Rightarrow> rat" where
  "latency min_start max_end = (if 0 < max_end
     then (case min_start of None \<Rightarrow> 0 | Some m \<Rightarrow> rnd (max_end - m)) else 0)"

definition build_read_results :: "aggregator \<Rightarrow> read_results" where
  "build_read_results st = \<lparr>rr_clusters = foldl (\<lambda>results p. file_under p results) [] (ag_accum st),
     rr_latency_ms = latency (ag_min_start st) (ag_max_end st), rr_request_metrics = ag_metrics st\<rparr>"

text \<open>Every exception of the aggregator becomes a \<open>TimeoutError\<close>; a run that still waits for a
  future has no result.\<close>

definition read_result ::
  "query_request \<Rightarrow> aggregator \<Rightarrow> (nat \<times> page_outcome) list \<Rightarrow> read_results res option" where
  "read_result q st evs = (case read_run q st evs of
     Inl e \<Rightarrow> Some (Inl TimeoutError)
   | Inr st' \<Rightarrow> if ag_active st' = [] then Some (Inr (build_read_results st')) else None)"

end
