(* ===== verification/Read_Batch.thy ===== *)
theory Read_Batch
  imports Read_Pages
begin

text \<open>
  \<open>read_batch\<close> of \<open>client/dbclient.py\<close>: several queries at once, one pipelined sub-batch per node,
  and the aggregator that follows the pages of each of their answers. As in
  \<^theory_text>\<open>Read_Pages\<close>, a run is the list of the completions of its futures.
\<close>

section \<open>State\<close>

text \<open>A sub-batch call and the \<open>query_pairs\<close> of \<open>future_to_info\<close>: the indices and queries of its
  entries.\<close>

record batch_call =
  bc_node :: node
  bc_pairs :: "(nat \<times> query_request) list"
  bc_req_ids :: "int list"

datatype job = BatchJob batch_call | PageJob page_call

datatype job_outcome =
    BatchOut node "response option list" rat rat
  | PageOut node response rat rat

text \<open>\<open>bg_tracker\<close> maps a page future to its node, its index in that node's list, the index of its
  query, and the request id expected; \<open>bg_orig_query\<close> is the local variable \<open>orig_query\<close>.\<close>

record batch_aggregator =
  bg_active :: "(nat \<times> job) list"
  bg_tracker :: "(nat, node \<times> nat \<times> nat \<times> int) dict"
  bg_info :: "(nat, (nat \<times> query_request) list) dict"
  bg_accum :: "(node, response option list) dict"
  bg_orig_query :: "query_request option"
  bg_metrics :: "read_request_metrics list"
  bg_min_start :: "rat option"
  bg_max_end :: rat
  bg_next_req :: int
  bg_next_fut :: nat

section \<open>Submission\<close>

text \<open>\<open>node_queries\<close>: the queries of each node, in the order in which nodes first appear.\<close>

definition add_query ::
  "nat \<Rightarrow> query_request \<Rightarrow> node \<Rightarrow> (node, (nat \<times> query_request) list) dict \<Rightarrow> (node, (nat \<times> query_request) list) dict" where
  "add_query idx q n d = AList.update n (dict_get_default d n [] @ [(idx, q)]) d"

fun group_queries ::
  "router \<Rightarrow> nat \<Rightarrow> query_request list \<Rightarrow> (node, (nat \<times> query_request) list) dict \<Rightarrow>
     (node, (nat \<times> query_request) list) dict res \<times> router" where
  "group_queries rt idx [] d = (Inr d, rt)"
| "group_queries rt idx (q # qs) d =
     (case router_query rt q of
        (Inl e, rt') \<Rightarrow> (Inl e, rt')
      | (Inr ns, rt') \<Rightarrow> group_queries rt' (Suc idx) qs (foldl (\<lambda>d n. add_query idx q n d) d ns))"

definition batch_calls :: "int list \<Rightarrow> (node, (nat \<times> query_request) list) dict \<Rightarrow> batch_call list" where
  "batch_calls initial_req_ids node_queries = map (\<lambda>(n, pairs). \<lparr>bc_node = n, bc_pairs = pairs,
     bc_req_ids = map (\<lambda>(idx, q). initial_req_ids ! idx) pairs\<rparr>) node_queries"

definition batch_start :: "batch_call list \<Rightarrow> int \<Rightarrow> batch_aggregator" where
  "batch_start calls next_req = \<lparr>bg_active = enumerate 0 (map BatchJob calls), bg_tracker = [],
     bg_info = enumerate 0 (map bc_pairs calls), bg_accum = [], bg_orig_query = None, bg_metrics = [],
     bg_min_start = None, bg_max_end = 0, bg_next_req = next_req, bg_next_fut = length calls\<rparr>"

text \<open>The request ids are drawn before the router is asked; no queries give an empty result at
  once (\<open>None\<close>).\<close>

definition batch_submit ::
  "router \<Rightarrow> query_request list \<Rightarrow> int \<Rightarrow> batch_aggregator option res \<times> router" where
  "batch_submit rt queries req_counter =
     (if queries = [] then (Inr None, rt)
      else let initial_req_ids = map (\<lambda>i. req_counter + int i) [0..<length queries];
               next_req = req_counter + int (length queries)
        in case group_queries rt 0 queries [] of (d, rt') \<Rightarrow>
          (bind_res d (\<lambda>d. Inr (Some (batch_start (batch_calls initial_req_ids d) next_req))), rt'))"

section \<open>One completion\<close>

definition batch_note_times :: "rat \<Rightarrow> rat \<Rightarrow> batch_aggregator \<Rightarrow> batch_aggregator" where
  "batch_note_times net_start net_end st =
     st\<lparr>bg_min_start := Some (case bg_min_start st of None \<Rightarrow> net_start | Some m \<Rightarrow> min m net_start),
        bg_max_end := max (bg_max_end st) net_end\<rparr>"

definition batch_note_metrics ::
  "query_request \<Rightarrow> response \<Rightarrow> rat \<Rightarrow> rat \<Rightarrow> batch_aggregator \<Rightarrow> batch_aggregator" where
  "batch_note_metrics q resp net_start recv_time st =
     st\<lparr>bg_metrics := bg_metrics st @
       [\<lparr>rm_query_id = query_id q, rm_req_id = r_req_id resp, rm_send_time_ms = net_start,
         rm_recv_time_ms = recv_time, rm_record_count = r_records_count resp,
         rm_records_bytes = r_records_bytes resp\<rparr>]\<rparr>"

text \<open>Writing through \<open>resp_dict\<close>, the object at an index of \<open>node_to_accumulated[n]\<close>.\<close>

definition set_entry :: "node \<Rightarrow> nat \<Rightarrow> response \<Rightarrow> batch_aggregator \<Rightarrow> batch_aggregator" where
  "set_entry n idx resp st =
     st\<lparr>bg_accum := AList.update n ((dict_get_default (bg_accum st) n [])[idx := Some resp]) (bg_accum st)\<rparr>"

definition batch_follow_pages ::
  "node \<Rightarrow> nat \<Rightarrow> nat \<Rightarrow> query_request \<Rightarrow> response \<Rightarrow> batch_aggregator \<Rightarrow> batch_aggregator" where
  "batch_follow_pages n idx orig_idx q resp st =
     (if r_limit_reached resp \<and> r_max_id resp < max_id q
      then (set_entry n idx resp st)\<lparr>bg_next_req := bg_next_req st + 1,
              bg_active := bg_active st @ [(bg_next_fut st, PageJob
                \<lparr>pc_node = n, pc_query = next_page_query q resp, pc_req_id = bg_next_req st\<rparr>)],
              bg_tracker := AList.update (bg_next_fut st) (n, idx, orig_idx, bg_next_req st) (bg_tracker st),
              bg_next_fut := Suc (bg_next_fut st)\<rparr>
      else set_entry n idx (resp\<lparr>r_limit_reached := False\<rparr>) st)"

text \<open>The loop over the answers of a sub-batch.\<close>

fun batch_entries ::
  "node \<Rightarrow> (nat \<times> query_request) list \<Rightarrow> rat \<Rightarrow> rat \<Rightarrow> nat \<Rightarrow> response option list \<Rightarrow> batch_aggregator \<Rightarrow>
     batch_aggregator res" where
  "batch_entries n pairs net_start net_end sub_idx [] st = Inr st"
| "batch_entries n pairs net_start net_end sub_idx (r # rs) st =
     bind_res (py_index pairs (int sub_idx)) (\<lambda>(orig_idx, q).
       let st = st\<lparr>bg_orig_query := Some q\<rparr> in
       case r of None \<Rightarrow> Inl TypeError
       | Some resp \<Rightarrow>
           if r_limit_reached resp \<and> r_records_count resp = 0 then Inl ConnectionError
           else if r_limit_reached resp \<and> r_max_id resp < min_id q then Inl ConnectionError
           else batch_entries n pairs net_start net_end (Suc sub_idx) rs
             (batch_follow_pages n sub_idx orig_idx q resp
               (batch_note_metrics q resp net_start
                 (case r_recv_ts resp of None \<Rightarrow> net_end | Some t \<Rightarrow> t) st)))"

text \<open>A completed page. The metrics are recorded before \<open>orig_query\<close> is set to the query of this
  page.\<close>

definition batch_page_done ::
  "query_request list \<Rightarrow> node \<times> nat \<times> nat \<times> int \<Rightarrow> response \<Rightarrow> rat \<Rightarrow> rat \<Rightarrow> batch_aggregator \<Rightarrow>
     batch_aggregator res" where
  "batch_page_done queries info page net_start net_end st =
     (case info of (n, idx, orig_query_idx, expected_req_id) \<Rightarrow>
       if r_req_id page \<noteq> expected_req_id then Inl ConnectionError
       else if r_limit_reached page \<and> r_records_count page = 0 then Inl ConnectionError
       else case bg_orig_query st of None \<Rightarrow> Inl NameError
       | Some orig_query \<Rightarrow>
         let st = batch_note_metrics orig_query page net_start net_end st in
         bind_res (dict_index (bg_accum st) n) (\<lambda>entries.
         bind_res (py_index entries (int idx)) (\<lambda>entry.
           case entry of None \<Rightarrow> Inl TypeError
           | Some acc \<Rightarrow>
             if r_limit_reached page \<and> r_max_id page < r_max_id acc then Inl ConnectionError
             else bind_res (py_index queries (int orig_query_idx)) (\<lambda>q.
               Inr (batch_follow_pages n idx orig_query_idx q (append_page acc page)
                 (st\<lparr>bg_orig_query := Some q\<rparr>))))))"

definition batch_step ::
  "query_request list \<Rightarrow> batch_aggregator \<Rightarrow> nat \<times> job_outcome res \<Rightarrow> batch_aggregator res" where
  "batch_step queries st ev = (case ev of (fut, outcome) \<Rightarrow>
     let st = st\<lparr>bg_active := filter (\<lambda>a. fst a \<noteq> fut) (bg_active st)\<rparr> in
     bind_res outcome (\<lambda>out.
       case (map_of (bg_tracker st) fut, out) of
         (Some info, PageOut n page net_start net_end) \<Rightarrow>
           batch_page_done queries info page net_start net_end (batch_note_times net_start net_end st)
       | (None, BatchOut n responses net_start net_end) \<Rightarrow>
           let st = (batch_note_times net_start net_end st)
                      \<lparr>bg_accum := AList.update n responses (bg_accum st)\<rparr>
           in bind_res (dict_index (bg_info st) fut) (\<lambda>query_pairs.
                batch_entries n query_pairs net_start net_end 0 responses st)
       | _ \<Rightarrow> Inl ValueError))"

section \<open>A run, and its result\<close>

fun batch_run ::
  "query_request list \<Rightarrow> batch_aggregator \<Rightarrow> (nat \<times> job_outcome res) list \<Rightarrow> batch_aggregator res" where
  "batch_run queries st [] = Inr st"
| "batch_run queries st (ev # evs) =
     (if fst ev \<in> set (map fst (bg_active st))
      then bind_res (batch_step queries st ev) (\<lambda>st'. batch_run queries st' evs)
      else batch_run queries st evs)"

record batch_results =
  br_clusters :: "(string, (string \<times> node \<times> response option list) list) dict"
  br_latency_ms :: rat
  br_request_metrics :: "read_request_metrics list"

definition build_batch_results :: "batch_aggregator \<Rightarrow> batch_results" where
  "build_batch_results st = \<lparr>br_clusters = foldl (\<lambda>results p. file_under p results) [] (bg_accum st),
     br_latency_ms = latency (bg_min_start st) (bg_max_end st), br_request_metrics = bg_metrics st\<rparr>"

definition batch_result ::
  "query_request list \<Rightarrow> batch_aggregator \<Rightarrow> (nat \<times> job_outcome res) list \<Rightarrow> batch_results res option" where
  "batch_result queries st evs = (case batch_run queries st evs of
     Inl e \<Rightarrow> Some (Inl TimeoutError)
   | Inr st' \<Rightarrow> if bg_active st' = [] then Some (Inr (build_batch_results st')) else None)"

end
