(* ===== verification/Batch_Grouping.thy ===== *)
theory Batch_Grouping
  imports Read_Batch
begin

text \<open>
  The submission of \<open>read_batch\<close> against a reference: the answers of the router to every query, in
  turn, and for every node the queries it was named for.
\<close>

text \<open>The nodes the router gives for each query, in turn.\<close>

fun routed :: "router \<Rightarrow> query_request list \<Rightarrow> node list list res \<times> router" where
  "routed rt [] = (Inr [], rt)"
| "routed rt (q # qs) = (case router_query rt q of
     (Inl e, rt') \<Rightarrow> (Inl e, rt')
   | (Inr ns, rt') \<Rightarrow> (case routed rt' qs of (nss, rt'') \<Rightarrow> (bind_res nss (\<lambda>nss. Inr (ns # nss)), rt'')))"

text \<open>What every node is asked: each query as often as the router names the node for it, in order.\<close>

definition asked :: "nat \<Rightarrow> query_request list \<Rightarrow> node list list \<Rightarrow> node \<Rightarrow> (nat \<times> query_request) list" where
  "asked idx qs nss n = concat (map (\<lambda>(i, q, ns). map (\<lambda>m. (i, q)) (filter (\<lambda>m. m = n) ns)) (zip [idx..<idx + length qs] (zip qs nss)))"

lemma add_queries_get:
  "dict_get_default (foldl (\<lambda>d n. add_query idx q n d) d ns) n [] =
     dict_get_default d n [] @ map (\<lambda>m. (idx, q)) (filter (\<lambda>m. m = n) ns)"
  by (induction ns arbitrary: d) (simp_all add: add_query_def dict_get_default_def update_conv split: option.splits)

lemma add_queries_ok: "dict_ok d \<Longrightarrow> dict_ok (foldl (\<lambda>d n. add_query idx q n d) d ns)"
  by (induction ns arbitrary: d) (simp_all add: add_query_def)

lemma add_queries_keys: "set (dict_keys (foldl (\<lambda>d n. add_query idx q n d) d ns)) = set (dict_keys d) \<union> set ns"
  by (induction ns arbitrary: d) (auto simp: add_query_def dom_update)

lemma asked_Cons:
  "asked idx (q # qs) (ns # nss) n = map (\<lambda>m. (idx, q)) (filter (\<lambda>m. m = n) ns) @ asked (Suc idx) qs nss n"
proof -
  have "[idx..<idx + length (q # qs)] = idx # [Suc idx..<Suc idx + length qs]" by (simp add: upt_conv_Cons del: upt_Suc)
  then show ?thesis by (simp add: asked_def del: upt_Suc)
qed

lemma group_queries_routed:
  assumes "dict_ok d"
  shows "case group_queries rt idx qs d of
      (Inl e, rt') \<Rightarrow> routed rt qs = (Inl e, rt')
    | (Inr d', rt') \<Rightarrow> dict_ok d' \<and> (\<exists>nss. routed rt qs = (Inr nss, rt') \<and> length nss = length qs \<and>
        set (dict_keys d') = set (dict_keys d) \<union> (\<Union>ns \<in> set nss. set ns) \<and>
        (\<forall>n. dict_get_default d' n [] = dict_get_default d n [] @ asked idx qs nss n))"
  using assms
proof (induction qs arbitrary: rt idx d)
  case Nil
  then show ?case by (simp add: asked_def)
next
  case (Cons q qs)
  obtain r rt1 where r: "router_query rt q = (r, rt1)" by (cases "router_query rt q")
  show ?case
  proof (cases r)
    case (Inl e)
    then show ?thesis using r by simp
  next
    case (Inr ns)
    let ?d = "foldl (\<lambda>d n. add_query idx q n d) d ns"
    show ?thesis
      using Cons.IH [OF add_queries_ok [OF Cons.prems, of idx q ns], of rt1 "Suc idx"] r Inr
      by (auto simp: add_queries_get asked_Cons add_queries_keys simp del: set_map split: prod.splits sum.splits)
  qed
qed

lemma asked_set:
  "length nss = length qs \<Longrightarrow> set (asked idx qs nss n) = {(idx + i, qs ! i) |i. i < length qs \<and> n \<in> set (nss ! i)}"
proof (induction qs arbitrary: idx nss)
  case Nil
  then show ?case by (simp add: asked_def)
next
  case (Cons q qs)
  obtain ns nss' where nss: "nss = ns # nss'" "length nss' = length qs" using Cons.prems by (cases nss) auto
  have "set (asked idx (q # qs) nss n) = (if n \<in> set ns then {(idx, q)} else {}) \<union> set (asked (Suc idx) qs nss' n)"
    unfolding nss(1) by (auto simp: asked_Cons)
  also have "\<dots> = {(idx + i, (q # qs) ! i) |i. i < length (q # qs) \<and> n \<in> set (nss ! i)}" (is "?L = ?R")
  proof -
    have "?R = {(idx + i, (q # qs) ! i) |i. i = 0 \<and> n \<in> set (nss ! i)} \<union>
        {(idx + Suc i, (q # qs) ! Suc i) |i. i < length qs \<and> n \<in> set (nss ! Suc i)}"
      by (auto simp: less_Suc_eq_0_disj)
    then show ?thesis by (simp add: Cons.IH [OF nss(2)] nss(1))
  qed
  finally show ?case .
qed

text \<open>A node named at most once for each query is asked each query at most once.\<close>

lemma filter_distinct: "distinct ns \<Longrightarrow> map f (filter (\<lambda>m. m = n) ns) = (if n \<in> set ns then [f n] else [])"
  by (induction ns) (auto simp: filter_empty_conv)

lemma asked_distinct:
  assumes "length nss = length qs" and "\<forall>ns \<in> set nss. distinct ns"
  shows "distinct (map fst (asked idx qs nss n))"
  using assms
proof (induction qs arbitrary: idx nss)
  case Nil
  then show ?case by (simp add: asked_def)
next
  case (Cons q qs)
  obtain ns nss' where nss: "nss = ns # nss'" "length nss' = length qs" using Cons.prems by (cases nss) auto
  have "idx \<notin> fst ` set (asked (Suc idx) qs nss' n)" by (auto simp: asked_set [OF nss(2)])
  then show ?case using Cons.IH [OF nss(2)] Cons.prems(2) nss(1) by (simp add: asked_Cons filter_distinct)
qed

lemma asked_length:
  assumes "length nss = length qs" and "\<forall>ns \<in> set nss. distinct ns"
  shows "length (asked 0 qs nss n) \<le> length qs"
proof -
  have "set (map fst (asked 0 qs nss n)) \<subseteq> {..<length qs}" by (auto simp: asked_set [OF assms(1)])
  from card_mono [OF _ this] show ?thesis using distinct_card [OF asked_distinct [OF assms], of 0 n] by simp
qed

text \<open>What the grouped queries weigh.\<close>

definition grouped_weight :: "(query_request \<Rightarrow> nat) \<Rightarrow> (node, (nat \<times> query_request) list) dict \<Rightarrow> nat" where
  "grouped_weight w d = (\<Sum>(n, pairs) \<leftarrow> d. Suc (\<Sum>p \<leftarrow> pairs. w (snd p)))"

lemma add_query_weight: "grouped_weight w (add_query idx q n d) \<le> grouped_weight w d + Suc (w q)"
proof (induction d)
  case (Cons p d)
  then show ?case by (cases p) (auto simp: grouped_weight_def add_query_def dict_get_default_def)
qed (simp add: grouped_weight_def add_query_def dict_get_default_def)

lemma add_queries_weight:
  "grouped_weight w (foldl (\<lambda>d n. add_query idx q n d) d ns) \<le> grouped_weight w d + length ns * Suc (w q)"
proof (induction ns arbitrary: d)
  case (Cons n ns)
  show ?case using Cons [of "add_query idx q n d"] add_query_weight [of w idx q n d] by simp
qed simp

lemma group_queries_weight:
  assumes "group_queries rt idx qs d = (Inr d', rt')" and "routed rt qs = (Inr nss, rt')" and "\<forall>ns \<in> set nss. length ns \<le> m"
  shows "grouped_weight w d' \<le> grouped_weight w d + m * (\<Sum>q \<leftarrow> qs. Suc (w q))"
  using assms
proof (induction qs arbitrary: rt idx d nss)
  case (Cons q qs)
  obtain ns rt1 where r: "router_query rt q = (Inr ns, rt1)" using Cons.prems(1) by (auto split: prod.splits sum.splits)
  obtain nss' where nss: "routed rt1 qs = (Inr nss', rt')" "nss = ns # nss'"
    using Cons.prems(2) r by (auto simp: res_simps split: prod.splits)
  let ?d = "foldl (\<lambda>d n. add_query idx q n d) d ns"
  have "grouped_weight w d' \<le> grouped_weight w ?d + m * (\<Sum>q \<leftarrow> qs. Suc (w q))"
    using Cons.prems(1,3) r nss by (intro Cons.IH [where nss = nss' and idx = "Suc idx"]) auto
  also have "grouped_weight w ?d \<le> grouped_weight w d + length ns * Suc (w q)" by (rule add_queries_weight)
  also have "length ns * Suc (w q) \<le> m * Suc (w q)" using Cons.prems(3) nss(2) by (intro mult_le_mono1) simp
  finally show ?case by (simp add: algebra_simps)
qed simp

text \<open>A submitted batch: the sub-batches hold the queries of the call, and each where it was routed.\<close>

definition pairs_ok :: "query_request list \<Rightarrow> batch_call list \<Rightarrow> bool" where
  "pairs_ok queries calls \<longleftrightarrow>
     (\<forall>k < length calls. \<forall>(oi, q) \<in> set (bc_pairs (calls ! k)). oi < length queries \<and> queries ! oi = q)"

lemma submitted_calls:
  assumes "batch_submit rt queries c = (Inr (Some st), rt')"
  obtains calls nss d where "st = batch_start calls (c + int (length queries))"
    "calls = batch_calls (map (\<lambda>i. c + int i) [0..<length queries]) d"
    "group_queries rt 0 queries [] = (Inr d, rt')" "routed rt queries = (Inr nss, rt')" "length nss = length queries"
    "dict_ok d" "set (dict_keys d) = (\<Union>ns \<in> set nss. set ns)"
    "\<And>n pairs. (n, pairs) \<in> set d \<Longrightarrow> pairs = asked 0 queries nss n"
    "\<And>n. n \<in> set (dict_keys d) \<Longrightarrow> (n, asked 0 queries nss n) \<in> set d"
proof -
  obtain d where d: "group_queries rt 0 queries [] = (Inr d, rt')"
    and st: "st = batch_start (batch_calls (map (\<lambda>i. c + int i) [0..<length queries]) d) (c + int (length queries))"
    using assms by (auto simp: batch_submit_def Let_def res_simps split: if_splits prod.splits sum.splits)
  obtain nss where ok: "dict_ok d" and nss: "routed rt queries = (Inr nss, rt')" "length nss = length queries"
    and keys: "set (dict_keys d) = (\<Union>ns \<in> set nss. set ns)" and get: "\<And>n. dict_get_default d n [] = asked 0 queries nss n"
    using group_queries_routed [where d = "[]" and rt = rt and idx = 0 and qs = queries] d
    by (auto simp: dict_get_default_def simp del: set_map)
  have pairs: "pairs = asked 0 queries nss n" if "(n, pairs) \<in> set d" for n pairs
    using that ok get [of n] by (simp add: dict_get_default_def dict_ok_def)
  moreover have "(n, asked 0 queries nss n) \<in> set d" if n: "n \<in> set (dict_keys d)" for n
  proof -
    obtain ps where "(n, ps) \<in> set d" using n by auto
    then show ?thesis using pairs by blast
  qed
  ultimately show ?thesis using that st d nss ok keys by blast
qed

lemma batch_calls_nth:
  assumes "k < length d"
  shows "bc_node (batch_calls ids d ! k) = fst (d ! k)" "bc_pairs (batch_calls ids d ! k) = snd (d ! k)"
    "bc_req_ids (batch_calls ids d ! k) = map (\<lambda>(idx, q). ids ! idx) (snd (d ! k))"
  using assms by (simp_all add: batch_calls_def split_beta)

lemma length_batch_calls [simp]: "length (batch_calls ids d) = length d"
  by (simp add: batch_calls_def)

lemma grouped_pairs_ok:
  assumes "length nss = length queries" and "\<And>n pairs. (n, pairs) \<in> set d \<Longrightarrow> pairs = asked 0 queries nss n"
  shows "pairs_ok queries (batch_calls ids d)"
proof -
  have "oi < length queries \<and> queries ! oi = q" if "k < length d" "(oi, q) \<in> set (snd (d ! k))" for k oi q
  proof -
    have "(fst (d ! k), snd (d ! k)) \<in> set d" using that(1) by simp
    from assms(2) [OF this] that(2) show ?thesis by (auto simp: asked_set [OF assms(1)])
  qed
  then show ?thesis unfolding pairs_ok_def by (auto simp: batch_calls_nth)
qed

lemma submitted:
  assumes "batch_submit rt queries c = (Inr (Some st), rt')"
  obtains calls i nss where "st = batch_start calls i" "pairs_ok queries calls" "routed rt queries = (Inr nss, rt')"
    "length nss = length queries"
    "\<And>i n. i < length queries \<Longrightarrow> n \<in> set (nss ! i) \<Longrightarrow> \<exists>k < length calls. \<exists>j < length (bc_pairs (calls ! k)).
       bc_node (calls ! k) = n \<and> bc_pairs (calls ! k) ! j = (i, queries ! i)"
proof -
  obtain calls nss d where st: "st = batch_start calls (c + int (length queries))"
    and calls: "calls = batch_calls (map (\<lambda>i. c + int i) [0..<length queries]) d"
    and nss: "routed rt queries = (Inr nss, rt')" "length nss = length queries"
    and keys: "set (dict_keys d) = (\<Union>ns \<in> set nss. set ns)"
    and pairs: "\<And>n pairs. (n, pairs) \<in> set d \<Longrightarrow> pairs = asked 0 queries nss n"
    and all: "\<And>n. n \<in> set (dict_keys d) \<Longrightarrow> (n, asked 0 queries nss n) \<in> set d"
    using assms by (rule submitted_calls) blast
  have "pairs_ok queries calls" unfolding calls using nss(2) pairs by (rule grouped_pairs_ok)
  moreover have "\<exists>k < length calls. \<exists>j < length (bc_pairs (calls ! k)).
      bc_node (calls ! k) = n \<and> bc_pairs (calls ! k) ! j = (i, queries ! i)"
    if "i < length queries" "n \<in> set (nss ! i)" for i n
  proof -
    have "nss ! i \<in> set nss" using that(1) nss(2) by simp
    then have "n \<in> set (dict_keys d)" unfolding keys using that(2) by blast
    then obtain k where k: "k < length d" "d ! k = (n, asked 0 queries nss n)"
      using all by (metis in_set_conv_nth)
    have "(i, queries ! i) \<in> set (asked 0 queries nss n)" using that by (auto simp: asked_set [OF nss(2)])
    then obtain j where "j < length (asked 0 queries nss n)" "asked 0 queries nss n ! j = (i, queries ! i)"
      by (metis in_set_conv_nth)
    then show ?thesis using k unfolding calls by (intro exI [of _ k] conjI exI [of _ j]) (simp_all add: batch_calls_nth)
  qed
  ultimately show ?thesis using that st nss by blast
qed

end
