(* ===== verification/Read_Props.thy ===== *)
theory Read_Props
  imports Read_Pages
begin

text \<open>
  The contract between the aggregator of \<open>read\<close> and the servers whose pages it follows, and what
  the aggregator does under it: in whatever order the futures complete, it collects every stored
  record of the interval from every cluster, and it ends.
\<close>

section \<open>Servers of pages\<close>

text \<open>The calls of a run are answered by their own cluster, with an answer the server may give.\<close>

definition call_served ::
  "(string \<Rightarrow> query_request \<Rightarrow> int \<Rightarrow> response \<Rightarrow> bool) \<Rightarrow> page_call \<Rightarrow> page_outcome \<Rightarrow> bool" where
  "call_served answers call outcome = (case outcome of Inl e \<Rightarrow> False
     | Inr (n, resp, s, e) \<Rightarrow> cluster_name n = cluster_name (pc_node call) \<and>
         answers (cluster_name (pc_node call)) (pc_query call) (pc_req_id call) resp)"

fun served ::
  "(page_call \<Rightarrow> page_outcome \<Rightarrow> bool) \<Rightarrow> query_request \<Rightarrow> aggregator \<Rightarrow> (nat \<times> page_outcome) list \<Rightarrow> bool" where
  "served ok q st [] = True"
| "served ok q st ((fut, outcome) # evs) =
     (case map_of (ag_active st) fut of None \<Rightarrow> False
      | Some call \<Rightarrow> ok call outcome \<and>
          (case read_step q st (fut, outcome) of Inl e \<Rightarrow> True | Inr st' \<Rightarrow> served ok q st' evs))"

definition active_clusters :: "aggregator \<Rightarrow> string list" where
  "active_clusters st = map (\<lambda>(fut, call). cluster_name (pc_node call)) (ag_active st)"

definition accum_clusters :: "aggregator \<Rightarrow> string list" where
  "accum_clusters st = map cluster_name (dict_keys (ag_accum st))"

text \<open>The keys still to be read bound the number of completions.\<close>

definition call_weight :: "query_request \<Rightarrow> page_call \<Rightarrow> nat" where
  "call_weight q call = Suc (nat (max_id q - min_id (pc_query call) + 1))"

definition work_left :: "query_request \<Rightarrow> aggregator \<Rightarrow> nat" where
  "work_left q st = sum_list (map (\<lambda>(fut, call). call_weight q call) (ag_active st))"

text \<open>
  A cluster's records in an interval, split at any key; an answer without the limit flag holds the
  whole interval, one with it holds a non-empty part up to its last key, whole.
\<close>

locale page_server =
  fixes stored :: "string \<Rightarrow> int \<Rightarrow> int \<Rightarrow> db_record list"
    and answers :: "string \<Rightarrow> query_request \<Rightarrow> int \<Rightarrow> response \<Rightarrow> bool"
  assumes stored_split: "lo \<le> m + 1 \<Longrightarrow> m \<le> hi \<Longrightarrow> stored c lo hi = stored c lo m @ stored c (m + 1) hi"
    and answer_req: "answers c q i r \<Longrightarrow> r_req_id r = i"
    and answer_last: "answers c q i r \<Longrightarrow> \<not> r_limit_reached r \<Longrightarrow> r_records r = stored c (min_id q) (max_id q)"
    and answer_page: "answers c q i r \<Longrightarrow> r_limit_reached r \<Longrightarrow>
      r_records_count r \<noteq> 0 \<and> min_id q \<le> r_max_id r \<and> r_max_id r \<le> max_id q \<and>
      r_records r = stored c (min_id q) (r_max_id r)"
begin

definition collected :: "query_request \<Rightarrow> string \<Rightarrow> response \<Rightarrow> bool" where
  "collected q c r \<longleftrightarrow> \<not> r_limit_reached r \<and> r_records r = stored c (min_id q) (max_id q)"

definition partly :: "query_request \<Rightarrow> string \<Rightarrow> response \<Rightarrow> bool" where
  "partly q c r \<longleftrightarrow> min_id q \<le> r_max_id r \<and> r_max_id r < max_id q \<and>
     r_records r = stored c (min_id q) (r_max_id r)"

definition call_ok :: "query_request \<Rightarrow> aggregator \<Rightarrow> nat \<times> page_call \<Rightarrow> bool" where
  "call_ok q st fc = (case fc of (fut, call) \<Rightarrow>
     case map_of (ag_tracker st) fut of
       None \<Rightarrow> pc_query call = q \<and> cluster_name (pc_node call) \<notin> set (accum_clusters st)
     | Some (n, i) \<Rightarrow> pc_node call = n \<and> pc_req_id call = i \<and>
         (\<exists>acc. map_of (ag_accum st) n = Some acc \<and> pc_query call = next_page_query q acc \<and>
            partly q (cluster_name n) acc))"

text \<open>The invariant; the clusters of \<open>D\<close> are exempt from being complete when nothing is active for
  them.\<close>

definition read_inv :: "query_request \<Rightarrow> string set \<Rightarrow> aggregator \<Rightarrow> bool" where
  "read_inv q D st \<longleftrightarrow>
     distinct (map fst (ag_active st)) \<and> (\<forall>f \<in> set (map fst (ag_active st)). f < ag_next_fut st) \<and>
     (\<forall>f \<in> set (dict_keys (ag_tracker st)). f < ag_next_fut st) \<and>
     distinct (active_clusters st) \<and> distinct (accum_clusters st) \<and>
     (\<forall>fc \<in> set (ag_active st). call_ok q st fc) \<and>
     (\<forall>n r. map_of (ag_accum st) n = Some r \<longrightarrow> cluster_name n \<notin> set (active_clusters st) \<longrightarrow>
        cluster_name n \<notin> D \<longrightarrow> collected q (cluster_name n) r)"

text \<open>What is true of an answer, or of the pages collected so far, before the next page is asked for.\<close>

definition fresh_enough :: "query_request \<Rightarrow> string \<Rightarrow> response \<Rightarrow> bool" where
  "fresh_enough q c r \<longleftrightarrow> (if r_limit_reached r
     then min_id q \<le> r_max_id r \<and> r_max_id r \<le> max_id q \<and> r_records r = stored c (min_id q) (r_max_id r)
     else r_records r = stored c (min_id q) (max_id q))"

text \<open>What an answer gives.\<close>

lemma answer_fresh: "answers c q i r \<Longrightarrow> fresh_enough q c r"
  using answer_last [of c q i r] answer_page [of c q i r] by (simp add: fresh_enough_def)

lemma append_fresh:
  assumes "partly q c acc" and "answers c (next_page_query q acc) i page"
  shows "fresh_enough q c (append_page acc page)"
proof -
  have lo: "min_id (next_page_query q acc) = r_max_id acc + 1" "max_id (next_page_query q acc) = max_id q"
    by (simp_all add: next_page_query_def)
  have acc: "min_id q \<le> r_max_id acc" "r_max_id acc < max_id q" "r_records acc = stored c (min_id q) (r_max_id acc)"
    using assms(1) by (simp_all add: partly_def)
  show ?thesis
  proof (cases "r_limit_reached page")
    case True
    then show ?thesis using answer_page [OF assms(2)] lo acc stored_split [of "min_id q" "r_max_id acc" "r_max_id page" c]
      by (simp add: fresh_enough_def append_page_def)
  next
    case False
    then show ?thesis using answer_last [OF assms(2)] lo acc stored_split [of "min_id q" "r_max_id acc" "max_id q" c]
      by (simp add: fresh_enough_def append_page_def)
  qed
qed

lemma follow_pages_inv:
  assumes inv: "read_inv q {cluster_name n} st" and c: "cluster_name n \<notin> set (active_clusters st)"
    and n: "n \<in> set (dict_keys (ag_accum st)) \<or> cluster_name n \<notin> set (accum_clusters st)"
    and r: "fresh_enough q (cluster_name n) r"
  shows "read_inv q {} (follow_pages q n r st)"
    and "set (active_clusters (follow_pages q n r st)) \<union> set (accum_clusters (follow_pages q n r st)) =
      insert (cluster_name n) (set (active_clusters st) \<union> set (accum_clusters st))"
    and "work_left q (follow_pages q n r st) =
      work_left q st + (if r_limit_reached r \<and> r_max_id r < max_id q then Suc (nat (max_id q - r_max_id r)) else 0)"
proof -
  define r' where "r' = (if r_limit_reached r \<and> r_max_id r < max_id q then r else r\<lparr>r_limit_reached := False\<rparr>)"
  have split: "follow_pages q n r st = (if r_limit_reached r \<and> r_max_id r < max_id q
      then st\<lparr>ag_accum := AList.update n r' (ag_accum st), ag_next_req := ag_next_req st + 1,
              ag_active := ag_active st @ [(ag_next_fut st,
                \<lparr>pc_node = n, pc_query = next_page_query q r, pc_req_id = ag_next_req st\<rparr>)],
              ag_tracker := AList.update (ag_next_fut st) (n, ag_next_req st) (ag_tracker st),
              ag_next_fut := Suc (ag_next_fut st)\<rparr>
      else st\<lparr>ag_accum := AList.update n r' (ag_accum st)\<rparr>)"
    by (simp add: follow_pages_def r'_def)
  have accs: "accum_clusters (follow_pages q n r st) =
      (if n \<in> set (dict_keys (ag_accum st)) then accum_clusters st else accum_clusters st @ [cluster_name n])"
    unfolding split by (simp add: accum_clusters_def update_keys del: map_map)
  have acts: "active_clusters (follow_pages q n r st) = active_clusters st @
      (if r_limit_reached r \<and> r_max_id r < max_id q then [cluster_name n] else [])"
    unfolding split by (simp add: active_clusters_def)
  have mem: "cluster_name n \<in> set (accum_clusters st)" if "n \<in> set (dict_keys (ag_accum st))"
    using that by (force simp: accum_clusters_def)
  show "set (active_clusters (follow_pages q n r st)) \<union> set (accum_clusters (follow_pages q n r st)) =
      insert (cluster_name n) (set (active_clusters st) \<union> set (accum_clusters st))"
    using mem by (auto simp: accs acts)
  show "work_left q (follow_pages q n r st) =
      work_left q st + (if r_limit_reached r \<and> r_max_id r < max_id q then Suc (nat (max_id q - r_max_id r)) else 0)"
    unfolding split by (simp add: work_left_def call_weight_def next_page_query_def)
  have I: "distinct (map fst (ag_active st))" "\<forall>f \<in> set (map fst (ag_active st)). f < ag_next_fut st"
    "\<forall>f \<in> set (dict_keys (ag_tracker st)). f < ag_next_fut st" "distinct (active_clusters st)"
    "distinct (accum_clusters st)" "\<forall>fc \<in> set (ag_active st). call_ok q st fc"
    "\<forall>m r. map_of (ag_accum st) m = Some r \<longrightarrow> cluster_name m \<notin> set (active_clusters st) \<longrightarrow>
        cluster_name m \<notin> {cluster_name n} \<longrightarrow> collected q (cluster_name m) r"
    using inv unfolding read_inv_def by blast+
  have only: "m = n" if "map_of (ag_accum st) m = Some s" "cluster_name m = cluster_name n" for m s
  proof -
    have m: "m \<in> set (dict_keys (ag_accum st))" using map_of_SomeD [OF that(1)] by force
    then have "cluster_name n \<in> set (accum_clusters st)" using that(2) by (force simp: accum_clusters_def)
    then have "n \<in> set (dict_keys (ag_accum st))" using n by blast
    then show ?thesis using m that(2) I(5) unfolding accum_clusters_def
      by (metis distinct_map inj_onD)
  qed
  have calls: "call_ok q (follow_pages q n r st) fc" if "fc \<in> set (ag_active st)" for fc
  proof -
    obtain fut call where fc: "fc = (fut, call)" by (cases fc)
    have fut: "fut \<noteq> ag_next_fut st" using that fc I(2) by force
    have other: "cluster_name (pc_node call) \<noteq> cluster_name n"
      using that fc c by (auto simp: active_clusters_def image_iff)
    have "map_of (ag_tracker (follow_pages q n r st)) fut = map_of (ag_tracker st) fut"
      using fut by (simp add: split update_conv)
    moreover have "map_of (ag_accum (follow_pages q n r st)) m = map_of (ag_accum st) m" if "m \<noteq> n" for m
      using that by (simp add: split update_conv)
    ultimately show ?thesis
      using I(6) that fc other accs by (fastforce simp: call_ok_def split: option.splits)
  qed
  have coll: "collected q (cluster_name n) r'" if "\<not> (r_limit_reached r \<and> r_max_id r < max_id q)"
    using r that by (auto simp: r'_def collected_def fresh_enough_def split: if_splits)
  have new: "call_ok q (follow_pages q n r st) (ag_next_fut st,
      \<lparr>pc_node = n, pc_query = next_page_query q r, pc_req_id = ag_next_req st\<rparr>)"
    if "r_limit_reached r \<and> r_max_id r < max_id q"
    using that r by (simp add: call_ok_def split update_conv r'_def partly_def fresh_enough_def)
  have accum: "map_of (ag_accum (follow_pages q n r st)) m = (if m = n then Some r' else map_of (ag_accum st) m)" for m
    by (simp add: split update_conv)
  have dist: "distinct (active_clusters (follow_pages q n r st))" "distinct (accum_clusters (follow_pages q n r st))"
    using I(4,5) c n mem by (auto simp: acts accs)
  have "set (dict_keys (ag_tracker (follow_pages q n r st))) =
      (if r_limit_reached r \<and> r_max_id r < max_id q then {ag_next_fut st} else {}) \<union> set (dict_keys (ag_tracker st))"
    by (simp add: split dom_update)
  moreover have "ag_next_fut (follow_pages q n r st) =
      (if r_limit_reached r \<and> r_max_id r < max_id q then Suc (ag_next_fut st) else ag_next_fut st)"
    by (simp add: split)
  ultimately have track: "\<forall>f \<in> set (dict_keys (ag_tracker (follow_pages q n r st))). f < ag_next_fut (follow_pages q n r st)"
    using I(3) less_SucI by (simp only:) (auto split: if_splits)
  have futs: "distinct (map fst (ag_active (follow_pages q n r st)))"
    "\<forall>f \<in> set (map fst (ag_active (follow_pages q n r st))). f < ag_next_fut (follow_pages q n r st)"
    using I(1,2) by (auto simp: split less_Suc_eq)
  have "call_ok q (follow_pages q n r st) fc" if "fc \<in> set (ag_active (follow_pages q n r st))" for fc
  proof -
    have "fc \<in> set (ag_active st) \<or> ((r_limit_reached r \<and> r_max_id r < max_id q) \<and> fc = (ag_next_fut st,
        \<lparr>pc_node = n, pc_query = next_page_query q r, pc_req_id = ag_next_req st\<rparr>))"
      using that by (auto simp: split split: if_splits)
    then show ?thesis using calls new by blast
  qed
  moreover have "collected q (cluster_name m) s"
    if "map_of (ag_accum (follow_pages q n r st)) m = Some s" "cluster_name m \<notin> set (active_clusters (follow_pages q n r st))" for m s
    using that I(7) coll only by (auto simp: accum acts split: if_splits)
  ultimately show "read_inv q {} (follow_pages q n r st)"
    using dist futs track unfolding read_inv_def by blast
qed

text \<open>One completed call keeps the invariant, raises nothing, and leaves less to do.\<close>

definition progressed :: "query_request \<Rightarrow> aggregator \<Rightarrow> aggregator \<Rightarrow> bool" where
  "progressed q st st' \<longleftrightarrow> read_inv q {} st' \<and> work_left q st' < work_left q st \<and>
     set (active_clusters st') \<union> set (accum_clusters st') = set (active_clusters st) \<union> set (accum_clusters st)"

lemma noted_fields [simp]:
  "ag_active (note_metrics i resp s e st) = ag_active st" "ag_tracker (note_metrics i resp s e st) = ag_tracker st"
  "ag_accum (note_metrics i resp s e st) = ag_accum st" "ag_next_fut (note_metrics i resp s e st) = ag_next_fut st"
  "ag_active (note_times s e st) = ag_active st" "ag_tracker (note_times s e st) = ag_tracker st"
  "ag_accum (note_times s e st) = ag_accum st" "ag_next_fut (note_times s e st) = ag_next_fut st"
  by (simp_all add: note_metrics_def note_times_def)

text \<open>The state in which the answer of one active call is handled.\<close>

definition handling :: "nat \<Rightarrow> int \<Rightarrow> response \<Rightarrow> rat \<Rightarrow> rat \<Rightarrow> aggregator \<Rightarrow> aggregator" where
  "handling fut qid resp s e st = note_metrics qid resp s e
     (note_times s e (st\<lparr>ag_active := filter (\<lambda>a. fst a \<noteq> fut) (ag_active st)\<rparr>))"

lemma handling_fields [simp]:
  "ag_active (handling fut qid resp s e st) = filter (\<lambda>a. fst a \<noteq> fut) (ag_active st)"
  "ag_tracker (handling fut qid resp s e st) = ag_tracker st"
  "ag_accum (handling fut qid resp s e st) = ag_accum st"
  "ag_next_fut (handling fut qid resp s e st) = ag_next_fut st"
  "accum_clusters (handling fut qid resp s e st) = accum_clusters st"
  by (simp_all add: handling_def accum_clusters_def)

lemma taken_out:
  fixes qid :: int and resp :: response and s e :: rat
  assumes inv: "read_inv q {} st" and fut: "(fut, call) \<in> set (ag_active st)"
  defines "st0 \<equiv> handling fut qid resp s e st"
  shows "read_inv q {cluster_name (pc_node call)} st0"
    and "set (active_clusters st) = insert (cluster_name (pc_node call)) (set (active_clusters st0))"
    and "cluster_name (pc_node call) \<notin> set (active_clusters st0)"
    and "work_left q st = call_weight q call + work_left q st0"
proof -
  have d: "distinct (map fst (ag_active st))" "distinct (active_clusters st)"
    using inv by (simp_all add: read_inv_def)
  obtain us vs where uv: "ag_active st = us @ (fut, call) # vs" using fut by (meson split_list)
  then have "fut \<notin> set (map fst us)" "fut \<notin> set (map fst vs)" using d(1) by auto
  then have "filter (\<lambda>a. fst a \<noteq> fut) us = us" "filter (\<lambda>a. fst a \<noteq> fut) vs = vs"
    by (auto simp: filter_id_conv)
  then have st0: "ag_active st0 = us @ vs" using uv by (simp add: st0_def)
  show acts: "set (active_clusters st) = insert (cluster_name (pc_node call)) (set (active_clusters st0))"
    using uv st0 by (auto simp: active_clusters_def)
  show "cluster_name (pc_node call) \<notin> set (active_clusters st0)"
    using d(2) uv st0 by (simp add: active_clusters_def)
  show "work_left q st = call_weight q call + work_left q st0"
    using uv st0 by (simp add: work_left_def)
  have same: "ag_tracker st0 = ag_tracker st" "ag_accum st0 = ag_accum st" "ag_next_fut st0 = ag_next_fut st"
    "accum_clusters st0 = accum_clusters st" by (simp_all add: st0_def)
  have calls: "call_ok q st0 fc = call_ok q st fc" for fc by (simp only: call_ok_def same)
  have "distinct (map fst (ag_active st0))" "distinct (active_clusters st0)" "set (ag_active st0) \<subseteq> set (ag_active st)"
    using d uv st0 by (auto simp: active_clusters_def)
  then show "read_inv q {cluster_name (pc_node call)} st0"
    using inv acts unfolding read_inv_def same calls by auto
qed

lemma read_step_served:
  assumes inv: "read_inv q {} st" and fut: "(fut, call) \<in> set (ag_active st)"
    and ok: "call_served answers call outcome"
  shows "\<exists>st'. read_step q st (fut, outcome) = Inr st' \<and> progressed q st st'"
proof -
  let ?c = "cluster_name (pc_node call)"
  obtain n resp s e where o: "outcome = Inr (n, resp, s, e)" "cluster_name n = ?c"
    "answers ?c (pc_query call) (pc_req_id call) resp"
    using ok by (auto simp: call_served_def split: sum.splits)
  define st0 where "st0 = handling fut (query_id q) resp s e st"
  note out = taken_out [OF inv fut, of "query_id q" resp s e, folded st0_def]
  note page = answer_page [OF o(3)]
  have same: "ag_tracker st0 = ag_tracker st" "ag_accum st0 = ag_accum st" "accum_clusters st0 = accum_clusters st"
    by (simp_all add: st0_def)
  have call: "call_ok q st (fut, call)" using inv fut by (auto simp: read_inv_def)
  show ?thesis
  proof (cases "map_of (ag_tracker st) fut")
    case None
    then have c: "pc_query call = q" "?c \<notin> set (accum_clusters st)" using call by (simp_all add: call_ok_def)
    have fresh: "fresh_enough q (cluster_name n) resp" using answer_fresh [OF o(3)] c(1) o(2) by simp
    have n: "cluster_name n \<notin> set (active_clusters st0)"
      "n \<in> set (dict_keys (ag_accum st0)) \<or> cluster_name n \<notin> set (accum_clusters st0)"
      using out(3) c(2) o(2) same by simp_all
    note f = follow_pages_inv [OF out(1) [folded o(2)] n fresh]
    have "read_step q st (fut, outcome) = Inr (follow_pages q n resp st0)"
      using None o(1) page c(1)
      by (cases "r_limit_reached resp") (simp_all add: read_step_def initial_done_def st0_def handling_def Let_def)
    moreover have "progressed q st (follow_pages q n resp st0)"
      using f out(2,4) same o(2) page c(1) by (auto simp: progressed_def call_weight_def)
    ultimately show ?thesis by blast
  next
    case (Some ni)
    obtain m i where ni: "ni = (m, i)" by (cases ni)
    obtain acc where acc: "pc_node call = m" "pc_req_id call = i" "map_of (ag_accum st) m = Some acc"
      "pc_query call = next_page_query q acc" "partly q ?c acc"
      using call Some ni by (auto simp: call_ok_def)
    have i: "r_req_id resp = i" using answer_req [OF o(3)] acc(2) by simp
    have lo: "min_id (pc_query call) = r_max_id acc + 1" "max_id (pc_query call) = max_id q"
      using acc(4) by (simp_all add: next_page_query_def)
    let ?r = "append_page acc resp"
    have fresh: "fresh_enough q (cluster_name m) ?r"
      using append_fresh [OF acc(5), of "pc_req_id call" resp] o(3) acc(1,4) by simp
    have m: "m \<in> set (dict_keys (ag_accum st0)) \<or> cluster_name m \<notin> set (accum_clusters st0)"
      using acc(3) same map_of_SomeD by force
    have cm: "cluster_name m \<notin> set (active_clusters st0)" using out(3) acc(1) by simp
    note f = follow_pages_inv [OF out(1) [unfolded acc(1)] cm m fresh]
    have "read_step q st (fut, outcome) = Inr (follow_pages q m ?r st0)"
      using Some ni o(1) page i acc(3) lo
      by (auto simp: read_step_def page_done_def st0_def handling_def Let_def dict_index_def)
    moreover have "progressed q st (follow_pages q m ?r st0)"
      using f out(2,4) same acc(1) page lo by (auto simp: progressed_def call_weight_def append_page_def)
    ultimately show ?thesis by blast
  qed
qed

text \<open>A whole run.\<close>

lemma read_run_served:
  assumes "read_inv q {} st" and "served (call_served answers) q st evs"
  shows "\<exists>st'. read_run q st evs = Inr st' \<and> read_inv q {} st' \<and> length evs + work_left q st' \<le> work_left q st \<and>
    set (active_clusters st') \<union> set (accum_clusters st') = set (active_clusters st) \<union> set (accum_clusters st)"
  using assms
proof (induction evs arbitrary: st)
  case Nil
  then show ?case by simp
next
  case (Cons ev evs)
  obtain fut outcome where ev: "ev = (fut, outcome)" by (cases ev)
  obtain call where call: "map_of (ag_active st) fut = Some call" "call_served answers call outcome"
    using Cons.prems(2) ev by (auto split: option.splits)
  from read_step_served [OF Cons.prems(1) map_of_SomeD [OF call(1)] call(2)] obtain st1 where
    st1: "read_step q st (fut, outcome) = Inr st1" "progressed q st st1" by blast
  have "served (call_served answers) q st1 evs" using Cons.prems(2) ev call(1) st1(1) by simp
  from Cons.IH [OF _ this] obtain st' where "read_run q st1 evs = Inr st'" "read_inv q {} st'"
    "length evs + work_left q st' \<le> work_left q st1"
    "set (active_clusters st') \<union> set (accum_clusters st') = set (active_clusters st1) \<union> set (accum_clusters st1)"
    using st1(2) by (auto simp: progressed_def)
  moreover have "fut \<in> set (map fst (ag_active st))" using map_of_SomeD [OF call(1)] by force
  ultimately show ?case using st1 ev by (intro exI [of _ st']) (simp add: progressed_def)
qed

lemma read_start_inv:
  assumes "distinct (map cluster_name nodes)"
  shows "read_inv q {} (read_start q nodes i)"
    and "active_clusters (read_start q nodes i) = map cluster_name nodes"
    and "work_left q (read_start q nodes i) = length nodes * Suc (nat (max_id q - min_id q + 1))"
proof -
  let ?calls = "map (\<lambda>n. \<lparr>pc_node = n, pc_query = q, pc_req_id = i\<rparr>) nodes"
  have "map (\<lambda>(fut, call). cluster_name (pc_node call)) (enumerate k ?calls) = map cluster_name nodes" for k
    by (induction nodes arbitrary: k) auto
  then show acts: "active_clusters (read_start q nodes i) = map cluster_name nodes"
    by (simp add: active_clusters_def read_start_def)
  have "sum_list (map (\<lambda>(fut, call). call_weight q call) (enumerate k ?calls)) =
      length nodes * Suc (nat (max_id q - min_id q + 1))" for k
    by (induction nodes arbitrary: k) (auto simp: call_weight_def)
  then show "work_left q (read_start q nodes i) = length nodes * Suc (nat (max_id q - min_id q + 1))"
    by (simp add: work_left_def read_start_def)
  have "pc_query (snd fc) = q" if "fc \<in> set (enumerate k ?calls)" for fc k
    using that by (induction nodes arbitrary: k) auto
  then have calls: "\<forall>fc \<in> set (ag_active (read_start q nodes i)). call_ok q (read_start q nodes i) fc"
    by (auto simp: call_ok_def read_start_def accum_clusters_def)
  have "map fst (ag_active (read_start q nodes i)) = [0..<length nodes]" by (simp add: read_start_def)
  then have futs: "distinct (map fst (ag_active (read_start q nodes i)))"
    "\<forall>f \<in> set (map fst (ag_active (read_start q nodes i))). f < ag_next_fut (read_start q nodes i)"
    by (simp_all only: distinct_upt) (simp add: read_start_def)
  show "read_inv q {} (read_start q nodes i)"
    using assms acts calls futs unfolding read_inv_def
    by (simp add: accum_clusters_def) (simp add: read_start_def)
qed

lemma read_collects:
  assumes "distinct (map cluster_name nodes)" and "served (call_served answers) q (read_start q nodes i) evs"
  shows "\<exists>st'. read_run q (read_start q nodes i) evs = Inr st' \<and>
    length evs \<le> length nodes * Suc (nat (max_id q - min_id q + 1)) \<and>
    (ag_active st' = [] \<longrightarrow> set (accum_clusters st') = cluster_name ` set nodes \<and> distinct (accum_clusters st') \<and>
      (\<forall>n r. map_of (ag_accum st') n = Some r \<longrightarrow>
         r_records r = stored (cluster_name n) (min_id q) (max_id q) \<and> \<not> r_limit_reached r))"
proof -
  note start = read_start_inv [OF assms(1), of q i]
  from read_run_served [OF start(1) assms(2)] obtain st' where
    st': "read_run q (read_start q nodes i) evs = Inr st'" "read_inv q {} st'"
    "length evs + work_left q st' \<le> work_left q (read_start q nodes i)"
    "set (active_clusters st') \<union> set (accum_clusters st') =
      set (active_clusters (read_start q nodes i)) \<union> set (accum_clusters (read_start q nodes i))" by blast
  have "accum_clusters (read_start q nodes i) = []" by (simp add: accum_clusters_def read_start_def)
  then have all: "set (active_clusters st') \<union> set (accum_clusters st') = cluster_name ` set nodes"
    using st'(4) start(2) by (metis list.set_map list.set(1) Un_empty_right)
  have none: "active_clusters st' = []" if "ag_active st' = []" using that by (simp add: active_clusters_def)
  show ?thesis using st'(1,2,3) start(3) all none
    by (intro exI [of _ st']) (auto simp: read_inv_def collected_def)
qed

end

end
