(* ===== verification/Batch_Props.thy ===== *)
theory Batch_Props
  imports Batch_Grouping Read_Props
begin

text \<open>
  The aggregator of \<open>read_batch\<close> under the contract of \<^theory_text>\<open>page_server\<close>: as long as no two
  sub-batches of the call are answered by the same node, it collects for every query of every sub-batch
  every stored record of its interval, in whatever order sub-batches and pages complete, and it ends.
\<close>

section \<open>Runs that are served\<close>

definition job_served ::
  "(string \<Rightarrow> query_request \<Rightarrow> int \<Rightarrow> response \<Rightarrow> bool) \<Rightarrow> batch_aggregator \<Rightarrow> job \<Rightarrow> job_outcome res \<Rightarrow> bool" where
  "job_served answers st job outcome = (case (job, outcome) of
     (BatchJob call, Inr (BatchOut n rs s e)) \<Rightarrow>
       cluster_name n = cluster_name (bc_node call) \<and> n \<notin> set (dict_keys (bg_accum st)) \<and>
       length rs = length (bc_pairs call) \<and>
       (\<forall>i < length rs. \<exists>r. rs ! i = Some r \<and>
          answers (cluster_name n) (snd (bc_pairs call ! i)) (bc_req_ids call ! i) r)
   | (PageJob call, Inr (PageOut n r s e)) \<Rightarrow>
       cluster_name n = cluster_name (pc_node call) \<and> answers (cluster_name n) (pc_query call) (pc_req_id call) r
   | _ \<Rightarrow> False)"

fun batch_served ::
  "(batch_aggregator \<Rightarrow> job \<Rightarrow> job_outcome res \<Rightarrow> bool) \<Rightarrow> query_request list \<Rightarrow> batch_aggregator \<Rightarrow>
     (nat \<times> job_outcome res) list \<Rightarrow> bool" where
  "batch_served ok queries st [] = True"
| "batch_served ok queries st ((fut, outcome) # evs) =
     (case map_of (bg_active st) fut of None \<Rightarrow> False
      | Some job \<Rightarrow> ok st job outcome \<and>
          (case batch_step queries st (fut, outcome) of Inl e \<Rightarrow> True | Inr st' \<Rightarrow> batch_served ok queries st' evs))"

definition keys_of :: "query_request \<Rightarrow> nat" where
  "keys_of q = nat (max_id q - min_id q + 1)"

fun job_weight :: "job \<Rightarrow> nat" where
  "job_weight (BatchJob call) = Suc (\<Sum>p \<leftarrow> bc_pairs call. keys_of (snd p))"
| "job_weight (PageJob call) = Suc (keys_of (pc_query call))"

definition batch_work :: "batch_aggregator \<Rightarrow> nat" where
  "batch_work st = (\<Sum>a \<leftarrow> bg_active st. job_weight (snd a))"

text \<open>The entry and the list position a page future stands for.\<close>

definition entry_at :: "batch_aggregator \<Rightarrow> node \<Rightarrow> nat \<Rightarrow> response \<Rightarrow> bool" where
  "entry_at st n idx r \<longleftrightarrow> (\<exists>es. map_of (bg_accum st) n = Some es \<and> idx < length es \<and> es ! idx = Some r)"

definition page_pos :: "batch_aggregator \<Rightarrow> nat \<Rightarrow> (node \<times> nat) option" where
  "page_pos st f = map_option (\<lambda>(n, idx, oi, i). (n, idx)) (map_of (bg_tracker st) f)"

abbreviation active_futs :: "batch_aggregator \<Rightarrow> nat set" where
  "active_futs st \<equiv> fst ` set (bg_active st)"

text \<open>Futures are numbered apart; a sub-batch keeps its number, a page has one past them.\<close>

definition futures_ok :: "batch_call list \<Rightarrow> batch_aggregator \<Rightarrow> bool" where
  "futures_ok calls st \<longleftrightarrow> distinct (map fst (bg_active st)) \<and> (\<forall>f \<in> active_futs st. f < bg_next_fut st) \<and>
     length calls \<le> bg_next_fut st \<and>
     (\<forall>f \<in> fst ` set (bg_tracker st). length calls \<le> f \<and> f < bg_next_fut st) \<and>
     (bg_tracker st \<noteq> [] \<longrightarrow> bg_orig_query st \<noteq> None) \<and>
     (\<forall>k < length calls. map_of (bg_info st) k = Some (bc_pairs (calls ! k))) \<and>
     (\<forall>f \<in> active_futs st. \<forall>g \<in> active_futs st. page_pos st f \<noteq> None \<longrightarrow> page_pos st f = page_pos st g \<longrightarrow> f = g)"

text \<open>\<open>A\<close> names the node that answered each sub-batch so far.\<close>

definition answered_by :: "batch_call list \<Rightarrow> (nat \<Rightarrow> node option) \<Rightarrow> batch_aggregator \<Rightarrow> bool" where
  "answered_by calls A st \<longleftrightarrow> dom A \<subseteq> {..<length calls} \<and> inj_on A (dom A) \<and>
     ran A = fst ` set (bg_accum st) \<and> dict_ok (bg_accum st) \<and>
     (\<forall>k < length calls. A k = None \<longrightarrow> k \<in> active_futs st) \<and>
     (\<forall>k n. A k = Some n \<longrightarrow> cluster_name n = cluster_name (bc_node (calls ! k)) \<and>
        (\<exists>es. map_of (bg_accum st) n = Some es \<and> length es = length (bc_pairs (calls ! k))))"

section \<open>One answer that is settled\<close>

abbreviation page_follows :: "query_request \<Rightarrow> response \<Rightarrow> bool" where
  "page_follows q r \<equiv> r_limit_reached r \<and> r_max_id r < max_id q"

text \<open>The entry an answer leaves: its limit flag stays only while a page follows.\<close>

definition settled :: "query_request \<Rightarrow> response \<Rightarrow> response" where
  "settled q r = (if page_follows q r then r else r\<lparr>r_limit_reached := False\<rparr>)"

lemma follow_fields:
  "bg_active (batch_follow_pages n idx oi q r st) = bg_active st @ (if page_follows q r
     then [(bg_next_fut st, PageJob \<lparr>pc_node = n, pc_query = next_page_query q r, pc_req_id = bg_next_req st\<rparr>)] else [])"
  "bg_tracker (batch_follow_pages n idx oi q r st) = (if page_follows q r
     then AList.update (bg_next_fut st) (n, idx, oi, bg_next_req st) (bg_tracker st) else bg_tracker st)"
  "bg_info (batch_follow_pages n idx oi q r st) = bg_info st"
  "bg_orig_query (batch_follow_pages n idx oi q r st) = bg_orig_query st"
  "bg_next_fut (batch_follow_pages n idx oi q r st) =
     (if page_follows q r then Suc (bg_next_fut st) else bg_next_fut st)"
  "bg_accum (batch_follow_pages n idx oi q r st) =
     AList.update n ((dict_get_default (bg_accum st) n [])[idx := Some (settled q r)]) (bg_accum st)"
  by (simp_all add: batch_follow_pages_def set_entry_def settled_def)

lemma follow_acts:
  "active_futs (batch_follow_pages n idx oi q r st) =
     active_futs st \<union> (if page_follows q r then {bg_next_fut st} else {})"
  by (auto simp: follow_fields)

lemma follow_pos:
  "page_pos (batch_follow_pages n idx oi q r st) f =
     (if page_follows q r \<and> f = bg_next_fut st then Some (n, idx) else page_pos st f)"
  by (simp add: page_pos_def follow_fields update_conv)

lemma follow_work:
  "batch_work (batch_follow_pages n idx oi q r st) = batch_work st +
     (if page_follows q r then Suc (nat (max_id q - r_max_id r)) else 0)"
  by (simp add: batch_work_def follow_fields keys_of_def next_page_query_def)

lemma answered_entries:
  assumes "answered_by calls A st" and "A k = Some n"
  obtains es where "map_of (bg_accum st) n = Some es" "length es = length (bc_pairs (calls ! k))"
  using assms unfolding answered_by_def by blast

lemma follow_accum:
  assumes "map_of (bg_accum st) n = Some es" and "idx < length es"
  shows "map_of (bg_accum (batch_follow_pages n idx oi q r st)) m =
      (if m = n then Some (es[idx := Some (settled q r)]) else map_of (bg_accum st) m)"
    and "entry_at (batch_follow_pages n idx oi q r st) m j s \<longleftrightarrow>
      (if (m, j) = (n, idx) then s = settled q r else entry_at st m j s)"
  using assms by (auto simp: entry_at_def follow_fields update_conv dict_get_default_def nth_list_update)

lemma fresh_fut: "futures_ok calls st \<Longrightarrow> bg_next_fut st \<notin> active_futs st"
  by (auto simp: futures_ok_def)

lemma follow_positions:
  assumes F: "futures_ok calls st" and free: "\<And>f. f \<in> active_futs st \<Longrightarrow> page_pos st f \<noteq> Some (n, idx)"
    and f: "f \<in> active_futs (batch_follow_pages n idx oi q r st)" and g: "g \<in> active_futs (batch_follow_pages n idx oi q r st)"
    and p: "page_pos (batch_follow_pages n idx oi q r st) f \<noteq> None"
    and e: "page_pos (batch_follow_pages n idx oi q r st) f = page_pos (batch_follow_pages n idx oi q r st) g"
  shows "f = g"
proof (cases "f = bg_next_fut st \<longleftrightarrow> g = bg_next_fut st")
  case True
  have old: "f = g" if "f \<in> active_futs st" "g \<in> active_futs st" "page_pos st f \<noteq> None" "page_pos st f = page_pos st g" for f g
    using F that unfolding futures_ok_def by blast
  show ?thesis
  proof (cases "f = bg_next_fut st")
    case False
    then have "f \<in> active_futs st" "g \<in> active_futs st" using f g True unfolding follow_acts by (auto split: if_splits)
    then show ?thesis using old p e False True by (simp add: follow_pos)
  qed (use True in simp)
next
  case False
  have mem: "x \<in> active_futs (batch_follow_pages n idx oi q r st) \<Longrightarrow> x \<noteq> bg_next_fut st \<Longrightarrow> x \<in> active_futs st"
    "bg_next_fut st \<in> active_futs (batch_follow_pages n idx oi q r st) \<Longrightarrow> page_follows q r" for x
    using fresh_fut [OF F] unfolding follow_acts by (simp_all split: if_splits)
  then show ?thesis using f g e free False follow_pos [of n idx oi q r st] by metis
qed

lemma futures_ok_follow:
  assumes F: "futures_ok calls st" and free: "\<And>f. f \<in> active_futs st \<Longrightarrow> page_pos st f \<noteq> Some (n, idx)"
    and orig: "bg_orig_query st \<noteq> None"
  shows "futures_ok calls (batch_follow_pages n idx oi q r st)"
proof -
  let ?st = "batch_follow_pages n idx oi q r st"
  have inj: "\<forall>f \<in> active_futs ?st. \<forall>g \<in> active_futs ?st. page_pos ?st f \<noteq> None \<longrightarrow> page_pos ?st f = page_pos ?st g \<longrightarrow> f = g"
    using follow_positions [OF F free] by blast
  have "distinct (map fst (bg_active ?st))" using F fresh_fut [OF F] by (auto simp: futures_ok_def follow_fields)
  moreover have "\<forall>f \<in> active_futs ?st. f < bg_next_fut ?st" "length calls \<le> bg_next_fut ?st"
    using F by (auto simp: futures_ok_def follow_acts follow_fields(5) less_Suc_eq)
  moreover have "\<forall>f \<in> fst ` set (bg_tracker ?st). length calls \<le> f \<and> f < bg_next_fut ?st"
  proof -
    have "fst ` set (bg_tracker ?st) = fst ` set (bg_tracker st) \<union> (if page_follows q r then {bg_next_fut st} else {})"
      by (simp add: follow_fields dom_update)
    moreover have "\<forall>f \<in> fst ` set (bg_tracker st). length calls \<le> f \<and> f < bg_next_fut st"
      "length calls \<le> bg_next_fut st" using F unfolding futures_ok_def by blast+
    ultimately show ?thesis by (auto simp only: follow_fields(5) Un_iff singleton_iff empty_iff less_Suc_eq split: if_splits)
  qed
  moreover have "\<forall>k < length calls. map_of (bg_info ?st) k = Some (bc_pairs (calls ! k))"
    using F by (simp add: futures_ok_def follow_fields(3))
  ultimately show ?thesis using inj orig unfolding futures_ok_def follow_fields(4) by blast
qed

lemma answered_by_follow:
  assumes B: "answered_by calls A st" and k: "A k = Some n" "idx < length (bc_pairs (calls ! k))"
  shows "answered_by calls A (batch_follow_pages n idx oi q r st)"
proof -
  let ?st = "batch_follow_pages n idx oi q r st"
  obtain es where es: "map_of (bg_accum st) n = Some es" "length es = length (bc_pairs (calls ! k))"
    using B k(1) by (rule answered_entries)
  have keys: "fst ` set (bg_accum ?st) = fst ` set (bg_accum st)"
    using map_of_SomeD [OF es(1)] by (force simp: follow_fields(6) dom_update)
  have "\<exists>es'. map_of (bg_accum ?st) m = Some es' \<and> length es' = length (bc_pairs (calls ! j))" if j: "A j = Some m" for j m
  proof -
    obtain es' where "map_of (bg_accum st) m = Some es'" "length es' = length (bc_pairs (calls ! j))"
      using B j by (rule answered_entries)
    then show ?thesis using es k(2) by (cases "m = n") (simp_all add: follow_accum(1) [OF es(1)])
  qed
  moreover have "dict_ok (bg_accum ?st)" using B by (simp add: answered_by_def follow_fields(6) dict_ok_update)
  moreover have "\<forall>j < length calls. A j = None \<longrightarrow> j \<in> active_futs ?st"
    using B unfolding follow_acts by (simp add: answered_by_def)
  moreover have "dom A \<subseteq> {..<length calls}" "inj_on A (dom A)" "ran A = fst ` set (bg_accum st)"
    "\<forall>k n. A k = Some n \<longrightarrow> cluster_name n = cluster_name (bc_node (calls ! k))"
    using B by (simp_all add: answered_by_def)
  ultimately show ?thesis unfolding answered_by_def keys by simp
qed

lemma sum_list_filter_out:
  "distinct (map fst xs) \<Longrightarrow> (f, x) \<in> set xs \<Longrightarrow>
     sum_list (map g xs) = (g (f, x) :: nat) + sum_list (map g (filter (\<lambda>a. fst a \<noteq> f) xs))"
proof (induction xs)
  case (Cons a xs)
  show ?case
  proof (cases "fst a = f")
    case True
    then have "f \<notin> fst ` set xs" using Cons.prems(1) by simp
    then have "filter (\<lambda>a. fst a \<noteq> f) xs = xs" by (auto simp: filter_id_conv)
    moreover have "a = (f, x)" using True Cons.prems by (cases a) force
    ultimately show ?thesis by simp
  next
    case False
    then show ?thesis using Cons by auto
  qed
qed simp

text \<open>Taking a future out keeps the futures apart.\<close>

lemma futures_ok_filter:
  assumes "futures_ok calls st" and act: "bg_active st' = filter P (bg_active st)"
    and same: "bg_tracker st' = bg_tracker st" "bg_info st' = bg_info st" "bg_next_fut st' = bg_next_fut st"
    and "bg_orig_query st \<noteq> None \<Longrightarrow> bg_orig_query st' \<noteq> None"
  shows "futures_ok calls st'"
proof -
  have sub: "f \<in> active_futs st" if "f \<in> active_futs st'" for f using that by (auto simp: act)
  have p: "page_pos st' = page_pos st" by (intro ext) (simp add: page_pos_def same)
  have "distinct (map fst (bg_active st'))" using assms(1) by (simp add: act futures_ok_def distinct_map_filter)
  moreover have "\<forall>f \<in> active_futs st'. f < bg_next_fut st'"
  proof
    fix f
    assume "f \<in> active_futs st'"
    then have "f \<in> active_futs st" by (rule sub)
    then show "f < bg_next_fut st'" using assms(1) by (simp only: futures_ok_def same simp_thms)
  qed
  moreover have "\<forall>f \<in> active_futs st'. \<forall>g \<in> active_futs st'. page_pos st' f \<noteq> None \<longrightarrow>
      page_pos st' f = page_pos st' g \<longrightarrow> f = g"
  proof (intro ballI impI)
    fix f g
    assume "f \<in> active_futs st'" "g \<in> active_futs st'" "page_pos st' f \<noteq> None" "page_pos st' f = page_pos st' g"
    then have fg: "f \<in> active_futs st" "g \<in> active_futs st" "page_pos st f \<noteq> None" "page_pos st f = page_pos st g"
      using sub unfolding p by (iprover+)
    have "\<forall>f \<in> active_futs st. \<forall>g \<in> active_futs st. page_pos st f \<noteq> None \<longrightarrow> page_pos st f = page_pos st g \<longrightarrow> f = g"
      using assms(1) unfolding futures_ok_def by (elim conjE)
    from this [rule_format, OF fg] show "f = g" .
  qed
  moreover have "length calls \<le> bg_next_fut st" using assms(1) unfolding futures_ok_def by (elim conjE)
  moreover have "\<forall>f \<in> fst ` set (bg_tracker st). length calls \<le> f \<and> f < bg_next_fut st"
    using assms(1) unfolding futures_ok_def by (elim conjE)
  moreover have "\<forall>k < length calls. map_of (bg_info st) k = Some (bc_pairs (calls ! k))"
    using assms(1) unfolding futures_ok_def by (elim conjE)
  moreover have "bg_tracker st \<noteq> [] \<longrightarrow> bg_orig_query st \<noteq> None"
    using assms(1) unfolding futures_ok_def by (elim conjE)
  then have "bg_tracker st \<noteq> [] \<longrightarrow> bg_orig_query st' \<noteq> None" using assms(6) by iprover
  ultimately show ?thesis unfolding futures_ok_def same by (intro conjI)
qed

lemma work_taken_out:
  assumes "futures_ok calls st" and "(fut, job) \<in> set (bg_active st)"
    and "bg_active st' = filter (\<lambda>a. fst a \<noteq> fut) (bg_active st)"
  shows "batch_work st = job_weight job + batch_work st'"
  using sum_list_filter_out [of "bg_active st" fut job "\<lambda>a. job_weight (snd a)"] assms
  by (simp add: batch_work_def futures_ok_def)

lemma sub_batch_no_page:
  assumes "futures_ok calls st" and "fut < length calls"
  shows "page_pos st fut = None"
proof -
  have "fut \<notin> fst ` set (bg_tracker st)" using assms unfolding futures_ok_def by force
  then show ?thesis by (simp add: page_pos_def map_of_eq_None_iff)
qed

lemma answered_by_new:
  assumes B: "answered_by calls A st" and call: "fut < length calls" "A fut = None"
    and n: "cluster_name n = cluster_name (bc_node (calls ! fut))" "n \<notin> set (dict_keys (bg_accum st))"
    and rs: "length rs = length (bc_pairs (calls ! fut))" and new: "map_of (bg_accum st) n = None" "n \<notin> ran A"
    and acts: "active_futs st1 = active_futs st - {fut}" and accum: "bg_accum st1 = AList.update n rs (bg_accum st)"
  shows "answered_by calls (A(fut \<mapsto> n)) st1"
proof -
  let ?A = "A(fut \<mapsto> n)"
  have no: "A k \<noteq> Some n" for k using new(2) by (auto simp: ran_def)
  have "inj_on A (dom A)" using B by (simp add: answered_by_def)
  then have "inj_on ?A (dom ?A)" using no no [symmetric] by (auto simp: inj_on_def)
  moreover have "ran ?A = fst ` set (bg_accum st1)" using B call(2) by (simp add: answered_by_def accum dom_update)
  moreover have "dom ?A \<subseteq> {..<length calls}" "dict_ok (bg_accum st1)"
    using B call(1) by (simp_all add: answered_by_def accum dict_ok_update)
  moreover have "\<forall>k < length calls. ?A k = None \<longrightarrow> k \<in> active_futs st1" using B by (simp add: answered_by_def acts)
  moreover have "cluster_name m = cluster_name (bc_node (calls ! k)) \<and>
      (\<exists>es. map_of (bg_accum st1) m = Some es \<and> length es = length (bc_pairs (calls ! k)))" if "?A k = Some m" for k m
  proof (cases "k = fut")
    case True
    then show ?thesis using that n(1) rs by (simp add: accum update_conv)
  next
    case False
    then have "A k = Some m" using that by simp
    moreover from this have "m \<noteq> n" using no by auto
    ultimately show ?thesis using B by (simp add: answered_by_def accum update_conv)
  qed
  ultimately show ?thesis unfolding answered_by_def by blast
qed

text \<open>The node that answered a sub-batch.\<close>

fun now_answered :: "(nat \<Rightarrow> node option) \<Rightarrow> nat \<Rightarrow> job_outcome res \<Rightarrow> nat \<Rightarrow> node option" where
  "now_answered A fut (Inr (BatchOut n rs s e)) = A(fut \<mapsto> n)"
| "now_answered A fut outcome = A"

context page_server
begin

definition job_ok ::
  "batch_call list \<Rightarrow> (nat \<Rightarrow> node option) \<Rightarrow> (node \<times> nat) set \<Rightarrow> batch_aggregator \<Rightarrow> nat \<Rightarrow> job \<Rightarrow> bool" where
  "job_ok calls A X st f job = (case job of
     BatchJob call \<Rightarrow> f < length calls \<and> calls ! f = call \<and> A f = None
   | PageJob call \<Rightarrow> \<exists>k idx oi q acc. A k = Some (pc_node call) \<and> idx < length (bc_pairs (calls ! k)) \<and>
       bc_pairs (calls ! k) ! idx = (oi, q) \<and>
       map_of (bg_tracker st) f = Some (pc_node call, idx, oi, pc_req_id call) \<and> (pc_node call, idx) \<notin> X \<and>
       entry_at st (pc_node call) idx acc \<and> pc_query call = next_page_query q acc \<and>
       partly q (cluster_name (pc_node call)) acc)"

definition jobs_ok ::
  "batch_call list \<Rightarrow> (nat \<Rightarrow> node option) \<Rightarrow> (node \<times> nat) set \<Rightarrow> batch_aggregator \<Rightarrow> bool" where
  "jobs_ok calls A X st \<longleftrightarrow> (\<forall>(f, job) \<in> set (bg_active st). job_ok calls A X st f job)"

text \<open>Every entry outside \<open>X\<close> is complete, or a page of it is asked for.\<close>

definition entries_ok ::
  "batch_call list \<Rightarrow> (nat \<Rightarrow> node option) \<Rightarrow> (node \<times> nat) set \<Rightarrow> batch_aggregator \<Rightarrow> bool" where
  "entries_ok calls A X st \<longleftrightarrow> (\<forall>k n idx. A k = Some n \<longrightarrow> idx < length (bc_pairs (calls ! k)) \<longrightarrow> (n, idx) \<notin> X \<longrightarrow>
     (\<exists>f \<in> active_futs st. page_pos st f = Some (n, idx)) \<or>
     (\<exists>r. entry_at st n idx r \<and> collected (snd (bc_pairs (calls ! k) ! idx)) (cluster_name n) r))"

definition batch_inv ::
  "batch_call list \<Rightarrow> (nat \<Rightarrow> node option) \<Rightarrow> (node \<times> nat) set \<Rightarrow> batch_aggregator \<Rightarrow> bool" where
  "batch_inv calls A X st \<longleftrightarrow> futures_ok calls st \<and> answered_by calls A st \<and> jobs_ok calls A X st \<and> entries_ok calls A X st"

text \<open>A job stays right while its future and the entries outside \<open>X\<close> stay as they are.\<close>

lemma job_ok_mono:
  assumes "job_ok calls A X st f job" and "map_of (bg_tracker st') f = map_of (bg_tracker st) f"
    and "\<And>m j s. (m, j) \<notin> X \<Longrightarrow> entry_at st m j s \<Longrightarrow> entry_at st' m j s"
    and "\<And>m j. page_pos st f = Some (m, j) \<Longrightarrow> (m, j) \<in> X' \<Longrightarrow> (m, j) \<notin> X \<Longrightarrow> \<not> (\<exists>r. entry_at st m j r)"
    and "\<And>k n. A k = Some n \<Longrightarrow> A' k = Some n" and "A f = None \<Longrightarrow> A' f = None"
  shows "job_ok calls A' X' st' f job"
proof (cases job)
  case (BatchJob call)
  then show ?thesis using assms(1,6) by (simp add: job_ok_def)
next
  case (PageJob call)
  then obtain k idx oi q acc where *: "A k = Some (pc_node call)" "idx < length (bc_pairs (calls ! k))"
    "bc_pairs (calls ! k) ! idx = (oi, q)" "map_of (bg_tracker st) f = Some (pc_node call, idx, oi, pc_req_id call)"
    "(pc_node call, idx) \<notin> X" "entry_at st (pc_node call) idx acc" "pc_query call = next_page_query q acc"
    "partly q (cluster_name (pc_node call)) acc"
    using assms(1) by (auto simp: job_ok_def)
  moreover have "page_pos st f = Some (pc_node call, idx)" using *(4) by (simp add: page_pos_def)
  ultimately have "(pc_node call, idx) \<notin> X'" using assms(4) by blast
  then show ?thesis using * assms(2,3,5) PageJob unfolding job_ok_def by simp blast
qed

lemma entries_ok_mono:
  assumes E: "entries_ok calls A {} st"
    and "\<And>j m i. A' j = Some m \<Longrightarrow> i < length (bc_pairs (calls ! j)) \<Longrightarrow> (m, i) \<notin> X \<Longrightarrow> A j = Some m"
    and "\<And>f m i. f \<in> active_futs st \<Longrightarrow> page_pos st f = Some (m, i) \<Longrightarrow> (m, i) \<notin> X \<Longrightarrow> f \<in> active_futs st'"
    and pos: "page_pos st' = page_pos st" and entry: "\<And>m j r. entry_at st m j r \<Longrightarrow> entry_at st' m j r"
  shows "entries_ok calls A' X st'"
  unfolding entries_ok_def
proof (intro allI impI)
  fix j m i
  assume j: "A' j = Some m" "i < length (bc_pairs (calls ! j))" "(m, i) \<notin> X"
  consider f where "f \<in> active_futs st" "page_pos st f = Some (m, i)"
    | r where "entry_at st m i r" "collected (snd (bc_pairs (calls ! j) ! i)) (cluster_name m) r"
    using E [unfolded entries_ok_def, rule_format, OF assms(2) [OF j] j(2)] by auto
  then show "(\<exists>f \<in> active_futs st'. page_pos st' f = Some (m, i)) \<or>
      (\<exists>r. entry_at st' m i r \<and> collected (snd (bc_pairs (calls ! j) ! i)) (cluster_name m) r)"
  proof cases
    case 1
    then show ?thesis using assms(3) [OF 1 j(3)] unfolding pos by blast
  qed (use entry in blast)
qed

text \<open>Settling an entry: nothing is asked for it before, and it is complete or asked for after.\<close>

lemma position_free:
  assumes F: "futures_ok calls st" and J: "jobs_ok calls A (insert (n, idx) X) st" and f: "f \<in> active_futs st"
  shows "page_pos st f \<noteq> Some (n, idx)"
proof
  assume p: "page_pos st f = Some (n, idx)"
  obtain job where job: "(f, job) \<in> set (bg_active st)" using f by auto
  then have ok: "job_ok calls A (insert (n, idx) X) st f job" using J by (auto simp: jobs_ok_def)
  show False
  proof (cases job)
    case (BatchJob call)
    then have "f < length calls" using ok by (simp add: job_ok_def)
    moreover have "f \<in> fst ` set (bg_tracker st)"
      using p by (auto simp: page_pos_def dest!: map_of_SomeD intro: rev_image_eqI)
    ultimately show False using F by (auto simp: futures_ok_def)
  next
    case (PageJob call)
    then show False using ok p by (auto simp: job_ok_def page_pos_def)
  qed
qed

lemma jobs_ok_follow:
  assumes F: "futures_ok calls st" and J: "jobs_ok calls A (insert (n, idx) X) st" and k: "A k = Some n"
    and es: "map_of (bg_accum st) n = Some es" "idx < length es" "length es = length (bc_pairs (calls ! k))"
    and pq: "bc_pairs (calls ! k) ! idx = (oi, q)" and new: "(n, idx) \<notin> X" and fresh: "fresh_enough q (cluster_name n) r"
  shows "jobs_ok calls A X (batch_follow_pages n idx oi q r st)"
proof -
  let ?st = "batch_follow_pages n idx oi q r st"
  note entry = follow_accum(2) [OF es(1,2)]
  have "job_ok calls A X ?st f job" if f: "(f, job) \<in> set (bg_active st)" for f job
  proof -
    have ok: "job_ok calls A (insert (n, idx) X) st f job" using J f by (auto simp: jobs_ok_def)
    have "f \<noteq> bg_next_fut st" using f fresh_fut [OF F] by force
    then have "map_of (bg_tracker ?st) f = map_of (bg_tracker st) f" by (simp add: follow_fields(2) update_conv)
    then show ?thesis by (rule job_ok_mono [OF ok]) (auto simp: entry new)
  qed
  moreover have "job_ok calls A X ?st (bg_next_fut st) (PageJob
      \<lparr>pc_node = n, pc_query = next_page_query q r, pc_req_id = bg_next_req st\<rparr>)" if "page_follows q r"
    using that k es(2,3) pq new fresh unfolding job_ok_def
    by (auto simp: follow_fields(2) update_conv entry settled_def partly_def fresh_enough_def)
  ultimately show ?thesis by (auto simp: jobs_ok_def follow_fields(1))
qed

lemma entries_ok_follow:
  assumes B: "answered_by calls A st" and E: "entries_ok calls A (insert (n, idx) X) st" and k: "A k = Some n"
    and F: "futures_ok calls st" and es: "map_of (bg_accum st) n = Some es" "idx < length es"
    and pq: "bc_pairs (calls ! k) ! idx = (oi, q)" and fresh: "fresh_enough q (cluster_name n) r"
  shows "entries_ok calls A X (batch_follow_pages n idx oi q r st)"
  unfolding entries_ok_def
proof (intro allI impI)
  let ?st = "batch_follow_pages n idx oi q r st"
  fix j m i
  assume j: "A j = Some m" "i < length (bc_pairs (calls ! j))" "(m, i) \<notin> X"
  note entry = follow_accum(2) [OF es]
  show "(\<exists>f \<in> active_futs ?st. page_pos ?st f = Some (m, i)) \<or>
      (\<exists>s. entry_at ?st m i s \<and> collected (snd (bc_pairs (calls ! j) ! i)) (cluster_name m) s)"
  proof (cases "(m, i) = (n, idx)")
    case here: True
    then have "j = k" using B j(1) k unfolding answered_by_def by (metis domI inj_onD prod.inject)
    show ?thesis
    proof (cases "page_follows q r")
      case True
      then have "page_pos ?st (bg_next_fut st) = Some (m, i)" using here by (simp add: follow_pos)
      moreover have "bg_next_fut st \<in> active_futs ?st" unfolding follow_acts using True by simp
      ultimately show ?thesis by blast
    next
      case False
      then have "collected q (cluster_name n) (settled q r)"
        using fresh by (auto simp: settled_def collected_def fresh_enough_def split: if_splits)
      then show ?thesis using here \<open>j = k\<close> pq by (intro disjI2 exI [of _ "settled q r"]) (simp add: entry)
    qed
  next
    case False
    then have "(m, i) \<notin> insert (n, idx) X" using j(3) by simp
    then consider f where "f \<in> active_futs st" "page_pos st f = Some (m, i)"
      | s where "entry_at st m i s" "collected (snd (bc_pairs (calls ! j) ! i)) (cluster_name m) s"
      using E [unfolded entries_ok_def, rule_format, OF j(1,2)] by blast
    then show ?thesis
    proof cases
      case 1
      then have "f \<noteq> bg_next_fut st" using fresh_fut [OF F] by blast
      then have "page_pos ?st f = Some (m, i)" using 1(2) by (simp add: follow_pos)
      moreover have "f \<in> active_futs ?st" using 1(1) unfolding follow_acts by (rule UnI1)
      ultimately show ?thesis by blast
    next
      case 2
      have "entry_at ?st m i s" using 2(1) by (simp only: entry False if_False)
      then show ?thesis using 2(2) by blast
    qed
  qed
qed

lemma follow_batch_inv:
  assumes inv: "batch_inv calls A (insert (n, idx) X) st" and k: "A k = Some n" "idx < length (bc_pairs (calls ! k))"
    and pq: "bc_pairs (calls ! k) ! idx = (oi, q)" and new: "(n, idx) \<notin> X" and orig: "bg_orig_query st \<noteq> None"
    and fresh: "fresh_enough q (cluster_name n) r"
  shows "batch_inv calls A X (batch_follow_pages n idx oi q r st)"
proof -
  have F: "futures_ok calls st" and B: "answered_by calls A st" and J: "jobs_ok calls A (insert (n, idx) X) st"
    and E: "entries_ok calls A (insert (n, idx) X) st" using inv by (simp_all add: batch_inv_def)
  obtain es where es: "map_of (bg_accum st) n = Some es" "length es = length (bc_pairs (calls ! k))"
    using B k(1) by (rule answered_entries)
  then have len: "idx < length es" using k(2) by simp
  show ?thesis unfolding batch_inv_def
  proof (intro conjI)
    show "futures_ok calls (batch_follow_pages n idx oi q r st)"
      by (rule futures_ok_follow [OF F position_free [OF F J] orig])
    show "answered_by calls A (batch_follow_pages n idx oi q r st)" by (rule answered_by_follow [OF B k])
    show "jobs_ok calls A X (batch_follow_pages n idx oi q r st)"
      by (rule jobs_ok_follow [OF F J k(1) es(1) len es(2) pq new fresh])
    show "entries_ok calls A X (batch_follow_pages n idx oi q r st)"
      by (rule entries_ok_follow [OF B E k(1) F es(1) len pq fresh])
  qed
qed

text \<open>The metrics, the times and the local \<open>orig_query\<close> do not matter to the invariant.\<close>

lemma batch_inv_cong:
  assumes "bg_active st' = bg_active st" and "bg_tracker st' = bg_tracker st" and "bg_info st' = bg_info st"
    and "bg_accum st' = bg_accum st" and "bg_next_fut st' = bg_next_fut st"
    and "bg_orig_query st \<noteq> None \<Longrightarrow> bg_orig_query st' \<noteq> None" and "batch_inv calls A X st"
  shows "batch_inv calls A X st'"
proof -
  have p: "page_pos st' = page_pos st" by (intro ext) (simp add: page_pos_def assms(2))
  have e: "entry_at st' = entry_at st" by (intro ext) (simp add: entry_at_def assms(4))
  have "job_ok calls A X st' = job_ok calls A X st"
    by (intro ext) (simp add: job_ok_def assms(2) e cong: job.case_cong)
  then have "jobs_ok calls A X st' = jobs_ok calls A X st" by (simp only: jobs_ok_def assms(1))
  moreover have "answered_by calls A st' = answered_by calls A st" by (simp only: answered_by_def assms(1,4))
  moreover have "entries_ok calls A X st' = entries_ok calls A X st" by (simp only: entries_ok_def assms(1) p e)
  moreover have "futures_ok calls st \<Longrightarrow> futures_ok calls st'"
    unfolding futures_ok_def assms(1-5) p using assms(6) by blast
  ultimately show ?thesis using assms(7) by (simp add: batch_inv_def)
qed

text \<open>The loop over the answers of a sub-batch: entry \<open>i\<close> on is still to be settled.\<close>

lemma batch_entries_served:
  assumes "batch_inv calls A {(n, j) |j. i \<le> j \<and> j < length (bc_pairs (calls ! k))} st" and "A k = Some n"
    and "i + length rs = length (bc_pairs (calls ! k))"
    and "\<forall>j < length rs. \<exists>r. rs ! j = Some r \<and> answers (cluster_name n) (snd (bc_pairs (calls ! k) ! (i + j))) (ids j) r"
  shows "\<exists>st'. batch_entries n (bc_pairs (calls ! k)) s e i rs st = Inr st' \<and> batch_inv calls A {} st' \<and>
    batch_work st' \<le> batch_work st + (\<Sum>p \<leftarrow> drop i (bc_pairs (calls ! k)). keys_of (snd p))"
  using assms
proof (induction rs arbitrary: i ids st)
  case Nil
  then have X: "{(n, j) |j. i \<le> j \<and> j < length (bc_pairs (calls ! k))} = {}" by auto
  show ?case using Nil.prems(1) unfolding X by simp
next
  case (Cons o1 rs)
  let ?pairs = "bc_pairs (calls ! k)"
  let ?X = "\<lambda>i. {(n, j) |j. i \<le> j \<and> j < length ?pairs}"
  have i: "i < length ?pairs" using Cons.prems(3) by simp
  obtain oi q where pq: "?pairs ! i = (oi, q)" by (cases "?pairs ! i")
  obtain r where r: "o1 = Some r" "answers (cluster_name n) q (ids 0) r" using Cons.prems(4) pq by force
  define st1 where "st1 = batch_note_metrics q r s (case r_recv_ts r of None \<Rightarrow> e | Some t \<Rightarrow> t) (st\<lparr>bg_orig_query := Some q\<rparr>)"
  define st2 where "st2 = batch_follow_pages n i oi q r st1"
  have "?X i = insert (n, i) (?X (Suc i))" using i by (auto simp: le_less Suc_le_eq)
  then have "batch_inv calls A (insert (n, i) (?X (Suc i))) st"
    using Cons.prems(1) by simp
  then have inv1: "batch_inv calls A (insert (n, i) (?X (Suc i))) st1"
    by (rule batch_inv_cong [rotated -1]) (simp_all add: st1_def batch_note_metrics_def)
  have o1: "bg_orig_query st1 \<noteq> None" "batch_work st1 = batch_work st"
    by (simp_all add: st1_def batch_note_metrics_def batch_work_def)
  have new: "(n, i) \<notin> ?X (Suc i)" by simp
  note f = follow_batch_inv [OF inv1 Cons.prems(2) i pq new o1(1) answer_fresh [OF r(2)], folded st2_def]
    follow_work [of n i oi q r st1, folded st2_def]
  note page = answer_page [OF r(2)]
  have step: "batch_entries n ?pairs s e i (o1 # rs) st = batch_entries n ?pairs s e (Suc i) rs st2"
    using i pq r(1) page by (cases "r_limit_reached r") (simp_all add: py_index_def st2_def st1_def Let_def)
  have work2: "batch_work st2 \<le> batch_work st + keys_of q"
    using f(2) o1(2) page by (auto simp: keys_of_def)
  have "\<forall>j < length rs. \<exists>r. rs ! j = Some r \<and> answers (cluster_name n) (snd (?pairs ! (Suc i + j))) (ids (Suc j)) r"
    using Cons.prems(4) by force
  from Cons.IH [OF f(1) Cons.prems(2) _ this] Cons.prems(3) obtain st' where
    "batch_entries n ?pairs s e (Suc i) rs st2 = Inr st'" "batch_inv calls A {} st'"
    "batch_work st' \<le> batch_work st2 + (\<Sum>p \<leftarrow> drop (Suc i) ?pairs. keys_of (snd p))" by auto
  moreover have "drop i ?pairs = (oi, q) # drop (Suc i) ?pairs" using i pq by (metis Cons_nth_drop_Suc)
  ultimately show ?case using step work2 by (intro exI [of _ st']) simp
qed

text \<open>A sub-batch answered by a node that has answered none before: the state in which the loop over
  its answers starts.\<close>

lemma sub_batch_in:
  assumes inv: "batch_inv calls A {} st" and call: "fut < length calls" "A fut = None"
    and n: "cluster_name n = cluster_name (bc_node (calls ! fut))" "n \<notin> set (dict_keys (bg_accum st))"
    and rs: "length rs = length (bc_pairs (calls ! fut))"
    and act: "bg_active st1 = filter (\<lambda>a. fst a \<noteq> fut) (bg_active st)" and accum: "bg_accum st1 = AList.update n rs (bg_accum st)"
    and same: "bg_tracker st1 = bg_tracker st" "bg_info st1 = bg_info st" "bg_next_fut st1 = bg_next_fut st"
      "bg_orig_query st1 = bg_orig_query st"
  shows "batch_inv calls (A(fut \<mapsto> n)) {(n, j) |j. 0 \<le> j \<and> j < length (bc_pairs (calls ! fut))} st1"
    (is "batch_inv calls ?A ?X st1")
proof -
  have F: "futures_ok calls st" and B: "answered_by calls A st" and J: "jobs_ok calls A {} st"
    and E: "entries_ok calls A {} st" using inv by (simp_all add: batch_inv_def)
  have acts: "active_futs st1 = active_futs st - {fut}" by (auto simp: act)
  have nt: "page_pos st fut = None" using F call(1) by (rule sub_batch_no_page)
  have pos: "page_pos st1 = page_pos st" by (intro ext) (simp add: page_pos_def same(1))
  have new: "map_of (bg_accum st) n = None" "n \<notin> ran A" using n(2) B by (auto simp: map_of_eq_None_iff answered_by_def)
  have entry: "entry_at st m j r \<Longrightarrow> entry_at st1 m j r" for m j r
    using new(1) by (auto simp: entry_at_def accum update_conv)
  have "futures_ok calls st1" using F by (rule futures_ok_filter) (simp_all add: same act)
  moreover have "answered_by calls ?A st1" using B call n rs new acts accum by (rule answered_by_new)
  moreover have "jobs_ok calls ?A ?X st1"
  proof -
    have "job_ok calls ?A ?X st1 f job" if f: "(f, job) \<in> set (bg_active st1)" for f job
    proof (rule job_ok_mono)
      show "job_ok calls A {} st f job" using J f by (auto simp: jobs_ok_def act)
      show "map_of (bg_tracker st1) f = map_of (bg_tracker st) f" by (simp add: same(1))
      show "(m, j) \<in> ?X \<Longrightarrow> \<not> (\<exists>r. entry_at st m j r)" for m j using new(1) by (simp add: entry_at_def)
      show "A f = None \<Longrightarrow> ?A f = None" using f by (auto simp: act)
      show "A k = Some m \<Longrightarrow> ?A k = Some m" for k m using call(2) by auto
    qed (rule entry)
    then show ?thesis by (auto simp: jobs_ok_def)
  qed
  moreover have "entries_ok calls ?A ?X st1"
  proof (rule entries_ok_mono [OF E, of ?A ?X])
    show "?A j = Some m \<Longrightarrow> i < length (bc_pairs (calls ! j)) \<Longrightarrow> (m, i) \<notin> ?X \<Longrightarrow> A j = Some m" for j m i
      by (cases "j = fut") auto
    show "f \<in> active_futs st \<Longrightarrow> page_pos st f = Some (m, i) \<Longrightarrow> (m, i) \<notin> ?X \<Longrightarrow> f \<in> active_futs st1" for f m i
      using nt unfolding acts by auto
  qed (simp_all add: pos entry)
  ultimately show ?thesis by (simp add: batch_inv_def)
qed

lemma batch_job_served:
  assumes inv: "batch_inv calls A {} st" and fut: "map_of (bg_active st) fut = Some (BatchJob call)"
    and ok: "job_served answers st (BatchJob call) outcome"
  shows "\<exists>st'. batch_step queries st (fut, outcome) = Inr st' \<and> batch_inv calls (now_answered A fut outcome) {} st' \<and>
    batch_work st' < batch_work st"
proof -
  obtain n rs s e where o: "outcome = Inr (BatchOut n rs s e)"
    using ok by (auto simp: job_served_def split: sum.splits job_outcome.splits)
  have n: "cluster_name n = cluster_name (bc_node call)" "n \<notin> set (dict_keys (bg_accum st))"
    and rs: "length rs = length (bc_pairs call)" "\<forall>i < length rs. \<exists>r. rs ! i = Some r \<and>
      answers (cluster_name n) (snd (bc_pairs call ! i)) (bc_req_ids call ! i) r"
    using ok unfolding job_served_def o prod.case job.case sum.case job_outcome.case by blast+
  have F: "futures_ok calls st" and J: "jobs_ok calls A {} st" using inv by (simp_all add: batch_inv_def)
  have mem: "(fut, BatchJob call) \<in> set (bg_active st)" using fut by (rule map_of_SomeD)
  then have call: "fut < length calls" "calls ! fut = call" "A fut = None" using J by (auto simp: jobs_ok_def job_ok_def)
  define act where "act = filter (\<lambda>a. fst a \<noteq> fut) (bg_active st)"
  define st1 where "st1 = (batch_note_times s e (st\<lparr>bg_active := act\<rparr>))\<lparr>bg_accum := AList.update n rs (bg_accum st)\<rparr>"
  have inv1: "batch_inv calls (A(fut \<mapsto> n)) {(n, j) |j. 0 \<le> j \<and> j < length (bc_pairs (calls ! fut))} st1"
    using call n rs(1) by (intro sub_batch_in [OF inv]) (simp_all add: st1_def act_def batch_note_times_def)
  have work: "batch_work st = job_weight (BatchJob call) + batch_work st1"
    using work_taken_out [OF F mem, of st1] by (simp add: st1_def act_def batch_note_times_def)
  have ids: "\<forall>j < length rs. \<exists>r. rs ! j = Some r \<and>
      answers (cluster_name n) (snd (bc_pairs (calls ! fut) ! (0 + j))) ((\<lambda>j. bc_req_ids call ! j) j) r"
    using rs(2) call(2) by simp
  from batch_entries_served [OF inv1 _ _ ids, of s e] call rs(1) obtain st' where
    "batch_entries n (bc_pairs call) s e 0 rs st1 = Inr st'" "batch_inv calls (A(fut \<mapsto> n)) {} st'"
    "batch_work st' \<le> batch_work st1 + (\<Sum>p \<leftarrow> bc_pairs call. keys_of (snd p))" by auto
  moreover have "map_of (bg_tracker st) fut = None"
    using sub_batch_no_page [OF F call(1)] by (simp add: page_pos_def)
  then have "batch_step queries st (fut, outcome) = batch_entries n (bc_pairs call) s e 0 rs st1"
    using F call by (simp add: o batch_step_def st1_def act_def Let_def dict_index_def batch_note_times_def futures_ok_def)
  ultimately show ?thesis using work by (intro exI [of _ st']) (simp add: o)
qed

text \<open>A page of an entry: the state in which it is appended.\<close>

lemma page_in:
  assumes inv: "batch_inv calls A {} st" and mem: "fut \<in> active_futs st" and pf: "page_pos st fut = Some (n, idx)"
    and act: "bg_active st1 = filter (\<lambda>a. fst a \<noteq> fut) (bg_active st)" and orig: "bg_orig_query st1 \<noteq> None"
    and same: "bg_tracker st1 = bg_tracker st" "bg_info st1 = bg_info st" "bg_next_fut st1 = bg_next_fut st"
      "bg_accum st1 = bg_accum st"
  shows "batch_inv calls A (insert (n, idx) {}) st1"
proof -
  have F: "futures_ok calls st" and B: "answered_by calls A st" and J: "jobs_ok calls A {} st"
    and E: "entries_ok calls A {} st" using inv by (simp_all add: batch_inv_def)
  have acts: "active_futs st1 = active_futs st - {fut}" by (auto simp: act)
  have pos: "page_pos st1 = page_pos st" by (intro ext) (simp add: page_pos_def same(1))
  have entry: "entry_at st1 = entry_at st" by (intro ext) (simp add: entry_at_def same(4))
  have only: "f = fut" if "f \<in> active_futs st" "page_pos st f = Some (n, idx)" for f
    using F mem that pf unfolding futures_ok_def by (metis option.distinct(1))
  have "futures_ok calls st1" using F by (rule futures_ok_filter) (simp_all add: same act orig)
  moreover have "\<not> fut < length calls" using sub_batch_no_page [OF F, of fut] pf by auto
  then have "answered_by calls A st1" using B unfolding answered_by_def same(4) acts by auto
  moreover have "jobs_ok calls A {(n, idx)} st1"
  proof -
    have "job_ok calls A {(n, idx)} st1 f job" if f: "(f, job) \<in> set (bg_active st1)" for f job
    proof (rule job_ok_mono)
      show "job_ok calls A {} st f job" using J f by (auto simp: jobs_ok_def act)
      have "f \<in> active_futs st" "f \<noteq> fut" using f by (force simp: act)+
      then show "page_pos st f = Some (m, j) \<Longrightarrow> (m, j) \<in> {(n, idx)} \<Longrightarrow> \<not> (\<exists>r. entry_at st m j r)" for m j
        using only by blast
    qed (simp_all add: same entry)
    then show ?thesis by (auto simp: jobs_ok_def)
  qed
  moreover have "entries_ok calls A {(n, idx)} st1"
  proof (rule entries_ok_mono [OF E, of A "{(n, idx)}"])
    show "f \<in> active_futs st \<Longrightarrow> page_pos st f = Some (m, i) \<Longrightarrow> (m, i) \<notin> {(n, idx)} \<Longrightarrow> f \<in> active_futs st1" for f m i
      using pf unfolding acts by auto
  qed (simp_all add: pos entry)
  ultimately show ?thesis by (simp add: batch_inv_def)
qed

lemma page_job_parts:
  assumes inv: "batch_inv calls A {} st" and mem: "(fut, PageJob call) \<in> set (bg_active st)"
    and queries: "pairs_ok queries calls"
  obtains k idx oi q es acc last_q where "A k = Some (pc_node call)" "idx < length (bc_pairs (calls ! k))"
    "bc_pairs (calls ! k) ! idx = (oi, q)" "map_of (bg_tracker st) fut = Some (pc_node call, idx, oi, pc_req_id call)"
    "map_of (bg_accum st) (pc_node call) = Some es" "idx < length es" "es ! idx = Some acc"
    "pc_query call = next_page_query q acc" "partly q (cluster_name (pc_node call)) acc"
    "oi < length queries" "queries ! oi = q" "bg_orig_query st = Some last_q"
proof -
  have "job_ok calls A {} st fut (PageJob call)" using inv mem by (auto simp: batch_inv_def jobs_ok_def)
  then obtain k idx oi q acc where k: "A k = Some (pc_node call)" "idx < length (bc_pairs (calls ! k))"
    "bc_pairs (calls ! k) ! idx = (oi, q)" and tr: "map_of (bg_tracker st) fut = Some (pc_node call, idx, oi, pc_req_id call)"
    and acc: "entry_at st (pc_node call) idx acc"
    and query: "pc_query call = next_page_query q acc" "partly q (cluster_name (pc_node call)) acc"
    by (auto simp: job_ok_def)
  have "k < length calls" using inv k(1) by (auto simp: batch_inv_def answered_by_def)
  moreover have "(oi, q) \<in> set (bc_pairs (calls ! k))" using k(2,3) by (metis nth_mem)
  ultimately have oi: "oi < length queries" "queries ! oi = q" using queries by (auto simp: pairs_ok_def)
  have "bg_tracker st \<noteq> []" using tr by auto
  then obtain last_q where "bg_orig_query st = Some last_q" using inv by (auto simp: batch_inv_def futures_ok_def)
  then show ?thesis using that k tr acc query oi by (auto simp: entry_at_def)
qed

lemma page_job_served:
  assumes inv: "batch_inv calls A {} st" and fut: "map_of (bg_active st) fut = Some (PageJob call)"
    and ok: "job_served answers st (PageJob call) outcome" and queries: "pairs_ok queries calls"
  shows "\<exists>st'. batch_step queries st (fut, outcome) = Inr st' \<and> batch_inv calls (now_answered A fut outcome) {} st' \<and>
    batch_work st' < batch_work st"
proof -
  obtain n' page s e where o: "outcome = Inr (PageOut n' page s e)"
    using ok by (auto simp: job_served_def split: sum.splits job_outcome.splits)
  define n where "n = pc_node call"
  have ans: "answers (cluster_name n) (pc_query call) (pc_req_id call) page"
    using ok unfolding job_served_def o n_def prod.case job.case sum.case job_outcome.case by metis
  have mem: "(fut, PageJob call) \<in> set (bg_active st)" using fut by (rule map_of_SomeD)
  obtain k idx oi q es acc last_q where k: "A k = Some n" "idx < length (bc_pairs (calls ! k))"
    and pq: "bc_pairs (calls ! k) ! idx = (oi, q)"
    and tr: "map_of (bg_tracker st) fut = Some (n, idx, oi, pc_req_id call)"
    and es: "map_of (bg_accum st) n = Some es" "idx < length es" "es ! idx = Some acc"
    and query: "pc_query call = next_page_query q acc" and part: "partly q (cluster_name n) acc"
    and oi: "oi < length queries" "queries ! oi = q" and last: "bg_orig_query st = Some last_q"
    unfolding n_def using inv mem queries by (rule page_job_parts)
  define st1 where "st1 = (batch_note_metrics last_q page s e (batch_note_times s e
    (st\<lparr>bg_active := filter (\<lambda>a. fst a \<noteq> fut) (bg_active st)\<rparr>)))\<lparr>bg_orig_query := Some q\<rparr>"
  have orig: "bg_orig_query st1 \<noteq> None" by (simp add: st1_def)
  have inv1: "batch_inv calls A (insert (n, idx) {}) st1"
    using mem tr by (intro page_in [OF inv, of fut])
      (force simp: st1_def page_pos_def batch_note_times_def batch_note_metrics_def)+
  have work: "batch_work st = job_weight (PageJob call) + batch_work st1"
    using inv by (intro work_taken_out [OF _ mem, of calls])
      (simp_all add: batch_inv_def st1_def batch_note_times_def batch_note_metrics_def)
  have lo: "min_id (pc_query call) = r_max_id acc + 1" "max_id (pc_query call) = max_id q"
    using query by (simp_all add: next_page_query_def)
  have fresh: "fresh_enough q (cluster_name n) (append_page acc page)"
    using append_fresh [OF part] ans query by simp
  note f = follow_batch_inv [OF inv1 k pq _ orig fresh] follow_work [of n idx oi q "append_page acc page" st1]
  note p = answer_page [OF ans]
  have "batch_step queries st (fut, outcome) = Inr (batch_follow_pages n idx oi q (append_page acc page) st1)"
    using tr last es oi answer_req [OF ans] p lo
    by (auto simp: o batch_step_def batch_page_done_def st1_def Let_def dict_index_def py_index_def
        batch_note_metrics_def batch_note_times_def)
  moreover have "batch_work (batch_follow_pages n idx oi q (append_page acc page) st1) < batch_work st"
    using f(2) work p lo by (auto simp: append_page_def keys_of_def)
  ultimately show ?thesis using f(1) by (simp add: o)
qed

text \<open>One completion, and a whole run.\<close>

lemma batch_step_served:
  assumes inv: "batch_inv calls A {} st" and job: "map_of (bg_active st) fut = Some job"
    and ok: "job_served answers st job outcome" and queries: "pairs_ok queries calls"
  shows "\<exists>st'. batch_step queries st (fut, outcome) = Inr st' \<and> batch_inv calls (now_answered A fut outcome) {} st' \<and>
    batch_work st' < batch_work st"
proof (cases job)
  case (BatchJob call)
  from batch_job_served [OF inv job [unfolded BatchJob] ok [unfolded BatchJob], of queries] show ?thesis by blast
next
  case (PageJob call)
  from page_job_served [OF inv job [unfolded PageJob] ok [unfolded PageJob] queries]
  show ?thesis by blast
qed

lemma batch_run_served:
  assumes "batch_inv calls A {} st" and "batch_served (job_served answers) queries st evs" and "pairs_ok queries calls"
  shows "\<exists>st' A'. batch_run queries st evs = Inr st' \<and> batch_inv calls A' {} st' \<and>
    length evs + batch_work st' \<le> batch_work st"
  using assms
proof (induction evs arbitrary: A st)
  case Nil
  then show ?case by auto
next
  case (Cons ev evs)
  obtain fut outcome where ev: "ev = (fut, outcome)" by (cases ev)
  obtain job where job: "map_of (bg_active st) fut = Some job" "job_served answers st job outcome"
    using Cons.prems(2) ev by (auto split: option.splits)
  from batch_step_served [OF Cons.prems(1) job Cons.prems(3)] obtain st1 where
    st1: "batch_step queries st (fut, outcome) = Inr st1" "batch_inv calls (now_answered A fut outcome) {} st1"
      "batch_work st1 < batch_work st" by blast
  have "batch_served (job_served answers) queries st1 evs" using Cons.prems(2) ev job(1) st1(1) by simp
  from Cons.IH [OF st1(2) this Cons.prems(3)] obtain st' A' where "batch_run queries st1 evs = Inr st'"
    "batch_inv calls A' {} st'" "length evs + batch_work st' \<le> batch_work st1" by blast
  moreover have "fut \<in> set (map fst (bg_active st))" using map_of_SomeD [OF job(1)] by force
  ultimately show ?case using st1 ev by (intro exI [of _ st'] exI [of _ A']) simp
qed

lemma batch_start_inv:
  shows "batch_inv calls Map.empty {} (batch_start calls i)"
    and "batch_work (batch_start calls i) = (\<Sum>c \<leftarrow> calls. job_weight (BatchJob c))"
proof -
  let ?st = "batch_start calls i"
  have keys: "map fst (enumerate 0 xs) = [0..<length xs]" for xs :: "'x list" by simp
  have act: "bg_active ?st = enumerate 0 (map BatchJob calls)" "bg_tracker ?st = []" "bg_accum ?st = []"
    "bg_next_fut ?st = length calls" "bg_info ?st = enumerate 0 (map bc_pairs calls)"
    by (simp_all add: batch_start_def)
  have futs: "active_futs ?st = {..<length calls}"
    unfolding act(1) set_map [symmetric] keys by auto
  have "map_of (bg_info ?st) k = Some (bc_pairs (calls ! k))" if "k < length calls" for k
    using that unfolding act(5) by (intro map_of_is_SomeI) (simp_all add: in_set_enumerate_eq)
  then have info: "\<forall>k < length calls. map_of (bg_info ?st) k = Some (bc_pairs (calls ! k))" by blast
  have "futures_ok calls ?st"
    using info keys [of "map BatchJob calls"] unfolding futures_ok_def futs by (simp add: act page_pos_def)
  moreover have "answered_by calls Map.empty ?st" unfolding answered_by_def futs by (simp add: act)
  moreover have "jobs_ok calls Map.empty {} ?st"
    by (auto simp: jobs_ok_def job_ok_def act in_set_enumerate_eq)
  ultimately show "batch_inv calls Map.empty {} ?st" by (simp add: batch_inv_def entries_ok_def)
  have "(\<Sum>a \<leftarrow> enumerate k (map BatchJob calls). job_weight (snd a)) = (\<Sum>c \<leftarrow> calls. job_weight (BatchJob c))" for k
    by (induction calls arbitrary: k) auto
  then show "batch_work ?st = (\<Sum>c \<leftarrow> calls. job_weight (BatchJob c))" by (simp add: batch_work_def act)
qed

lemma batch_ended:
  assumes "batch_inv calls A {} st" and "bg_active st = []" and k: "k < length calls" and j: "j < length (bc_pairs (calls ! k))"
  shows "\<exists>n r. A k = Some n \<and> cluster_name n = cluster_name (bc_node (calls ! k)) \<and> entry_at st n j r \<and>
    collected (snd (bc_pairs (calls ! k) ! j)) (cluster_name n) r"
proof -
  have B: "answered_by calls A st" and E: "entries_ok calls A {} st" using assms(1) by (simp_all add: batch_inv_def)
  obtain n where n: "A k = Some n" using B assms(2) k by (auto simp: answered_by_def)
  then have "cluster_name n = cluster_name (bc_node (calls ! k))" using B by (simp add: answered_by_def)
  moreover have "\<exists>r. entry_at st n j r \<and> collected (snd (bc_pairs (calls ! k) ! j)) (cluster_name n) r"
    using E [unfolded entries_ok_def, rule_format, OF n j] assms(2) by simp
  ultimately show ?thesis using n by blast
qed

lemma batch_collects:
  assumes "pairs_ok queries calls" and "batch_served (job_served answers) queries (batch_start calls i) evs"
  shows "\<exists>st'. batch_run queries (batch_start calls i) evs = Inr st' \<and>
    length evs \<le> batch_work (batch_start calls i) \<and>
    (bg_active st' = [] \<longrightarrow>
      (\<forall>k < length calls. \<forall>j < length (bc_pairs (calls ! k)). \<exists>n r.
         cluster_name n = cluster_name (bc_node (calls ! k)) \<and> entry_at st' n j r \<and>
         collected (snd (bc_pairs (calls ! k) ! j)) (cluster_name n) r))"
proof -
  from batch_run_served [OF batch_start_inv(1) assms(2,1)] obtain st' A where
    st': "batch_run queries (batch_start calls i) evs = Inr st'" "batch_inv calls A {} st'"
    "length evs + batch_work st' \<le> batch_work (batch_start calls i)" by blast
  moreover have "\<exists>n r. cluster_name n = cluster_name (bc_node (calls ! k)) \<and> entry_at st' n j r \<and>
      collected (snd (bc_pairs (calls ! k) ! j)) (cluster_name n) r"
    if "bg_active st' = []" "k < length calls" "j < length (bc_pairs (calls ! k))" for k j
    using batch_ended [OF st'(2) that] by blast
  ultimately show ?thesis by (intro exI [of _ st']) simp
qed

end

end
