(* ===== verification/Mock_Pages.thy ===== *)
theory Mock_Pages
  imports Batch_Props Query_Props
begin

text \<open>The mock servers of the client tests meet the contract of \<^theory_text>\<open>page_server\<close>.\<close>

section \<open>The mock server as a server of pages\<close>

definition mock_stored :: "string \<Rightarrow> int \<Rightarrow> int \<Rightarrow> db_record list" where
  "mock_stored c lo hi = map mock_rec [lo..hi]"

definition mock_answers :: "string \<Rightarrow> query_request \<Rightarrow> int \<Rightarrow> response \<Rightarrow> bool" where
  "mock_answers c q i r \<longleftrightarrow> (\<exists>t. r = (mock_answer i q False)\<lparr>r_recv_ts := t\<rparr>)"

lemma upto_map: "map (\<lambda>i. lo + int i) [0..<n] = [lo..lo + int n - 1]"
proof (induction n)
  case (Suc n)
  have "[lo..lo + int (Suc n) - 1] = [lo..lo + int n - 1] @ [lo + int n]"
    using upto_rec2 [of lo "lo + int n"] by simp
  then show ?case using Suc by simp
qed simp

lemma mock_keys_upto: "mock_keys lo hi = [lo..min hi (lo + 9)]"
proof (cases "lo \<le> hi")
  case True
  then have "lo + int (nat (min 10 (max 0 (hi - lo + 1)))) - 1 = min hi (lo + 9)" by auto
  then show ?thesis by (simp only: mock_keys_def upto_map)
qed (simp add: mock_keys_def)

lemma mock_last_eq: "mock_last lo hi = (if lo \<le> hi then min hi (lo + 9) else lo)"
proof (cases "lo \<le> hi")
  case True
  then have "[lo..min hi (lo + 9)] = [lo..min hi (lo + 9) - 1] @ [min hi (lo + 9)]" by (intro upto_rec2) simp
  then show ?thesis using True by (simp add: mock_last_def mock_keys_upto)
qed (simp add: mock_last_def mock_keys_upto)

lemma upto_split_at: "lo \<le> m + 1 \<Longrightarrow> m \<le> hi \<Longrightarrow> [lo..hi] = [lo..m] @ [m + 1..hi]"
proof (cases "m < hi")
  case True
  assume "lo \<le> m + 1"
  then show ?thesis using upto_split2 [of lo m hi] True by (cases "lo = m + 1") auto
qed simp

interpretation mock_pages: page_server mock_stored mock_answers
proof unfold_locales
  fix lo m hi :: int and c
  show "lo \<le> m + 1 \<Longrightarrow> m \<le> hi \<Longrightarrow> mock_stored c lo hi = mock_stored c lo m @ mock_stored c (m + 1) hi"
    by (simp add: mock_stored_def upto_split_at [of lo m hi])
next
  fix c q i r
  assume r: "mock_answers c q i r"
  show "r_req_id r = i" using r by (auto simp: mock_answers_def mock_answer_def Let_def)
  show "\<not> r_limit_reached r \<Longrightarrow> r_records r = mock_stored c (min_id q) (max_id q)"
    using r by (auto simp: mock_answers_def mock_answer_def Let_def mock_keys_upto mock_last_eq mock_stored_def
        min_def split: if_splits)
  show "r_limit_reached r \<Longrightarrow> r_records_count r \<noteq> 0 \<and> min_id q \<le> r_max_id r \<and> r_max_id r \<le> max_id q \<and>
      r_records r = mock_stored c (min_id q) (r_max_id r)"
    using r by (auto simp: mock_answers_def mock_answer_def Let_def mock_keys_upto mock_last_eq mock_stored_def
        min_def split: if_splits)
qed

end
