(* ===== verification/Read_Theorems.thy ===== *)
theory Read_Theorems
  imports Mock_Pages
begin

text \<open>
  The aggregator of \<open>read\<close> over the mock servers, which meet the contract of
  \<^theory_text>\<open>page_server\<close>, and over servers that do not.
\<close>

section \<open>Every page of an interval\<close>

text \<open>
  C10. A read of an interval from nodes of distinct clusters, each answered by mock servers of its
  cluster page by page and with the answers of all clusters interleaved in any order: the aggregator
  raises nothing, ends after at most one answer per key and cluster, and when it ends every cluster
  has exactly one entry, holding every record of the interval once and in key order, with no limit
  flag left.
\<close>

theorem read_collects_every_page:
  assumes "distinct (map cluster_name nodes)"
    and "served (call_served mock_answers) q (read_start q nodes i) evs"
  shows "\<exists>st'. read_run q (read_start q nodes i) evs = Inr st' \<and>
    length evs \<le> length nodes * Suc (nat (max_id q - min_id q + 1)) \<and>
    (ag_active st' = [] \<longrightarrow> set (accum_clusters st') = cluster_name ` set nodes \<and> distinct (accum_clusters st') \<and>
      (\<forall>n r. map_of (ag_accum st') n = Some r \<longrightarrow>
         r_records r = map mock_rec [min_id q..max_id q] \<and> \<not> r_limit_reached r))"
  using mock_pages.read_collects [OF assms] by (simp add: mock_stored_def)

definition page_node :: "string \<Rightarrow> node" where
  "page_node c = \<lparr>cluster_name = c, node_id = 1, host = ''h'', port = 8000\<rparr>"

definition page_query :: "int \<Rightarrow> int \<Rightarrow> query_request" where
  "page_query lo hi = \<lparr>min_id = lo, min_ts = 0, max_id = hi, max_ts = 0, query_id = 77\<rparr>"

definition mock_outcome :: "string \<Rightarrow> int \<Rightarrow> int \<Rightarrow> int \<Rightarrow> page_outcome" where
  "mock_outcome c i lo hi = Inr (page_node c, mock_answer i (page_query lo hi) False, 1, 2)"

text \<open>Two clusters; the second page of \<open>B\<close> is answered before the first page of \<open>A\<close>.\<close>

definition mock_run :: "(nat \<times> page_outcome) list" where
  "mock_run = [(1, mock_outcome ''B'' 5 3 14), (2, mock_outcome ''B'' 6 13 14), (0, mock_outcome ''A'' 5 3 14),
     (3, mock_outcome ''A'' 7 13 14)]"

lemmas mock_run_simps = read_start_def read_step_def initial_done_def page_done_def follow_pages_def
  note_metrics_def note_times_def append_page_def next_page_query_def mock_answer_def mock_last_eq
  mock_keys_upto dict_index_def Let_def

lemma mock_run_served:
  "served (call_served mock_answers) (page_query 3 14)
     (read_start (page_query 3 14) [page_node ''A'', page_node ''B''] 5) mock_run"
  by (simp add: mock_run_def mock_outcome_def call_served_def mock_answers_def page_node_def page_query_def
      mock_run_simps)

lemma mock_run_ends:
  "\<exists>st'. read_run (page_query 3 14) (read_start (page_query 3 14) [page_node ''A'', page_node ''B''] 5) mock_run = Inr st' \<and>
     ag_active st' = [] \<and> \<not> map_of (ag_accum st') (page_node ''B'') = None"
  by (simp add: mock_run_def mock_outcome_def page_node_def page_query_def mock_run_simps)

theorem read_collects_every_page_witness:
  "\<exists>st' resp. read_run (page_query 3 14) (read_start (page_query 3 14) [page_node ''A'', page_node ''B''] 5) mock_run = Inr st' \<and>
     map_of (ag_accum st') (page_node ''B'') = Some resp \<and> r_records resp = map mock_rec [3..14]"
proof -
  have "distinct (map cluster_name [page_node ''A'', page_node ''B''])" by (simp add: page_node_def)
  from read_collects_every_page [OF this mock_run_served] mock_run_ends show ?thesis
    by (auto simp: page_query_def)
qed

section \<open>Servers that cut pages elsewhere\<close>

text \<open>
  A server that holds the records \<open>store\<close> in key order and ends a page after \<open>page_size\<close> of them,
  wherever that falls.
\<close>

definition in_interval :: "query_request \<Rightarrow> db_record \<Rightarrow> bool" where
  "in_interval q r \<longleftrightarrow> 
     (min_id q < key_id r \<or> (min_id q = key_id r \<and> min_ts q \<le> timestamp r)) \<and>
     (key_id r < max_id q \<or> (key_id r = max_id q \<and> timestamp r \<le> max_ts q))"

definition cutting_answer :: "nat \<Rightarrow> db_record list \<Rightarrow> int \<Rightarrow> query_request \<Rightarrow> response" where
  "cutting_answer page_size store i q =
     (let found = filter (in_interval q) store; page = take page_size found;
          top = (if page = [] then (min_id q, min_ts q) else (key_id (last page), timestamp (last page)))
      in \<lparr>r_req_id = i, r_limit_reached = (page_size < length found), r_min_id = min_id q, r_min_ts = min_ts q,
          r_max_id = fst top, r_max_ts = snd top, r_records_bytes = 29 * int (length page),
          r_records_count = int (length page), r_records = page, r_recv_ts = None\<rparr>)"

definition versions :: "db_record list" where
  "versions = [\<lparr>key_id = 5, timestamp = 1, content = CInt 10\<rparr>, \<lparr>key_id = 5, timestamp = 2, content = CInt 11\<rparr>,
     \<lparr>key_id = 6, timestamp = 1, content = CInt 12\<rparr>]"

text \<open>The calls of a run are answered by the first node of their cluster.\<close>

definition cutting_outcome :: "int \<Rightarrow> query_request \<Rightarrow> page_outcome" where
  "cutting_outcome i q = Inr (page_node ''A'', cutting_answer 1 versions i q, 1, 2)"

definition cut_page :: "int \<Rightarrow> bool \<Rightarrow> int \<Rightarrow> db_record \<Rightarrow> response" where
  "cut_page i limit lo r = \<lparr>r_req_id = i, r_limit_reached = limit, r_min_id = lo, r_min_ts = 0, r_max_id = key_id r,
     r_max_ts = timestamp r, r_records_bytes = 29, r_records_count = 1, r_records = [r], r_recv_ts = None\<rparr>"

lemma first_cut_page:
  "cutting_outcome i (page_query 5 9) = Inr (page_node ''A'', cut_page i True 5 (versions ! 0), 1, 2)"
  by (simp add: cutting_outcome_def cutting_answer_def in_interval_def versions_def page_query_def cut_page_def Let_def)

lemma second_cut_page:
  "cutting_outcome i (page_query 6 9) = Inr (page_node ''A'', cut_page i False 6 (versions ! 2), 1, 2)"
  by (simp add: cutting_outcome_def cutting_answer_def in_interval_def versions_def page_query_def cut_page_def Let_def)

lemmas cut_run_simps = read_start_def read_step_def initial_done_def page_done_def follow_pages_def
  note_metrics_def note_times_def append_page_def dict_index_def Let_def cut_page_def

lemma page_query_fields [simp]: "min_id (page_query lo hi) = lo" "max_id (page_query lo hi) = hi"
  by (simp_all add: page_query_def)

lemma versions_keys [simp]: "key_id (versions ! 0) = 5" "key_id (versions ! 2) = 6"
  by (simp_all add: versions_def)


text \<open>A server that answers every page with one record of the same id and the limit flag.\<close>

definition stuck_response :: "int \<Rightarrow> response" where
  "stuck_response i = \<lparr>r_req_id = i, r_limit_reached = True, r_min_id = 5, r_min_ts = 0, r_max_id = 5, r_max_ts = 0,
     r_records_bytes = 29, r_records_count = 1, r_records = [versions ! 0], r_recv_ts = None\<rparr>"

definition stuck_run :: "nat \<Rightarrow> nat \<Rightarrow> (nat \<times> page_outcome) list" where
  "stuck_run j k = map (\<lambda>f. (f, Inr (page_node ''A'', stuck_response (int f + 1), 1, 2))) [j..<j + k]"

definition stuck_state :: "nat \<Rightarrow> aggregator \<Rightarrow> bool" where
  "stuck_state j st \<longleftrightarrow> map fst (ag_active st) = [j] \<and> map_of (ag_tracker st) j = Some (page_node ''A'', int j + 1) \<and>
     ag_next_fut st = Suc j \<and> ag_next_req st = int j + 2 \<and>
     (\<exists>acc. map_of (ag_accum st) (page_node ''A'') = Some acc \<and> r_max_id acc = 5)"

lemma stuck_step:
  assumes "stuck_state j st"
  shows "\<exists>st'. read_step (page_query 5 9) st (j, Inr (page_node ''A'', stuck_response (int j + 1), 1, 2)) = Inr st' \<and>
    stuck_state (Suc j) st'"
proof -
  obtain call where "ag_active st = [(j, call)]" using assms by (auto simp: stuck_state_def)
  then show ?thesis using assms
    by (auto simp: stuck_state_def read_step_def page_done_def follow_pages_def note_metrics_def note_times_def
        append_page_def dict_index_def Let_def stuck_response_def page_query_def update_conv)
qed

lemma stuck_run_from:
  "stuck_state j st \<Longrightarrow> \<exists>st'. read_run (page_query 5 9) st (stuck_run j k) = Inr st' \<and> stuck_state (j + k) st'"
proof (induction k arbitrary: j st)
  case 0
  then show ?case by (simp add: stuck_run_def)
next
  case (Suc k)
  obtain st1 where st1: "read_step (page_query 5 9) st (j, Inr (page_node ''A'', stuck_response (int j + 1), 1, 2)) = Inr st1"
    "stuck_state (Suc j) st1" using stuck_step [OF Suc.prems] by blast
  have "[j..<j + Suc k] = j # [Suc j..<Suc j + k]" by (simp add: upt_conv_Cons del: upt_Suc)
  then have run: "stuck_run j (Suc k) = (j, Inr (page_node ''A'', stuck_response (int j + 1), 1, 2)) # stuck_run (Suc j) k"
    by (simp add: stuck_run_def del: upt_Suc)
  have "j \<in> set (map fst (ag_active st))" using Suc.prems unfolding stuck_state_def by (metis list.set_intros(1))
  then show ?case using Suc.IH [OF st1(2)] st1(1) run by simp
qed

text \<open>
  C38. The guard against a server that makes no progress only refuses an id that goes back: against
  a server that answers every page of ids 5 to 9 with the limit flag and last id 5, the aggregator
  asks for page after page and, whatever their number, still waits for another.
\<close>

theorem repeated_last_id_never_ends:
  "\<exists>st'. read_run (page_query 5 9) (read_start (page_query 5 9) [page_node ''A''] 1) (stuck_run 0 (Suc k)) = Inr st' \<and>
     length (ag_active st') = 1 \<and> ag_next_req st' = int k + 3"
proof -
  let ?st = "read_start (page_query 5 9) [page_node ''A''] 1"
  obtain st1 where st1: "read_step (page_query 5 9) ?st (0, Inr (page_node ''A'', stuck_response 1, 1, 2)) = Inr st1"
    "stuck_state 1 st1"
    by (simp add: stuck_state_def read_start_def read_step_def initial_done_def follow_pages_def note_metrics_def
        note_times_def Let_def stuck_response_def page_query_def)
  have "[0..<0 + Suc k] = 0 # [Suc 0..<Suc 0 + k]" by (simp add: upt_conv_Cons del: upt_Suc)
  then have run: "stuck_run 0 (Suc k) = (0, Inr (page_node ''A'', stuck_response 1, 1, 2)) # stuck_run 1 k"
    by (simp add: stuck_run_def del: upt_Suc)
  obtain st' where "read_run (page_query 5 9) st1 (stuck_run 1 k) = Inr st'" "stuck_state (1 + k) st'"
    using stuck_run_from [OF st1(2)] by blast
  moreover have "0 \<in> set (map fst (ag_active ?st))" by (simp add: read_start_def)
  ultimately show ?thesis using st1(1) run
    by (intro exI [of _ st']) (auto simp: stuck_state_def)
qed

end
