(* ===== verification/Batch_Theorems.thy ===== *)
theory Batch_Theorems
  imports Read_Theorems
begin

text \<open>
  One completion of the aggregator of \<open>read_batch\<close>: what a sub-batch answer and a page leave in the
  results and the metrics. Both have a consequence the code does not intend, shown on a run: the
  query id in the metrics of a page, and the results after a failover between two nodes of one call.
\<close>

definition batch_query :: "int \<Rightarrow> int \<Rightarrow> int \<Rightarrow> query_request" where
  "batch_query qid lo hi = \<lparr>min_id = lo, min_ts = 0, max_id = hi, max_ts = 0, query_id = qid\<rparr>"

definition one_record :: "int \<Rightarrow> bool \<Rightarrow> int \<Rightarrow> response" where
  "one_record i limit k = cut_page i limit k (mock_rec k)"

lemmas batch_run_simps = batch_start_def batch_step_def batch_page_done_def batch_follow_pages_def
  batch_note_metrics_def batch_note_times_def set_entry_def append_page_def dict_index_def Let_def
  py_index_def dict_get_default_def one_record_def cut_page_def mock_rec_def batch_query_def page_node_def
  next_page_query_def

section \<open>The loop over the answers of a sub-batch\<close>

lemma batch_follow_pages_fields [simp]:
  "map_of (bg_accum (batch_follow_pages n idx oi q resp st)) m =
     (if m = n then Some ((dict_get_default (bg_accum st) n [])[idx := Some (settled q resp)])
      else map_of (bg_accum st) m)"
  "bg_metrics (batch_follow_pages n idx oi q resp st) = bg_metrics st"
  "bg_orig_query (batch_follow_pages n idx oi q resp st) = bg_orig_query st"
  by (auto simp: batch_follow_pages_def set_entry_def settled_def update_conv)

lemma batch_note_metrics_fields [simp]:
  "bg_accum (batch_note_metrics q resp s t st) = bg_accum st"
  "bg_orig_query (batch_note_metrics q resp s t st) = bg_orig_query st"
  "map rm_query_id (bg_metrics (batch_note_metrics q resp s t st)) =
     map rm_query_id (bg_metrics st) @ [query_id q]"
  by (simp_all add: batch_note_metrics_def)

lemma list_update_middle: "i = length pre \<Longrightarrow> (pre @ x # xs)[i := y] = (pre @ [y]) @ xs"
  by simp

lemma batch_entries_result:
  assumes "batch_entries n pairs s e i rs st = Inr st'"
    and "map_of (bg_accum st) n = Some (pre @ rs)" and "i = length pre"
  shows "length rs \<le> length pairs - i \<and> None \<notin> set rs \<and>
    map_of (bg_accum st') n = Some (pre @ map (\<lambda>(r, oi, q). Some (settled q (the r))) (zip rs (drop i pairs))) \<and>
    (\<forall>m. m \<noteq> n \<longrightarrow> map_of (bg_accum st') m = map_of (bg_accum st) m) \<and>
    map rm_query_id (bg_metrics st') = map rm_query_id (bg_metrics st) @
      map (\<lambda>(r, oi, q). query_id q) (zip rs (drop i pairs))"
  using assms
proof (induction rs arbitrary: i pre st)
  case Nil
  then show ?case by simp
next
  case (Cons r rs)
  from Cons.prems(1) obtain oi q resp where i: "i < length pairs" and pq: "pairs ! i = (oi, q)"
    and r: "r = Some resp"
    and rest: "batch_entries n pairs s e (Suc i) rs (batch_follow_pages n i oi q resp
       (batch_note_metrics q resp s (case r_recv_ts resp of None \<Rightarrow> e | Some t \<Rightarrow> t)
         (st\<lparr>bg_orig_query := Some q\<rparr>))) = Inr st'"
    by (auto simp: res_simps py_index_def Let_def split: prod.splits option.splits if_splits)
  have acc: "dict_get_default (bg_accum st) n [] = pre @ r # rs"
    using Cons.prems(2) by (simp add: dict_get_default_def)
  have drop: "drop i pairs = (oi, q) # drop (Suc i) pairs" using i pq by (metis Cons_nth_drop_Suc)
  show ?case
    using Cons.IH [OF rest, of "pre @ [Some (settled q resp)]"] Cons.prems(3) acc i r drop
    by (auto simp: list_update_middle)
qed

section \<open>Metrics of pages\<close>

text \<open>Two queries, with ids 100 and 200, asked of one node; only the first needs a second page.\<close>

definition metrics_run :: "(nat \<times> job_outcome res) list" where
  "metrics_run =
     [(0, Inr (BatchOut (page_node ''A'') [Some (one_record 1 True 5), Some (one_record 2 False 7)] 1 2)),
      (1, Inr (PageOut (page_node ''A'') (one_record 3 False 6) 3 4))]"

definition metrics_calls :: "batch_call list" where
  "metrics_calls = [\<lparr>bc_node = page_node ''A'',
     bc_pairs = [(0, batch_query 100 5 6), (1, batch_query 200 7 8)], bc_req_ids = [1, 2]\<rparr>]"

text \<open>
  A completed page of any query: its metrics carry the query id of the entry the aggregator
  handled last - whatever query that was - instead of the query the page belongs to, which the
  same step looks up only afterwards; the records themselves go to the right entry.
\<close>

theorem page_metrics_name_last_query:
  assumes "map_of (bg_tracker st) fut = Some (n, idx, oi, expected)"
    and "batch_step queries st (fut, Inr (PageOut m page s e)) = Inr st'"
  shows "\<exists>last_q acc. bg_orig_query st = Some last_q \<and> r_req_id page = expected \<and>
    bg_metrics st' = bg_metrics st @ [\<lparr>rm_query_id = query_id last_q, rm_req_id = expected,
      rm_send_time_ms = s, rm_recv_time_ms = e, rm_record_count = r_records_count page,
      rm_records_bytes = r_records_bytes page\<rparr>] \<and>
    bg_orig_query st' = Some (queries ! oi) \<and>
    dict_get_default (bg_accum st) n [] ! idx = Some acc \<and>
    dict_get_default (bg_accum st') n [] = (dict_get_default (bg_accum st) n [])
      [idx := Some (settled (queries ! oi) (append_page acc page))]"
proof -
  from assms have p: "batch_page_done queries (n, idx, oi, expected) page s e (batch_note_times s e
      (st\<lparr>bg_active := filter (\<lambda>a. fst a \<noteq> fut) (bg_active st)\<rparr>)) = Inr st'"
    by (simp add: batch_step_def Let_def)
  then obtain last_q entries acc where o: "bg_orig_query st = Some last_q"
    and a: "map_of (bg_accum st) n = Some entries" "idx < length entries" "entries ! idx = Some acc"
    and rest: "oi < length queries" "r_req_id page = expected"
      "st' = batch_follow_pages n idx oi (queries ! oi) (append_page acc page)
        ((batch_note_metrics last_q page s e (batch_note_times s e
          (st\<lparr>bg_active := filter (\<lambda>a. fst a \<noteq> fut) (bg_active st)\<rparr>)))\<lparr>bg_orig_query := Some (queries ! oi)\<rparr>)"
    by (cases "bg_orig_query st"; cases "map_of (bg_accum st) n")
      (auto simp: batch_page_done_def batch_note_times_def Let_def dict_index_def py_index_def
        split: if_splits option.splits)
  have d: "dict_get_default (bg_accum st) n [] = entries" using a(1) by (simp add: dict_get_default_def)
  have d': "dict_get_default (bg_accum (batch_follow_pages n idx oi q resp st0)) n [] =
      (dict_get_default (bg_accum st0) n [])[idx := Some (settled q resp)]" for q resp st0
    by (simp add: dict_get_default_def)
  show ?thesis using o a d rest
    by (intro exI conjI) (simp_all add: d' batch_note_times_def, simp_all add: batch_note_metrics_def)
qed

theorem page_metrics_name_last_query_witness:
  "\<exists>st0 st. batch_run [batch_query 100 5 6, batch_query 200 7 8] (batch_start metrics_calls 3)
       [metrics_run ! 0] = Inr st0 \<and>
     batch_step [batch_query 100 5 6, batch_query 200 7 8] st0 (metrics_run ! 1) = Inr st \<and>
     map_of (bg_tracker st0) 1 = Some (page_node ''A'', 0, 0, 3) \<and>
     map (\<lambda>m. (rm_req_id m, rm_query_id m)) (bg_metrics st) = [(1, 100), (2, 200), (3, 200)]"
proof -
  let ?qs = "[batch_query 100 5 6, batch_query 200 7 8]"
  obtain st0 where st0: "batch_run ?qs (batch_start metrics_calls 3) [metrics_run ! 0] = Inr st0"
    and t: "map_of (bg_tracker st0) 1 = Some (page_node ''A'', 0, 0, 3)"
    and o: "bg_orig_query st0 = Some (batch_query 200 7 8)"
    and m: "map (\<lambda>m. (rm_req_id m, rm_query_id m)) (bg_metrics st0) = [(1, 100), (2, 200)]"
    and ok: "\<exists>st. batch_step ?qs st0 (metrics_run ! 1) = Inr st"
    by (simp add: metrics_run_def metrics_calls_def batch_run_simps)
  obtain st where st: "batch_step ?qs st0 (1, Inr (PageOut (page_node ''A'') (one_record 3 False 6) 3 4)) = Inr st"
    using ok by (auto simp: metrics_run_def)
  from page_metrics_name_last_query [OF t st] o m
  have "map (\<lambda>m. (rm_req_id m, rm_query_id m)) (bg_metrics st) = [(1, 100), (2, 200), (3, 200)]"
    by (auto simp: batch_query_def)
  with st0 t st show ?thesis by (auto simp: metrics_run_def)
qed

section \<open>Failover inside one call\<close>

text \<open>Two queries asked of two nodes of one cluster; the first node is down, and its sub-batch is
  answered by the second.\<close>

definition second_node :: node where
  "second_node = \<lparr>cluster_name = ''A'', node_id = 2, host = ''h'', port = 8100\<rparr>"

definition failover_run :: "(nat \<times> job_outcome res) list" where
  "failover_run =
     [(0, Inr (BatchOut second_node [Some (one_record 1 False 5)] 1 2)),
      (1, Inr (BatchOut second_node [Some (one_record 2 False 7)] 1 2))]"

definition failover_calls :: "batch_call list" where
  "failover_calls = [\<lparr>bc_node = page_node ''A'', bc_pairs = [(0, batch_query 100 5 6)], bc_req_ids = [1]\<rparr>,
     \<lparr>bc_node = second_node, bc_pairs = [(1, batch_query 200 7 8)], bc_req_ids = [2]\<rparr>]"

text \<open>
  A completed sub-batch: the entries of the node that answered become its answers, one per
  query, with the limit flag cleared where no page follows, and each is recorded in the metrics
  under its own query; other nodes keep theirs. Whatever that node had before is gone, so when two
  sub-batches of one call end at the same node the answers of the first are lost without an error.
\<close>

theorem sub_batch_replaces_entries:
  assumes "map_of (bg_tracker st) fut = None" and "map_of (bg_info st) fut = Some pairs"
    and "batch_step queries st (fut, Inr (BatchOut n responses s e)) = Inr st'"
  shows "length responses \<le> length pairs \<and> None \<notin> set responses \<and>
    map_of (bg_accum st') n = Some (map (\<lambda>(r, oi, q). Some (settled q (the r))) (zip responses pairs)) \<and>
    (\<forall>m. m \<noteq> n \<longrightarrow> map_of (bg_accum st') m = map_of (bg_accum st) m) \<and>
    map rm_query_id (bg_metrics st') = map rm_query_id (bg_metrics st) @
      map (\<lambda>(r, oi, q). query_id q) (zip responses pairs)"
proof -
  let ?st = "(batch_note_times s e (st\<lparr>bg_active := filter (\<lambda>a. fst a \<noteq> fut) (bg_active st)\<rparr>))
    \<lparr>bg_accum := AList.update n responses (bg_accum st)\<rparr>"
  from assms have "batch_entries n pairs s e 0 responses ?st = Inr st'"
    by (simp add: batch_step_def Let_def dict_index_def batch_note_times_def)
  from batch_entries_result [OF this, of "[]"] show ?thesis
    by (simp add: update_conv batch_note_times_def)
qed

theorem sub_batch_replaces_entries_witness:
  "\<exists>st0 st. batch_run [batch_query 100 5 6, batch_query 200 7 8] (batch_start failover_calls 3)
       [failover_run ! 0] = Inr st0 \<and>
     batch_step [batch_query 100 5 6, batch_query 200 7 8] st0 (failover_run ! 1) = Inr st \<and>
     map_of (bg_accum st0) second_node = Some [Some (one_record 1 False 5)] \<and>
     map_of (bg_accum st) second_node = Some [Some (one_record 2 False 7)] \<and> bg_active st = []"
proof -
  let ?qs = "[batch_query 100 5 6, batch_query 200 7 8]"
  obtain st0 where st0: "batch_run ?qs (batch_start failover_calls 3) [failover_run ! 0] = Inr st0"
    and t: "map_of (bg_tracker st0) 1 = None"
    and i: "map_of (bg_info st0) 1 = Some [(1, batch_query 200 7 8)]"
    and a: "map_of (bg_accum st0) second_node = Some [Some (one_record 1 False 5)]"
    and ok: "\<exists>st. batch_step ?qs st0 (failover_run ! 1) = Inr st \<and> bg_active st = []"
    by (simp add: failover_run_def failover_calls_def batch_run_simps second_node_def)
  obtain st where st: "batch_step ?qs st0 (1, Inr (BatchOut second_node [Some (one_record 2 False 7)] 1 2)) = Inr st"
    "bg_active st = []"
    using ok by (auto simp: failover_run_def)
  from sub_batch_replaces_entries [OF t i st(1)]
  have "map_of (bg_accum st) second_node = Some [Some (one_record 2 False 7)]"
    by (simp add: settled_def one_record_def cut_page_def)
  with st0 a st show ?thesis by (auto simp: failover_run_def)
qed

section \<open>A whole batch over the mock servers\<close>

text \<open>
  C11. A batch read answered by mock servers, a page at a time and with sub-batches and pages of all
  nodes interleaved in any order, where no two sub-batches are answered by the same node: the
  aggregator raises nothing and ends after at most one completion per sub-batch and per key still
  to read, and when it ends every query has, for every node the router named for it, one entry of a
  node of that cluster that holds every record of the query's interval once and in key order, with
  no limit flag left.
\<close>

theorem batch_read_collects_every_page:
  assumes "batch_submit rt queries c = (Inr (Some st), rt')"
    and "batch_served (job_served mock_answers) queries st evs"
  shows "\<exists>st' nss. batch_run queries st evs = Inr st' \<and> length evs \<le> batch_work st \<and>
    routed rt queries = (Inr nss, rt') \<and> length nss = length queries \<and>
    (bg_active st' = [] \<longrightarrow> (\<forall>i < length queries. \<forall>n \<in> set (nss ! i). \<exists>m j r.
       cluster_name m = cluster_name n \<and> entry_at st' m j r \<and> \<not> r_limit_reached r \<and>
       r_records r = map mock_rec [min_id (queries ! i)..max_id (queries ! i)]))"
proof -
  from assms(1) obtain calls i nss where st: "st = batch_start calls i" and ok: "pairs_ok queries calls"
    and nss: "routed rt queries = (Inr nss, rt')" "length nss = length queries"
    and every: "\<And>i n. i < length queries \<Longrightarrow> n \<in> set (nss ! i) \<Longrightarrow> \<exists>k < length calls.
      \<exists>j < length (bc_pairs (calls ! k)). bc_node (calls ! k) = n \<and> bc_pairs (calls ! k) ! j = (i, queries ! i)"
    by (rule submitted) blast
  from mock_pages.batch_collects [OF ok assms(2) [unfolded st]] obtain st' where
    run: "batch_run queries st evs = Inr st'" "length evs \<le> batch_work st" and
    all: "bg_active st' = [] \<Longrightarrow> k < length calls \<Longrightarrow> j < length (bc_pairs (calls ! k)) \<Longrightarrow> \<exists>n r.
         cluster_name n = cluster_name (bc_node (calls ! k)) \<and> entry_at st' n j r \<and>
         mock_pages.collected (snd (bc_pairs (calls ! k) ! j)) (cluster_name n) r" for k j
    unfolding st by blast
  have "\<exists>m j r. cluster_name m = cluster_name n \<and> entry_at st' m j r \<and> \<not> r_limit_reached r \<and>
      r_records r = map mock_rec [min_id (queries ! i)..max_id (queries ! i)]"
    if e: "bg_active st' = []" and i: "i < length queries" and n: "n \<in> set (nss ! i)" for i n
  proof -
    obtain k j where k: "k < length calls" "j < length (bc_pairs (calls ! k))" "bc_node (calls ! k) = n"
      "bc_pairs (calls ! k) ! j = (i, queries ! i)" using every [OF i n] by blast
    from all [OF e k(1,2)] show ?thesis
      by (auto simp: k mock_pages.collected_def mock_stored_def)
  qed
  then show ?thesis using run nss by blast
qed

text \<open>Two clusters under the leader strategy; ids 3 to 14 take two pages, ids 7 to 8 one. The second
  cluster answers first.\<close>

definition batch_router :: router where
  "batch_router = update_topology (new_router (LeaderRouting new_base))
     [(''A'', [page_node ''A'']), (''B'', [page_node ''B''])]"

definition batch_queries :: "query_request list" where
  "batch_queries = [batch_query 100 3 14, batch_query 200 7 8]"

definition mock_page :: "int \<Rightarrow> query_request \<Rightarrow> response" where
  "mock_page i q = (mock_answer i q False)\<lparr>r_recv_ts := Some 3\<rparr>"

definition batch_events :: "(nat \<times> job_outcome res) list" where
  "batch_events =
     [(1, Inr (BatchOut (page_node ''B'') [Some (mock_page 1 (batch_query 100 3 14)), Some (mock_page 2 (batch_query 200 7 8))] 1 2)),
      (0, Inr (BatchOut (page_node ''A'') [Some (mock_page 1 (batch_query 100 3 14)), Some (mock_page 2 (batch_query 200 7 8))] 1 2)),
      (3, Inr (PageOut (page_node ''A'') (mock_page 4 (batch_query 100 13 14)) 3 4)),
      (2, Inr (PageOut (page_node ''B'') (mock_page 3 (batch_query 100 13 14)) 3 4))]"


definition batch_demo_calls :: "batch_call list" where
  "batch_demo_calls = map (\<lambda>c. \<lparr>bc_node = page_node c,
     bc_pairs = [(0, batch_query 100 3 14), (1, batch_query 200 7 8)], bc_req_ids = [1, 2]\<rparr>) [''A'', ''B'']"

lemmas routing_simps = router_query_def batch_router_def update_topology_def new_router_def leader_query_def
  new_base_def query_every_def add_query_def batch_calls_def empty_registry_def get_leader_def select_follower_def
  followers_of_def leader_or_first_def first_or_none_def

lemma batch_demo_routed:
  "map_sum id (map (map cluster_name)) (fst (routed batch_router batch_queries)) = Inr [[''A'', ''B''], [''A'', ''B'']]"
  by (simp add: routing_simps batch_queries_def page_node_def batch_query_def Let_def)

lemma batch_demo_submitted:
  "\<exists>rt'. batch_submit batch_router batch_queries 1 = (Inr (Some (batch_start batch_demo_calls 3)), rt')"
  by (simp add: routing_simps batch_queries_def batch_demo_calls_def batch_submit_def dict_get_default_def Let_def page_node_def batch_query_def)

lemmas batch_demo_simps = batch_demo_calls_def batch_events_def batch_queries_def mock_page_def mock_answer_def
  mock_last_eq mock_keys_upto

lemma batch_demo_served:
  "batch_served (job_served mock_answers) batch_queries (batch_start batch_demo_calls 3) batch_events"
  by (simp add: batch_demo_simps batch_run_simps job_served_def mock_answers_def All_less_Suc)

lemma batch_demo_ends:
  "\<exists>st'. batch_run batch_queries (batch_start batch_demo_calls 3) batch_events = Inr st' \<and> bg_active st' = []"
  by (simp add: batch_demo_simps batch_run_simps)

theorem batch_read_collects_every_page_witness:
  "\<exists>st' m j r. batch_run batch_queries (batch_start batch_demo_calls 3) batch_events = Inr st' \<and>
     bg_active st' = [] \<and> cluster_name m = ''B'' \<and> entry_at st' m j r \<and> r_records r = map mock_rec [3..14]"
proof -
  obtain rt' where "batch_submit batch_router batch_queries 1 = (Inr (Some (batch_start batch_demo_calls 3)), rt')"
    using batch_demo_submitted by blast
  from batch_read_collects_every_page [OF this batch_demo_served] batch_demo_ends obtain st' nss where
    run: "batch_run batch_queries (batch_start batch_demo_calls 3) batch_events = Inr st'" "bg_active st' = []"
    and nss: "routed batch_router batch_queries = (Inr nss, rt')" and
    all: "\<forall>i < length batch_queries. \<forall>n \<in> set (nss ! i). \<exists>m j r. cluster_name m = cluster_name n \<and>
      entry_at st' m j r \<and> \<not> r_limit_reached r \<and>
      r_records r = map mock_rec [min_id (batch_queries ! i)..max_id (batch_queries ! i)]"
    by auto
  have "map (map cluster_name) nss = [[''A'', ''B''], [''A'', ''B'']]" using batch_demo_routed nss by simp
  then have "''B'' \<in> set (map cluster_name (nss ! 0))" by (cases nss) auto
  then obtain n where "n \<in> set (nss ! 0)" "cluster_name n = ''B''" by auto
  moreover have "0 < length batch_queries" "min_id (batch_queries ! 0) = 3" "max_id (batch_queries ! 0) = 14"
    by (simp_all add: batch_queries_def batch_query_def)
  ultimately show ?thesis using all run by metis
qed

end
