(* ===== verification/Client_Setup.thy ===== *)
theory Client_Setup
  imports Routing_Props Socket_Pool
begin

text \<open>
  How the three programs start (\<open>main\<close> of \<open>cli.py\<close>, \<open>read_benchmark.py\<close> and \<open>write-bench.py\<close>): the
  topology is read from the configuration file, the routing strategy is picked by its name, and the
  client is built and connected. The file is what \<open>json.load\<close> gives: a dictionary from cluster names
  to lists of node objects, whose entries may be missing. The options are what \<open>argparse\<close> gives.
\<close>

section \<open>The configuration file\<close>

record node_entry =
  ne_id :: "int option"
  ne_host :: "string option"
  ne_tcp_port :: "int option"

definition json_item :: "'a option \<Rightarrow> 'a res" where
  "json_item v = (case v of None \<Rightarrow> Inl KeyError | Some x \<Rightarrow> Inr x)"

definition load_node :: "string \<Rightarrow> node_entry \<Rightarrow> node res" where
  "load_node c n =
     bind_res (json_item (ne_id n)) (\<lambda>i. bind_res (json_item (ne_host n)) (\<lambda>h.
     bind_res (json_item (ne_tcp_port n)) (\<lambda>p.
       Inr \<lparr>cluster_name = c, node_id = i, host = h, port = p\<rparr>)))"

fun load_clusters :: "(string, node_entry list) dict \<Rightarrow> clusters \<Rightarrow> clusters res" where
  "load_clusters [] cs = Inr cs"
| "load_clusters ((c, nodes_data) # config_data) cs =
     bind_res (map_res (load_node c) nodes_data) (\<lambda>ns. load_clusters config_data (AList.update c ns cs))"

section \<open>The options\<close>

datatype tool = Cli | ReadBench | WriteBench

text \<open>\<open>strategy_map\<close>: only the read benchmark offers leader routing.\<close>

definition strategy_map :: "tool \<Rightarrow> int \<Rightarrow> (string, routing_strategy) dict" where
  "strategy_map t max_key =
     [(''hash'', HashRouting new_base), (''round-robin'', RoundRobinRouting new_rr)] @
     (if t = ReadBench then [(''leader'', LeaderRouting new_base)] else []) @
     [(''range'', RangeRouting (new_range max_key))]"

record bench_args =
  ba_requests :: int
  ba_key_start :: int
  ba_key_end :: "int option"
  ba_max_key :: "int option"

text \<open>The defaults of the key range: the first and last key and the size of the key space.\<close>

definition write_bench_keys :: "bench_args \<Rightarrow> int \<times> int \<times> int" where
  "write_bench_keys a =
     (let key_end = (case ba_key_end a of None \<Rightarrow> ba_key_start a + ba_requests a - 1 | Some k \<Rightarrow> k);
          max_key = (case ba_max_key a of None \<Rightarrow> key_end | Some m \<Rightarrow> m)
      in (ba_key_start a, key_end, max_key))"

definition read_bench_keys :: "bench_args \<Rightarrow> int \<times> int \<times> int" where
  "read_bench_keys a =
     (let max_key = (case ba_max_key a of None \<Rightarrow> 5000000 | Some m \<Rightarrow> m);
          key_end = (case ba_key_end a of None \<Rightarrow> max_key | Some k \<Rightarrow> k)
      in (ba_key_start a, key_end, max_key))"

section \<open>The client\<close>

text \<open>
  \<open>DbClient.__init__\<close> makes two thread pools, of \<open>thread_pool_size\<close> and of half that number of
  workers; \<open>ThreadPoolExecutor\<close> refuses a number that is not positive.
\<close>

definition executor_workers :: "int \<Rightarrow> int res" where
  "executor_workers max_workers = (if max_workers \<le> 0 then Inl ValueError else Inr max_workers)"

record client =
  cl_router :: router
  cl_clusters :: clusters
  cl_net :: net
  cl_io_workers :: int
  cl_aggregator_workers :: int
  cl_req_counter :: int

definition new_client :: "int \<Rightarrow> router \<Rightarrow> client res" where
  "new_client thread_pool_size rt =
     bind_res (executor_workers thread_pool_size) (\<lambda>io.
     bind_res (executor_workers (thread_pool_size div 2)) (\<lambda>agg.
       Inr \<lparr>cl_router = rt, cl_clusters = [], cl_net = empty_net, cl_io_workers = io,
            cl_aggregator_workers = agg, cl_req_counter = 1\<rparr>))"

definition connect :: "sock_env \<Rightarrow> clusters \<Rightarrow> client \<Rightarrow> client" where
  "connect env cs cl =
     (case connect_clusters env cs (cl_net cl) (leaders (cl_router cl)) of (net, reg) \<Rightarrow>
        cl\<lparr>cl_clusters := cs, cl_net := net, cl_router := (cl_router cl)\<lparr>leaders := reg\<rparr>\<rparr>)"

definition start_client ::
  "tool \<Rightarrow> string \<Rightarrow> int \<Rightarrow> int \<Rightarrow> (string, node_entry list) dict \<Rightarrow> sock_env \<Rightarrow> client res" where
  "start_client t strategy_name max_key thread_pool_size config_data env =
     bind_res (load_clusters config_data []) (\<lambda>cs.
     bind_res (dict_index (strategy_map t max_key) strategy_name) (\<lambda>s.
     bind_res (new_client thread_pool_size (update_topology (new_router s) cs)) (\<lambda>cl.
       Inr (connect env cs cl))))"

section \<open>The loaded topology\<close>

lemma load_node_cluster: "load_node c e = Inr n \<Longrightarrow> cluster_name n = c"
  by (auto simp: load_node_def res_simps)

lemma load_nodes_cluster:
  "map_res (load_node c) es = Inr ns \<Longrightarrow> length ns = length es \<and> (\<forall>n \<in> set ns. cluster_name n = c)"
  by (induction es arbitrary: ns) (auto simp: res_simps dest: load_node_cluster)

lemma update_fresh: "k \<notin> set (dict_keys d) \<Longrightarrow> AList.update k v d = d @ [(k, v)]"
  by (induction d) auto

lemma load_clusters_result:
  assumes "load_clusters cfg cs = Inr cs'" and "clusters_ok cs"
    and "distinct (dict_keys cs @ dict_keys cfg)"
  shows "clusters_ok cs' \<and> dict_keys cs' = dict_keys cs @ dict_keys cfg \<and>
    map (length \<circ> snd) cs' = map (length \<circ> snd) cs @ map (length \<circ> snd) cfg"
  using assms
proof (induction cfg cs arbitrary: cs' rule: load_clusters.induct)
  case (2 c es cfg cs)
  then obtain ns where ns: "map_res (load_node c) es = Inr ns"
    and rest: "load_clusters cfg (AList.update c ns cs) = Inr cs'"
    by (auto simp: res_simps)
  have u: "AList.update c ns cs = cs @ [(c, ns)]"
    using "2.prems"(3) by (simp add: update_fresh)
  have "clusters_ok (cs @ [(c, ns)])"
    using "2.prems" load_nodes_cluster [OF ns] by (auto simp: clusters_ok_def dict_ok_def)
  from "2.IH" [OF rest, unfolded u, OF this] show ?case
    using "2.prems"(3) load_nodes_cluster [OF ns] by auto
qed simp

lemma load_clusters_topology:
  assumes "load_clusters cfg [] = Inr cs" and "dict_ok cfg"
  shows "clusters_ok cs" and "dict_keys cs = dict_keys cfg"
    and "map (length \<circ> snd) cs = map (length \<circ> snd) cfg"
  using load_clusters_result [OF assms(1)] assms(2) by (simp_all add: clusters_ok_def dict_ok_def)

section \<open>What \<open>connect\<close> leaves\<close>

lemma new_sock_ok:
  assumes "net_ok net" and "new_sock a net = (s, net')"
  shows "net_ok net'" and "held net' s" and "sk_addr s = a"
proof -
  have n: "net' = net\<lparr>next_sock := Suc (next_sock net)\<rparr>" and s: "s = \<lparr>sk_id = next_sock net, sk_addr = a\<rparr>"
    using assms(2) by (simp_all add: new_sock_def)
  have p: "pooled_ids net' k = pooled_ids net k" for k by (simp add: n pooled_ids_def)
  show "net_ok net'" using assms(1) unfolding net_ok_def p
    by (simp add: n) (meson less_Suc_eq)
  show "held net' s" using net_ok_fresh [OF assms(1)] by (simp add: held_def p) (simp add: n s)
  show "sk_addr s = a" by (simp add: s)
qed

text \<open>A leader known after \<open>connect\<close> was known before or is a node that was probed, with its
  connection in the pool.\<close>

lemma connect_nodes_ok:
  "net_ok net \<Longrightarrow> connect_nodes env ns net reg = (conn, net', reg') \<Longrightarrow> net_ok net' \<and>
   (\<forall>k. length (pool_of net k) \<le> length (pool_of net' k)) \<and>
   (if conn then \<exists>n \<in> set ns. reg' = set_leader reg n \<and> pool_of net' (n, False) \<noteq> [] else reg' = reg)"
proof (induction env ns net reg rule: connect_nodes.induct)
  case (2 env n ns net reg)
  obtain s net1 where new: "new_sock (node_addr n False) net = (s, net1)" by force
  note ok = new_sock_ok [OF "2.prems"(1) new]
  have same: "pool_of net1 k = pool_of net k" for k using new by (auto simp: new_sock_def)
  show ?case
  proof (cases "se_connect env (node_addr n False)")
    case (Some e)
    then have "connect_nodes env ns net1 reg = (conn, net', reg')" using "2.prems"(2) new by simp
    from "2.IH"(2) [OF new [symmetric] Some ok(1) this] show ?thesis
      by (auto simp: same split: if_splits)
  next
    case None
    show ?thesis
    proof (cases "se_readable env (sk_id s)")
      case True
      then have "connect_nodes env ns (close_sock s net1) reg = (conn, net', reg')"
        using "2.prems"(2) new None by simp
      from "2.IH"(1) [OF new [symmetric] None True close_sock_ok(1) [OF ok(1,2)] this] show ?thesis
        by (auto simp: same split: if_splits)
    next
      case False
      then have e: "conn" "net' = return_socket n s False net1" "reg' = set_leader reg n"
        using "2.prems"(2) new None by auto
      have "net_ok net'" unfolding e(2) by (rule return_socket_ok(1) [OF ok(1,2)]) (simp add: ok(3))
      then show ?thesis by (simp add: e same)
    qed
  qed
qed simp

lemma connect_clusters_ok:
  "net_ok net \<Longrightarrow> registry_ok reg \<Longrightarrow> connect_clusters env cs net reg = (net', reg') \<Longrightarrow>
   net_ok net' \<and> registry_ok reg' \<and> (\<forall>k. length (pool_of net k) \<le> length (pool_of net' k)) \<and>
   (\<forall>c l. get_leader reg' c = Some l \<longrightarrow> get_leader reg c = Some l \<or>
     (\<exists>ns \<in> snd ` set cs. l \<in> set ns \<and> pool_of net' (l, False) \<noteq> []))"
proof (induction env cs net reg rule: connect_clusters.induct)
  case (2 env c nodes cs net reg)
  obtain conn net1 reg1 where n: "connect_nodes env nodes net reg = (conn, net1, reg1)" by (metis prod_cases3)
  note ok = connect_nodes_ok [OF "2.prems"(1) n]
  have r1: "registry_ok reg1" using ok "2.prems"(2) by (auto split: if_splits)
  have "connect_clusters env cs net1 reg1 = (net', reg')" using "2.prems"(3) n by simp
  note IH0 = "2.IH" [OF n [symmetric] refl _ r1 this]
  have IH: "net_ok net'" "registry_ok reg'" "\<forall>k. length (pool_of net1 k) \<le> length (pool_of net' k)"
    "\<And>c l. get_leader reg' c = Some l \<Longrightarrow> get_leader reg1 c = Some l \<or>
      (\<exists>ns \<in> snd ` set cs. l \<in> set ns \<and> pool_of net' (l, False) \<noteq> [])"
    using IH0 ok by blast+
  have len: "length (pool_of net k) \<le> length (pool_of net' k)" for k
    using ok IH(3) order_trans by blast
  have "get_leader reg d = Some l \<or> (\<exists>ns \<in> snd ` set ((c, nodes) # cs). l \<in> set ns \<and> pool_of net' (l, False) \<noteq> [])"
    if "get_leader reg' d = Some l" for d l
  proof (cases "get_leader reg1 d = Some l")
    case True
    show ?thesis
    proof (cases "conn \<and> get_leader reg d \<noteq> Some l")
      case True
      then have "l \<in> set nodes" "pool_of net1 (l, False) \<noteq> []"
        using ok \<open>get_leader reg1 d = Some l\<close> by (auto split: if_splits)
      then show ?thesis using IH(3) [rule_format, of "(l, False)"] by auto
    next
      case False
      then show ?thesis using True ok by (auto split: if_splits)
    qed
  next
    case False
    then show ?thesis using IH(4) [OF that] by auto
  qed
  then show ?case using IH(1,2) len by blast
qed simp

lemma start_client_parts:
  assumes "start_client t name max_key pool_size cfg env = Inr cl"
  obtains cs s net reg where "load_clusters cfg [] = Inr cs" and "dict_index (strategy_map t max_key) name = Inr s"
    and "connect_clusters env cs empty_net empty_registry = (net, reg)"
    and "cl_router cl = \<lparr>strategy = s, topology = cs, leaders = reg\<rparr>" and "cl_net cl = net"
    and "cl_clusters cl = cs" and "cl_aggregator_workers cl = pool_size div 2" and "2 \<le> pool_size"
proof -
  from assms obtain cs s c0 where l: "load_clusters cfg [] = Inr cs"
    and s: "dict_index (strategy_map t max_key) name = Inr s"
    and c0: "new_client pool_size (update_topology (new_router s) cs) = Inr c0" and cl: "cl = connect env cs c0"
    by (auto simp: start_client_def res_simps)
  from c0 have size: "2 \<le> pool_size" and c0': "cl_router c0 = \<lparr>strategy = s, topology = cs, leaders = empty_registry\<rparr>"
      "cl_net c0 = empty_net" "cl_aggregator_workers c0 = pool_size div 2"
    by (auto simp: new_client_def executor_workers_def update_topology_def new_router_def res_simps split: if_splits)
  obtain net reg where c: "connect_clusters env cs empty_net empty_registry = (net, reg)" by force
  show thesis
    by (rule that [OF l s c]) (simp_all add: cl connect_def c0' c size)
qed

section \<open>Properties\<close>

lemma started_client_leaders:
  assumes "dict_ok cfg" and "start_client t name max_key pool_size cfg env = Inr cl"
  shows "clusters_ok (topology (cl_router cl))" and "net_ok (cl_net cl)" and "cl_clusters cl = topology (cl_router cl)"
    and "get_leader (leaders (cl_router cl)) c = Some l \<Longrightarrow>
      (\<exists>ns. (c, ns) \<in> set (topology (cl_router cl)) \<and> l \<in> set ns) \<and> pool_of (cl_net cl) (l, False) \<noteq> []"
proof -
  from start_client_parts [OF assms(2)] obtain cs s net reg where
    l: "load_clusters cfg [] = Inr cs" and c: "connect_clusters env cs empty_net empty_registry = (net, reg)"
    and cl: "cl_router cl = \<lparr>strategy = s, topology = cs, leaders = reg\<rparr>" "cl_net cl = net" "cl_clusters cl = cs" by metis
  note top = load_clusters_topology [OF l assms(1)]
  have ok: "net_ok net" "registry_ok reg" "\<And>c l. get_leader reg c = Some l \<Longrightarrow>
      \<exists>ns \<in> snd ` set cs. l \<in> set ns \<and> pool_of net (l, False) \<noteq> []"
    using connect_clusters_ok [OF _ _ c] by auto
  show "clusters_ok (topology (cl_router cl))" "net_ok (cl_net cl)" "cl_clusters cl = topology (cl_router cl)"
    using top ok cl by simp_all
  show "(\<exists>ns. (c, ns) \<in> set (topology (cl_router cl)) \<and> l \<in> set ns) \<and> pool_of (cl_net cl) (l, False) \<noteq> []"
    if g: "get_leader (leaders (cl_router cl)) c = Some l"
  proof -
    have g: "get_leader reg c = Some l" using g cl by simp
    from ok(3) [OF this] obtain d ns where d: "(d, ns) \<in> set cs" "l \<in> set ns" "pool_of net (l, False) \<noteq> []" by auto
    then have "cluster_name l = d" using top(1) clusters_okD by blast
    moreover have "cluster_name l = c" using ok(2) g by (rule registry_okD)
    ultimately show ?thesis using d cl by auto
  qed
qed


definition demo_config :: "(string, node_entry list) dict" where
  "demo_config =
     [(''B'', [\<lparr>ne_id = Some 1, ne_host = Some ''h'', ne_tcp_port = Some 7000\<rparr>]),
      (''A'', [\<lparr>ne_id = Some 2, ne_host = Some ''h'', ne_tcp_port = Some 7001\<rparr>,
              \<lparr>ne_id = Some 3, ne_host = Some ''h'', ne_tcp_port = Some 7002\<rparr>])]"

lemma demo_config_starts:
  "\<exists>cl. start_client ReadBench ''range'' 100 16 demo_config calm_env = Inr cl"
  by (simp add: start_client_def demo_config_def load_node_def json_item_def strategy_map_def
      dict_index_def new_client_def executor_workers_def)


end
