(* ===== verification/Streams.thy ===== *)
theory Streams
  imports Db_Datatypes
begin

text \<open>
  The generators of the benchmarks and of the command line: \<open>record_stream\<close> of \<open>write-bench.py\<close>,
  \<open>query_stream\<close> of \<open>read_benchmark.py\<close> and \<open>bulk_records\<close> of \<open>cli.py\<close>. A generator is the list it
  yields; all that can raise raises before the first element. The source of randomness is the
  sequence of integers \<open>draws\<close>, which the library's functions fold into their range.
\<close>

section \<open>Randomness\<close>

text \<open>\<open>random.randint(a, b)\<close>: some integer of the interval, which must not be empty.\<close>

definition randint :: "int \<Rightarrow> int \<Rightarrow> int \<Rightarrow> int res" where
  "randint a b draw = (if b < a then Inl ValueError else Inr (a + draw mod (b - a + 1)))"

text \<open>\<open>random.shuffle\<close>: positions from the last down to the second, each exchanged with a random
  position not behind it.\<close>

fun shuffle_from :: "nat \<Rightarrow> (nat \<Rightarrow> int) \<Rightarrow> 'a list \<Rightarrow> 'a list" where
  "shuffle_from 0 draws xs = xs"
| "shuffle_from (Suc i) draws xs =
     (let j = nat (draws i mod (int i + 2))
      in shuffle_from i draws (xs[Suc i := xs ! j, j := xs ! Suc i]))"

definition shuffle :: "(nat \<Rightarrow> int) \<Rightarrow> 'a list \<Rightarrow> 'a list" where
  "shuffle draws xs = shuffle_from (length xs - 1) draws xs"

text \<open>
  \<open>ZipfGenerator\<close> of the benchmarks, with the exponent 1 they use: a draw is \<open>int\<close> of the
  floating-point value of the inverse distribution, and \<open>next\<close> clips it into the range.
\<close>

record zipf_generator =
  zf_n :: int

definition new_zipf :: "int \<Rightarrow> zipf_generator" where
  "new_zipf n = \<lparr>zf_n = max 1 n\<rparr>"

definition zipf_next :: "zipf_generator \<Rightarrow> int \<Rightarrow> int" where
  "zipf_next z draw = min (zf_n z) (max 1 draw)"

text \<open>\<open>ZipfGenerator\<close> of the command line: a weighted choice from at most 100000 keys.\<close>

definition cli_zipf_population :: "int \<Rightarrow> int list" where
  "cli_zipf_population n = [1..min n 100000]"

definition random_choice :: "int list \<Rightarrow> int \<Rightarrow> int res" where
  "random_choice population draw =
     (if population = [] then Inl IndexError
      else py_index population (draw mod int (length population)))"

section \<open>Streams of records\<close>

text \<open>The keys, with timestamps that grow by a fixed step.\<close>

fun emit_records :: "int \<Rightarrow> int \<Rightarrow> int list \<Rightarrow> db_record list" where
  "emit_records step ts [] = []"
| "emit_records step ts (key # keys) =
     \<lparr>key_id = key, timestamp = ts, content = CInt key\<rparr> # emit_records step (ts + step) keys"

definition stream_keys :: "int \<Rightarrow> string \<Rightarrow> int \<Rightarrow> int \<Rightarrow> (nat \<Rightarrow> int) \<Rightarrow> int list res" where
  "stream_keys amount data_dist key_start key_end draws =
     (if data_dist = ''sequential'' then Inr [key_start..key_start + amount - 1]
      else if data_dist = ''uniform'' then map_res (\<lambda>i. randint key_start key_end (draws i)) [0..<nat amount]
      else if data_dist = ''zipfian'' then
        (let zipf = new_zipf (key_end - key_start + 1)
         in Inr (map (\<lambda>i. key_start + zipf_next zipf (draws i) - 1) [0..<nat amount]))
      else Inl ValueError)"

definition record_stream ::
  "int \<Rightarrow> string \<Rightarrow> int \<Rightarrow> int \<Rightarrow> int \<Rightarrow> (nat \<Rightarrow> int) \<Rightarrow> db_record list res" where
  "record_stream amount data_dist key_start key_end base_timestamp draws =
     bind_res (stream_keys amount data_dist key_start key_end draws)
       (\<lambda>keys. Inr (emit_records 100 base_timestamp keys))"

text \<open>The base timestamp of a worker of the write benchmark, from the clock in milliseconds.\<close>

definition worker_base_ts :: "int \<Rightarrow> int \<Rightarrow> int" where
  "worker_base_ts now_ms worker_id = now_ms * 100 + worker_id mod 100"

section \<open>Records of the command line\<close>

definition bulk_keys :: "int \<Rightarrow> string \<Rightarrow> (nat \<Rightarrow> int) \<Rightarrow> int list res" where
  "bulk_keys amount data_dist draws =
     (if data_dist = ''sequential'' then Inr [1..amount]
      else if data_dist = ''uniform'' then Inr (shuffle draws [1..amount])
      else if data_dist = ''zipfian'' then
        map_res (\<lambda>i. random_choice (cli_zipf_population amount) (draws i)) [0..<nat amount]
      else Inl ValueError)"

definition bulk_records :: "int \<Rightarrow> string \<Rightarrow> int \<Rightarrow> (nat \<Rightarrow> int) \<Rightarrow> db_record list res" where
  "bulk_records amount data_dist base_timestamp draws =
     bind_res (bulk_keys amount data_dist draws) (\<lambda>keys. Inr (emit_records 1 base_timestamp keys))"

section \<open>Streams of queries\<close>

definition query_starts ::
  "int \<Rightarrow> string \<Rightarrow> int \<Rightarrow> int \<Rightarrow> int \<Rightarrow> (nat \<Rightarrow> int) \<Rightarrow> int list res" where
  "query_starts amount data_dist range_size key_start key_end draws =
     (let range_width = key_end - key_start + 1 in
      if data_dist = ''sequential'' then
        map_res (\<lambda>i. bind_res (py_mod (int i * range_size) range_width) (\<lambda>off. Inr (key_start + off)))
          [0..<nat amount]
      else if data_dist = ''uniform'' then map_res (\<lambda>i. randint key_start key_end (draws i)) [0..<nat amount]
      else if data_dist = ''zipfian'' then
        (let zipf = new_zipf range_width
         in Inr (map (\<lambda>i. key_start + zipf_next zipf (draws i) - 1) [0..<nat amount]))
      else Inl ValueError)"

definition query_stream ::
  "int \<Rightarrow> string \<Rightarrow> int \<Rightarrow> int \<Rightarrow> int \<Rightarrow> (nat \<Rightarrow> int) \<Rightarrow> query_request list res" where
  "query_stream amount data_dist range_size key_start key_end draws =
     bind_res (query_starts amount data_dist range_size key_start key_end draws) (\<lambda>starts.
       Inr (map (\<lambda>(i, start_id). \<lparr>min_id = start_id, min_ts = 0, max_id = start_id + range_size - 1,
                max_ts = 2 ^ 64 - 1, query_id = int i\<rparr>) (enumerate 0 starts)))"

section \<open>Facts\<close>

lemma randint_range:
  assumes "randint a b d = Inr k"
  shows "a \<le> k \<and> k \<le> b"
proof -
  have ab: "a \<le> b" and k: "k = a + d mod (b - a + 1)"
    using assms by (auto simp: randint_def split: if_splits)
  have "0 \<le> d mod (b - a + 1)" by (rule pos_mod_sign) (use ab in simp)
  moreover have "d mod (b - a + 1) < b - a + 1" by (rule pos_mod_bound) (use ab in simp)
  ultimately show ?thesis by (simp add: k)
qed

lemma zipf_next_range: "1 \<le> zipf_next (new_zipf n) d \<and> zipf_next (new_zipf n) d \<le> max 1 n"
  by (simp add: zipf_next_def new_zipf_def)

lemma shuffle_mset: "i < length xs \<Longrightarrow> mset (shuffle_from i draws xs) = mset xs"
proof (induction i draws xs rule: shuffle_from.induct)
  case (2 i draws xs)
  let ?j = "nat (draws i mod (int i + 2))"
  have "draws i mod (int i + 2) < int i + 2" "0 \<le> draws i mod (int i + 2)" by simp_all
  then have j: "?j < length xs" using "2.prems" by linarith
  have "mset (xs[Suc i := xs ! ?j, ?j := xs ! Suc i]) = mset xs"
    using mset_swap [OF j "2.prems"] by (cases "Suc i = ?j") (simp_all add: list_update_swap)
  then show ?case using "2.IH" [OF refl] "2.prems" by (simp add: Let_def)
qed simp

lemma emit_records_nth:
  "length (emit_records step ts keys) = length keys"
  "i < length keys \<Longrightarrow> emit_records step ts keys ! i =
     \<lparr>key_id = keys ! i, timestamp = ts + step * int i, content = CInt (keys ! i)\<rparr>"
  by (induction keys arbitrary: ts i) (auto simp: nth_Cons algebra_simps split: nat.splits)

lemma emit_records_keys: "map key_id (emit_records step ts keys) = keys"
  by (induction keys arbitrary: ts) auto

lemma map_res_nth:
  "map_res f xs = Inr ys \<Longrightarrow> i < length xs \<Longrightarrow> f (xs ! i) = Inr (ys ! i)"
  by (induction xs arbitrary: ys i) (auto simp: res_simps nth_Cons split: nat.splits)

text \<open>The keys of a stream: as many as asked for, and, when drawn, inside the range.\<close>

lemma stream_keys_spec:
  assumes "stream_keys amount data_dist key_start key_end draws = Inr keys"
  shows "length keys = nat amount"
    and "data_dist = ''sequential'' \<Longrightarrow> i < length keys \<Longrightarrow> keys ! i = key_start + int i"
    and "data_dist \<noteq> ''sequential'' \<Longrightarrow> key_start \<le> key_end \<Longrightarrow> k \<in> set keys \<Longrightarrow> key_start \<le> k \<and> k \<le> key_end"
proof -
  show "length keys = nat amount"
    using assms by (auto simp: stream_keys_def Let_def dest: map_res_length split: if_splits)
  show "keys ! i = key_start + int i" if "data_dist = ''sequential''" "i < length keys"
    using assms that by (auto simp: stream_keys_def nth_upto)
  show "key_start \<le> k \<and> k \<le> key_end"
    if d: "data_dist \<noteq> ''sequential''" "key_start \<le> key_end" "k \<in> set keys"
  proof (cases "data_dist = ''uniform''")
    case True
    then have m: "map_res (\<lambda>i. randint key_start key_end (draws i)) [0..<nat amount] = Inr keys"
      using assms by (simp add: stream_keys_def)
    obtain j where "j < length keys" "k = keys ! j" using d(3) by (metis in_set_conv_nth)
    then have "randint key_start key_end (draws j) = Inr k"
      using map_res_nth [OF m, of j] map_res_length [OF m] by simp
    then show ?thesis by (rule randint_range)
  next
    case False
    then obtain j where "k = key_start + zipf_next (new_zipf (key_end - key_start + 1)) (draws j) - 1"
      using assms d by (auto simp: stream_keys_def Let_def split: if_splits)
    then show ?thesis
      using zipf_next_range [of "key_end - key_start + 1" "draws j"] d(2) by simp
  qed
qed

lemma query_starts_spec:
  assumes "query_starts amount data_dist range_size key_start key_end draws = Inr starts"
    and "key_start \<le> key_end"
  shows "length starts = nat amount \<and> (\<forall>k \<in> set starts. key_start \<le> k \<and> k \<le> key_end)"
proof -
  let ?w = "key_end - key_start + 1"
  have w: "0 < ?w" using assms(2) by simp
  show ?thesis
  proof (cases "data_dist = ''sequential''")
    case True
    have "starts = map (\<lambda>i. key_start + (int i * range_size) mod ?w) [0..<nat amount]"
      using assms True w map_res_total [of "[0..<nat amount]"
          "\<lambda>i. bind_res (py_mod (int i * range_size) ?w) (\<lambda>off. Inr (key_start + off))"
          "\<lambda>i. key_start + (int i * range_size) mod ?w"] by (simp add: query_starts_def)
    moreover have "key_start \<le> key_start + (int i * range_size) mod ?w \<and>
        key_start + (int i * range_size) mod ?w \<le> key_end" for i
      using pos_mod_sign [OF w, of "int i * range_size"] pos_mod_bound [OF w, of "int i * range_size"] by linarith
    ultimately show ?thesis by (metis (no_types, lifting) imageE length_map length_upt minus_nat.diff_0 set_map)
  next
    case False
    then have "stream_keys amount data_dist key_start key_end draws = Inr starts"
      using assms(1) by (simp add: query_starts_def stream_keys_def)
    then show ?thesis using stream_keys_spec [of amount data_dist key_start key_end draws starts] False assms(2)
      by blast
  qed
qed

section \<open>Properties\<close>

text \<open>
  The records of a write stream: as many as asked for, each carrying its key as content, with
  timestamps 100 apart from the base on. A drawn key is always inside the key range. A sequential
  stream counts up from the first key and never looks at the last key of the range.
\<close>

theorem record_stream_spec:
  assumes "record_stream amount data_dist key_start key_end ts draws = Inr rs"
  shows "length rs = nat amount \<and>
    (\<forall>i < length rs. timestamp (rs ! i) = ts + 100 * int i \<and> content (rs ! i) = CInt (key_id (rs ! i)) \<and>
      (if data_dist = ''sequential'' then key_id (rs ! i) = key_start + int i
       else key_start \<le> key_end \<longrightarrow> key_start \<le> key_id (rs ! i) \<and> key_id (rs ! i) \<le> key_end))"
proof -
  from assms obtain keys where k: "stream_keys amount data_dist key_start key_end draws = Inr keys"
    and rs: "rs = emit_records 100 ts keys" by (auto simp: record_stream_def res_simps)
  have "if data_dist = ''sequential'' then keys ! i = key_start + int i
      else key_start \<le> key_end \<longrightarrow> key_start \<le> keys ! i \<and> keys ! i \<le> key_end" if "i < length keys" for i
    using stream_keys_spec(2) [OF k _ that] stream_keys_spec(3) [OF k, of "keys ! i"] that by simp
  then show ?thesis using stream_keys_spec(1) [OF k] by (simp add: rs emit_records_nth)
qed

theorem record_stream_spec_witness:
  "\<exists>rs. record_stream 3 ''sequential'' 5 6 7 (\<lambda>_. 0) = Inr rs \<and> length rs = 3 \<and>
     map key_id rs = [5, 6, 7] \<and> timestamp (rs ! 2) = 207"
proof -
  have r: "record_stream 3 ''sequential'' 5 6 7 (\<lambda>_. 0) = Inr (emit_records 100 7 [5, 6, 7])"
    by (simp add: record_stream_def stream_keys_def)
  from record_stream_spec [OF r] r show ?thesis by simp
qed

text \<open>
  C33. Workers of the write benchmark whose numbers differ modulo 100 never write the same key and
  timestamp, whenever they start, however long they run and whatever keys they draw; and no worker
  writes one twice.
\<close>

theorem workers_write_distinct_keys:
  assumes "record_stream amount data_dist ks ke (worker_base_ts now w) draws = Inr rs"
    and "record_stream amount' data_dist' ks' ke' (worker_base_ts now' w') draws' = Inr rs'"
    and "w mod 100 \<noteq> w' mod 100"
  shows "distinct (map (\<lambda>r. (key_id r, timestamp r)) rs) \<and>
    (\<lambda>r. (key_id r, timestamp r)) ` set rs \<inter> (\<lambda>r. (key_id r, timestamp r)) ` set rs' = {}"
proof -
  have ts: "timestamp r mod 100 = v mod 100"
    if "record_stream a d s e (worker_base_ts t v) dr = Inr xs" "r \<in> set xs" for a d s e t v dr xs r
    using record_stream_spec [OF that(1)] that(2) by (auto simp: in_set_conv_nth worker_base_ts_def mod_simps)
  have "distinct (map snd (map (\<lambda>r. (key_id r, timestamp r)) rs))"
    using record_stream_spec [OF assms(1)] by (auto simp: distinct_conv_nth)
  then have "distinct (map (\<lambda>r. (key_id r, timestamp r)) rs)" by (simp only: distinct_map)
  moreover have "timestamp r \<noteq> timestamp r'" if "r \<in> set rs" "r' \<in> set rs'" for r r'
    using ts [OF assms(1) that(1)] ts [OF assms(2) that(2)] assms(3) by auto
  ultimately show ?thesis by auto
qed

theorem workers_write_distinct_keys_witness:
  "\<exists>rs rs'. record_stream 2 ''sequential'' 5 6 (worker_base_ts 10 1) (\<lambda>_. 0) = Inr rs \<and>
     record_stream 2 ''sequential'' 5 6 (worker_base_ts 10 2) (\<lambda>_. 0) = Inr rs' \<and>
     (\<lambda>r. (key_id r, timestamp r)) ` set rs \<inter> (\<lambda>r. (key_id r, timestamp r)) ` set rs' = {}"
proof -
  have r: "record_stream 2 ''sequential'' 5 6 (worker_base_ts 10 v) (\<lambda>_. 0) =
      Inr (emit_records 100 (worker_base_ts 10 v) [5, 6])" for v
    by (simp add: record_stream_def stream_keys_def)
  have "(1 :: int) mod 100 \<noteq> 2 mod 100" by simp
  from workers_write_distinct_keys [OF r r this] show ?thesis using r by blast
qed

text \<open>
  The queries of a read stream over a range of keys: as many as asked for, numbered from 0, each
  beginning inside the range and covering exactly \<open>range_size\<close> consecutive keys with every timestamp,
  under every distribution.
\<close>

theorem query_stream_spec:
  assumes "query_stream amount data_dist range_size key_start key_end draws = Inr qs" and "key_start \<le> key_end"
  shows "map query_id qs = map int [0..<nat amount] \<and>
    (\<forall>q \<in> set qs. key_start \<le> min_id q \<and> min_id q \<le> key_end \<and> max_id q = min_id q + range_size - 1 \<and>
      min_ts q = 0 \<and> max_ts q = 2 ^ 64 - 1)"
proof -
  from assms(1) obtain starts where s: "query_starts amount data_dist range_size key_start key_end draws = Inr starts"
    and qs: "qs = map (\<lambda>(i, start_id). \<lparr>min_id = start_id, min_ts = 0, max_id = start_id + range_size - 1,
      max_ts = 2 ^ 64 - 1, query_id = int i\<rparr>) (enumerate 0 starts)"
    by (auto simp: query_stream_def res_simps)
  note spec = query_starts_spec [OF s assms(2)]
  have "map query_id qs = map int [0..<nat amount]"
    using spec by (intro nth_equalityI) (simp_all add: qs nth_enumerate_eq)
  moreover have "\<forall>q \<in> set qs. key_start \<le> min_id q \<and> min_id q \<le> key_end \<and>
      max_id q = min_id q + range_size - 1 \<and> min_ts q = 0 \<and> max_ts q = 2 ^ 64 - 1"
    using spec by (auto simp: qs in_set_enumerate_eq)
  ultimately show ?thesis by blast
qed

theorem query_stream_spec_witness:
  "\<exists>qs. query_stream 3 ''sequential'' 10 1 15 (\<lambda>_. 0) = Inr qs \<and> map query_id qs = [0, 1, 2] \<and>
     map min_id qs = [1, 11, 6]"
proof -
  have "query_starts 3 ''sequential'' 10 1 15 (\<lambda>_. 0) = Inr [1, 11, 6]"
    by code_simp
  then obtain qs where qs: "query_stream 3 ''sequential'' 10 1 15 (\<lambda>_. 0) = Inr qs" "map min_id qs = [1, 11, 6]"
    by (simp add: query_stream_def)
  have "map query_id qs = map int [0..<nat 3]"
    by (rule query_stream_spec [OF qs(1), THEN conjunct1]) simp
  then show ?thesis using qs by (simp add: numeral_3_eq_3)
qed

text \<open>
  The records of a \<open>GENERATE\<close> command: sequential and uniform distributions give every key from 1
  to the amount exactly once, a zipfian one keys from that range, and the timestamps count up by one,
  so that no record has the key and timestamp of another.
\<close>

theorem bulk_records_spec:
  assumes "bulk_records amount data_dist ts draws = Inr rs"
  shows "length rs = nat amount \<and> map timestamp rs = map (\<lambda>i. ts + int i) [0..<nat amount] \<and>
    (if data_dist = ''zipfian'' then set (map key_id rs) \<subseteq> {1..amount}
     else mset (map key_id rs) = mset [1..amount])"
proof -
  from assms obtain keys where k: "bulk_keys amount data_dist draws = Inr keys" and rs: "rs = emit_records 1 ts keys"
    by (auto simp: bulk_records_def res_simps)
  have len: "length keys = nat amount \<and> (if data_dist = ''zipfian'' then set keys \<subseteq> {1..amount} else mset keys = mset [1..amount])"
  proof (cases "data_dist = ''zipfian''")
    case True
    then have m: "map_res (\<lambda>i. random_choice (cli_zipf_population amount) (draws i)) [0..<nat amount] = Inr keys"
      using k by (simp add: bulk_keys_def)
    have "x \<in> {1..amount}" if "x \<in> set keys" for x
    proof -
      obtain j where "j < length keys" "x = keys ! j" using \<open>x \<in> set keys\<close> by (metis in_set_conv_nth)
      then have "random_choice (cli_zipf_population amount) (draws j) = Inr x"
        using map_res_nth [OF m, of j] map_res_length [OF m] by simp
      then have "x \<in> set (cli_zipf_population amount)"
        by (auto simp: random_choice_def dest: py_index_set split: if_splits)
      then show ?thesis by (simp add: cli_zipf_population_def)
    qed
    then show ?thesis using map_res_length [OF m] True by auto
  next
    case False
    have m: "mset (shuffle draws [1..amount]) = mset [1..amount]"
    proof (cases "0 < amount")
      case True
      then show ?thesis unfolding shuffle_def by (intro shuffle_mset) simp
    qed (simp add: shuffle_def)
    then have "length (shuffle draws [1..amount]) = nat amount" by (metis add_diff_cancel diff_add_cancel length_upto mset_eq_length)
    then show ?thesis using k False m by (auto simp: bulk_keys_def split: if_splits)
  qed
  have "map timestamp rs = map (\<lambda>i. ts + int i) [0..<nat amount]"
    using len by (intro nth_equalityI) (simp_all add: rs emit_records_nth)
  then show ?thesis using len by (simp add: rs emit_records_nth emit_records_keys flip: set_map del: set_map)
qed

theorem bulk_records_spec_witness:
  "\<exists>rs. bulk_records 4 ''uniform'' 9 (\<lambda>i. 5 * int i) = Inr rs \<and> mset (map key_id rs) = mset [1..4] \<and>
     map timestamp rs = [9, 10, 11, 12]"
proof -
  obtain rs where rs: "bulk_records 4 ''uniform'' 9 (\<lambda>i. 5 * int i) = Inr rs"
    by (simp add: bulk_records_def bulk_keys_def)
  from bulk_records_spec [OF rs] rs show ?thesis by (simp add: upt_rec)
qed

end
