(* ===== verification/Write_Buffer.thy ===== *)
theory Write_Buffer
  imports Routing_Strats
begin

text \<open>
  \<open>write\<close> and \<open>flush\<close> of \<open>client/dbclient.py\<close>: records are routed one by one, grouped by node,
  appended to the node's buffer, and cut into batches of exactly \<open>batch_size\<close>; what is left stays
  in the buffer until \<open>flush\<close>. A record no cluster could take is filed under the node \<open>None\<close>.
  The batches are listed in the order in which they are handed to \<open>_flush_batch\<close>.
\<close>

type_synonym routed = "node option \<times> db_record"
type_synonym batch = "node option \<times> db_record list"
type_synonym write_buffer = "(node option, db_record list) dict"

section \<open>Operations\<close>

text \<open>\<open>defaultdict(list)\<close>: extend the list under a key, creating it at the end of the order.\<close>

definition extend_at :: "'k \<Rightarrow> 'v list \<Rightarrow> ('k, 'v list) dict \<Rightarrow> ('k, 'v list) dict" where
  "extend_at k vs d = AList.update k (dict_get_default d k [] @ vs) d"

text \<open>The routing loop of \<open>write\<close>; an exception of the router leaves it at once.\<close>

fun route_records ::
  "(byte list \<Rightarrow> byte list) \<Rightarrow> router \<Rightarrow> db_record list \<Rightarrow> write_buffer \<Rightarrow> write_buffer res \<times> router" where
  "route_records digest rt [] node_records = (Inr node_records, rt)"
| "route_records digest rt (r # rs) node_records =
     (case router_insert digest rt r of
        (Inl e, rt') \<Rightarrow> (Inl e, rt')
      | (Inr node, rt') \<Rightarrow> route_records digest rt' rs (extend_at node [r] node_records))"

text \<open>The inner loop, with Python's slices. It need not end.\<close>

partial_function (option) cut_batches ::
  "int \<Rightarrow> db_record list \<Rightarrow> db_record list list \<Rightarrow> (db_record list \<times> db_record list list) option" where
  "cut_batches batch_size buf batches =
     (if batch_size \<le> int (length buf)
      then cut_batches batch_size (py_drop batch_size buf) (batches @ [py_take batch_size buf])
      else Some (buf, batches))"

fun buffer_records ::
  "int \<Rightarrow> write_buffer \<Rightarrow> write_buffer \<Rightarrow> batch list \<Rightarrow> (write_buffer \<times> batch list) option" where
  "buffer_records batch_size [] buffer batches_to_send = Some (buffer, batches_to_send)"
| "buffer_records batch_size ((node, recs) # node_records) buffer batches_to_send =
     (case cut_batches batch_size (dict_get_default buffer node [] @ recs) [] of
        None \<Rightarrow> None
      | Some (rest, batches) \<Rightarrow>
          buffer_records batch_size node_records (AList.update node rest buffer)
            (batches_to_send @ map (Pair node) batches))"

definition write_records ::
  "(byte list \<Rightarrow> byte list) \<Rightarrow> int \<Rightarrow> db_record list \<Rightarrow> router \<Rightarrow> write_buffer \<Rightarrow>
     (batch list res \<times> router \<times> write_buffer) option" where
  "write_records digest batch_size records rt buffer =
     (case route_records digest rt records [] of
        (Inl e, rt') \<Rightarrow> Some (Inl e, rt', buffer)
      | (Inr node_records, rt') \<Rightarrow>
          map_option (\<lambda>(buffer', batches). (Inr batches, rt', buffer'))
            (buffer_records batch_size node_records buffer []))"

text \<open>\<open>flush\<close> hands out what every node has left, then waits for the futures in the order in which
  they complete and raises the first exception.\<close>

fun flush_nodes :: "write_buffer \<Rightarrow> write_buffer \<Rightarrow> batch list \<times> write_buffer" where
  "flush_nodes [] buffer = ([], buffer)"
| "flush_nodes ((node, batch) # items) buffer =
     (if batch = [] then flush_nodes items buffer
      else (case flush_nodes items (AList.update node [] buffer) of
              (futures, buffer') \<Rightarrow> ((node, batch) # futures, buffer')))"

definition flush_buffer :: "write_buffer \<Rightarrow> batch list \<times> write_buffer" where
  "flush_buffer buffer = flush_nodes buffer buffer"

fun await_flush :: "'a res list \<Rightarrow> unit res" where
  "await_flush [] = Inr ()"
| "await_flush (Inl e # completed) = Inl e"
| "await_flush (Inr x # completed) = await_flush completed"

section \<open>What is pending for a node\<close>

definition pending :: "write_buffer \<Rightarrow> node option \<Rightarrow> db_record list" where
  "pending buffer k = dict_get_default buffer k []"

definition batches_of :: "batch list \<Rightarrow> node option \<Rightarrow> db_record list" where
  "batches_of bs k = concat (map snd (filter (\<lambda>b. fst b = k) bs))"

lemma pending_simps [simp]:
  "pending (AList.update k v d) k' = (if k' = k then v else pending d k')"
  "pending (extend_at k vs d) k' = (if k' = k then pending d k @ vs else pending d k')"
  "pending [] k' = []"
  by (simp_all add: pending_def extend_at_def dict_simps) (simp add: dict_get_default_def)

lemma batches_of_simps [simp]:
  "batches_of [] k = []"
  "batches_of (bs @ cs) k = batches_of bs k @ batches_of cs k"
  "batches_of (b # bs) k = (if fst b = k then snd b else []) @ batches_of bs k"
  by (simp_all add: batches_of_def)

lemma batches_of_Pair: "batches_of (map (Pair j) bs) k = (if j = k then concat bs else [])"
  by (induction bs) auto

section \<open>Cutting batches\<close>

lemma cut_batches_spec:
  assumes "0 < batch_size"
  shows "\<exists>rest bs. cut_batches batch_size buf acc = Some (rest, acc @ bs) \<and> concat bs @ rest = buf \<and>
    int (length rest) < batch_size \<and> (\<forall>b \<in> set bs. int (length b) = batch_size)"
proof (induction "length buf" arbitrary: buf acc rule: less_induct)
  case less
  show ?case
  proof (cases "batch_size \<le> int (length buf)")
    case False
    then show ?thesis by (intro exI [of _ buf] exI [of _ "[]"]) (simp add: cut_batches.simps)
  next
    case True
    let ?b = "py_take batch_size buf" and ?r = "py_drop batch_size buf"
    have len: "int (length ?b) = batch_size" "length ?r < length buf"
      using True assms by (simp_all add: py_take_nonneg py_drop_nonneg)
    from less [OF len(2), of "acc @ [?b]"] obtain rest bs where IH:
      "cut_batches batch_size ?r (acc @ [?b]) = Some (rest, (acc @ [?b]) @ bs)" "concat bs @ rest = ?r"
      "int (length rest) < batch_size" "\<forall>b \<in> set bs. int (length b) = batch_size" by blast
    then show ?thesis using True len(1) cut_batches.simps [of batch_size buf acc]
      by (intro exI [of _ rest] exI [of _ "?b # bs"]) simp
  qed
qed

text \<open>With a batch size that is not positive the loop never ends.\<close>

lemma cut_batches_diverges:
  assumes "batch_size \<le> 0"
  shows "cut_batches batch_size buf acc = None"
proof (rule ccontr)
  assume "cut_batches batch_size buf acc \<noteq> None"
  then obtain r where "cut_batches batch_size buf acc = Some r" by blast
  then have "0 < batch_size"
  proof (rule cut_batches.raw_induct [of "\<lambda>bs buf acc r. 0 < bs", rotated])
    fix f bs buf acc r
    assume "\<And>bs buf acc r. f bs buf acc = Some r \<Longrightarrow> 0 < bs"
      and "(if bs \<le> int (length buf) then f bs (py_drop bs buf) (acc @ [py_take bs buf]) else Some (buf, acc)) = Some r"
    then show "0 < bs" by (auto split: if_splits)
  qed
  with assms show False by simp
qed

section \<open>Buffering\<close>

lemma buffer_records_spec:
  assumes "0 < batch_size" and "distinct (map fst node_records)"
  shows "\<exists>buffer' bs. buffer_records batch_size node_records buffer acc = Some (buffer', acc @ bs) \<and>
    (\<forall>k. batches_of bs k @ pending buffer' k = pending buffer k @ pending node_records k) \<and>
    (\<forall>b \<in> set bs. int (length (snd b)) = batch_size) \<and>
    (\<forall>k. k \<in> fst ` set node_records \<longrightarrow> int (length (pending buffer' k)) < batch_size) \<and>
    (\<forall>k. k \<notin> fst ` set node_records \<longrightarrow> pending buffer' k = pending buffer k) \<and>
    (dict_ok buffer \<longrightarrow> dict_ok buffer')"
  using assms(2)
proof (induction node_records arbitrary: buffer acc)
  case Nil
  then show ?case by (intro exI [of _ buffer] exI [of _ "[]"]) simp
next
  case (Cons nr node_records)
  obtain node recs where nr: "nr = (node, recs)" by (cases nr)
  obtain rest bs where cut: "cut_batches batch_size (dict_get_default buffer node [] @ recs) [] = Some (rest, bs)"
    "concat bs @ rest = pending buffer node @ recs" "int (length rest) < batch_size"
    "\<forall>b \<in> set bs. int (length b) = batch_size"
    using cut_batches_spec [OF assms(1), of "dict_get_default buffer node [] @ recs" "[]"]
    by (auto simp: pending_def)
  let ?buffer1 = "AList.update node rest buffer" and ?acc1 = "acc @ map (Pair node) bs"
  from Cons.IH [of ?buffer1 ?acc1] Cons.prems obtain buffer' cs where IH:
    "buffer_records batch_size node_records ?buffer1 ?acc1 = Some (buffer', ?acc1 @ cs)"
    "\<forall>k. batches_of cs k @ pending buffer' k = pending ?buffer1 k @ pending node_records k"
    "\<forall>b \<in> set cs. int (length (snd b)) = batch_size"
    "\<forall>k. k \<in> fst ` set node_records \<longrightarrow> int (length (pending buffer' k)) < batch_size"
    "\<forall>k. k \<notin> fst ` set node_records \<longrightarrow> pending buffer' k = pending ?buffer1 k"
    "dict_ok ?buffer1 \<longrightarrow> dict_ok buffer'" by auto
  have new: "node \<notin> fst ` set node_records" using Cons.prems nr by auto
  have none: "pending node_records node = []"
    using new by (simp add: pending_def dict_get_default_def) (metis map_of_eq_None_iff option.simps(4) set_map)
  have nodes: "pending (nr # node_records) k = (if k = node then recs else pending node_records k)" for k
    by (simp add: nr pending_def dict_get_default_def)
  have "batches_of (map (Pair node) bs @ cs) k @ pending buffer' k = pending buffer k @ pending (nr # node_records) k" for k
    using IH(2) cut(2) none nodes by (auto simp: batches_of_Pair)
  moreover have "int (length (pending buffer' k)) < batch_size" if "k \<in> fst ` set (nr # node_records)" for k
    using that IH(4,5) cut(3) nr new by (cases "k = node") auto
  moreover have "pending buffer' k = pending buffer k" if "k \<notin> fst ` set (nr # node_records)" for k
    using that IH(5) nr by auto
  ultimately show ?case using IH cut(1,4) nr
    by (intro exI [of _ buffer'] exI [of _ "map (Pair node) bs @ cs"]) auto
qed

section \<open>Routing and grouping\<close>

text \<open>The decisions of the router, one per record, and the records they send to one node.\<close>

fun route_trace ::
  "(byte list \<Rightarrow> byte list) \<Rightarrow> router \<Rightarrow> db_record list \<Rightarrow> routed list res \<times> router" where
  "route_trace digest rt [] = (Inr [], rt)"
| "route_trace digest rt (r # rs) =
     (case router_insert digest rt r of
        (Inl e, rt') \<Rightarrow> (Inl e, rt')
      | (Inr node, rt') \<Rightarrow>
          (case route_trace digest rt' rs of (t, rt'') \<Rightarrow> (map_sum id ((#) (node, r)) t, rt'')))"

definition routed_to :: "routed list \<Rightarrow> node option \<Rightarrow> db_record list" where
  "routed_to t k = map snd (filter (\<lambda>p. fst p = k) t)"

lemma routed_to_simps [simp]:
  "routed_to [] k = []"
  "routed_to (p # t) k = (if fst p = k then [snd p] else []) @ routed_to t k"
  "routed_to (t @ u) k = routed_to t k @ routed_to u k"
  by (simp_all add: routed_to_def)

lemma dict_ok_extend [simp, intro]: "dict_ok d \<Longrightarrow> dict_ok (extend_at k vs d)"
  by (simp add: extend_at_def dict_ok_update)

lemma keys_extend [simp]: "fst ` set (extend_at k vs d) = insert k (fst ` set d)"
  by (simp add: extend_at_def dom_update)

lemma route_records_trace:
  "dict_ok acc \<Longrightarrow> route_trace digest rt rs = (t, rt') \<Longrightarrow>
   (case t of Inl e \<Rightarrow> route_records digest rt rs acc = (Inl e, rt')
    | Inr t \<Rightarrow> \<exists>nr. route_records digest rt rs acc = (Inr nr, rt') \<and> dict_ok nr \<and>
        (\<forall>k. pending nr k = pending acc k @ routed_to t k) \<and>
        fst ` set nr = fst ` set acc \<union> fst ` set t)"
proof (induction rs arbitrary: rt acc t)
  case Nil
  then show ?case by auto
next
  case (Cons r rs)
  obtain n rt1 where ins: "router_insert digest rt r = (n, rt1)" by force
  show ?case
  proof (cases n)
    case (Inl e)
    then show ?thesis using Cons.prems ins by auto
  next
    case (Inr node)
    obtain u where u: "route_trace digest rt1 rs = (u, rt')" "t = map_sum id ((#) (node, r)) u"
      using Cons.prems(2) ins Inr by (auto split: prod.splits)
    note IH = Cons.IH [OF dict_ok_extend [OF Cons.prems(1), of node "[r]"] u(1)]
    show ?thesis
    proof (cases u)
      case (Inr v)
      then obtain nr where "route_records digest rt1 rs (extend_at node [r] acc) = (Inr nr, rt')" "dict_ok nr"
        "\<forall>k. pending nr k = pending (extend_at node [r] acc) k @ routed_to v k"
        "fst ` set nr = fst ` set (extend_at node [r] acc) \<union> fst ` set v" using IH by auto
      then show ?thesis using u(2) ins \<open>n = Inr node\<close> Inr by simp
    qed (use IH u(2) ins Inr in simp)
  qed
qed

section \<open>One call of \<open>write\<close>\<close>

lemma write_records_spec:
  assumes "0 < batch_size" and trace: "route_trace digest rt records = (Inr t, rt')"
  shows "\<exists>buffer' bs. write_records digest batch_size records rt buffer = Some (Inr bs, rt', buffer') \<and>
    (\<forall>k. batches_of bs k @ pending buffer' k = pending buffer k @ routed_to t k) \<and>
    (\<forall>b \<in> set bs. int (length (snd b)) = batch_size) \<and>
    (\<forall>k. int (length (pending buffer k)) < batch_size \<longrightarrow> int (length (pending buffer' k)) < batch_size) \<and>
    (dict_ok buffer \<longrightarrow> dict_ok buffer')"
proof -
  obtain nr where nr: "route_records digest rt records [] = (Inr nr, rt')" "dict_ok nr"
    "\<forall>k. pending nr k = routed_to t k"
    using route_records_trace [OF dict_ok_Nil trace] by auto
  obtain buffer' bs where b: "buffer_records batch_size nr buffer [] = Some (buffer', bs)"
    "\<forall>k. batches_of bs k @ pending buffer' k = pending buffer k @ pending nr k"
    "\<forall>b \<in> set bs. int (length (snd b)) = batch_size"
    "\<forall>k. k \<in> fst ` set nr \<longrightarrow> int (length (pending buffer' k)) < batch_size"
    "\<forall>k. k \<notin> fst ` set nr \<longrightarrow> pending buffer' k = pending buffer k"
    "dict_ok buffer \<longrightarrow> dict_ok buffer'"
    using buffer_records_spec [OF assms(1) nr(2) [unfolded dict_ok_def], of buffer "[]"] by auto
  have "write_records digest batch_size records rt buffer = Some (Inr bs, rt', buffer')"
    using nr(1) b(1) by (simp add: write_records_def)
  moreover have "int (length (pending buffer' k)) < batch_size" if "int (length (pending buffer k)) < batch_size" for k
    using b(4,5) that by (cases "k \<in> fst ` set nr") auto
  ultimately show ?thesis using b(2,3,6) nr(3) by auto
qed

lemma write_records_raises:
  "route_trace digest rt records = (Inl e, rt') \<Longrightarrow>
   write_records digest batch_size records rt buffer = Some (Inl e, rt', buffer)"
  using route_records_trace [OF dict_ok_Nil, of digest rt records "Inl e" rt']
  by (simp add: write_records_def)

section \<open>\<open>flush\<close>\<close>

lemma flush_nodes_spec:
  "distinct (map fst items) \<Longrightarrow> \<forall>(n, b) \<in> set items. pending buffer n = b \<Longrightarrow>
   flush_nodes items buffer = (bs, buffer') \<Longrightarrow>
   (\<forall>k. k \<in> fst ` set items \<longrightarrow> batches_of bs k = pending buffer k \<and> pending buffer' k = []) \<and>
   (\<forall>k. k \<notin> fst ` set items \<longrightarrow> batches_of bs k = [] \<and> pending buffer' k = pending buffer k) \<and>
   (\<forall>b \<in> set bs. snd b \<noteq> []) \<and> (dict_ok buffer \<longrightarrow> dict_ok buffer')"
proof (induction items buffer arbitrary: bs buffer' rule: flush_nodes.induct)
  case (1 buffer)
  then show ?case by simp
next
  case (2 node batch items buffer)
  have new: "node \<notin> fst ` set items" and d: "distinct (map fst items)" using "2.prems"(1) by auto
  show ?case
  proof (cases "batch = []")
    case True
    have items: "\<forall>(n, b) \<in> set items. pending buffer n = b" and node: "pending buffer node = []"
      using "2.prems"(2) True by simp_all
    have run: "flush_nodes items buffer = (bs, buffer')" using "2.prems"(3) True by simp
    note IH = "2.IH"(1) [OF True d items run]
    have here: "batches_of bs node = [] \<and> pending buffer' node = []" using IH new node by simp
    have "batches_of bs k = pending buffer k \<and> pending buffer' k = []"
      if "k \<in> fst ` set ((node, batch) # items)" for k
    proof (cases "k = node")
      case k: False
      then have "k \<in> fst ` set items" using that by auto
      then show ?thesis using IH by blast
    qed (use here node in simp)
    then show ?thesis using IH by simp
  next
    case False
    let ?buffer1 = "AList.update node [] buffer"
    obtain fs where f: "flush_nodes items ?buffer1 = (fs, buffer')" "bs = (node, batch) # fs"
      using "2.prems"(3) False by (auto split: prod.splits)
    have "\<forall>(n, b) \<in> set items. pending ?buffer1 n = b" using "2.prems"(2) new by force
    note IH = "2.IH"(2) [OF False d this f(1)]
    have node: "pending buffer node = batch" using "2.prems"(2) by simp
    have "batches_of bs k = pending buffer k \<and> pending buffer' k = []"
      if "k \<in> fst ` set ((node, batch) # items)" for k
    proof (cases "k = node")
      case True
      then have "batches_of fs k = [] \<and> pending buffer' k = []" using IH new by simp
      then show ?thesis using True f(2) node by simp
    next
      case k: False
      then have "k \<in> fst ` set items" using that by auto
      then have "batches_of fs k = pending ?buffer1 k \<and> pending buffer' k = []" using IH by blast
      then show ?thesis using k f(2) by simp
    qed
    moreover have "batches_of bs k = [] \<and> pending buffer' k = pending buffer k"
      if "k \<notin> fst ` set ((node, batch) # items)" for k
      using that IH f(2) by auto
    ultimately show ?thesis using IH f(2) False by simp
  qed
qed

lemma pending_item: "dict_ok buffer \<Longrightarrow> (k, v) \<in> set buffer \<Longrightarrow> pending buffer k = v"
  by (simp add: pending_def dict_get_default_def dict_ok_def)

lemma pending_no_item: "k \<notin> fst ` set buffer \<Longrightarrow> pending buffer k = []"
  by (simp add: pending_def dict_get_default_def) (metis map_of_eq_None_iff option.simps(4) set_map)

lemma flush_buffer_spec:
  assumes "dict_ok buffer" and "flush_buffer buffer = (bs, buffer')"
  shows "(\<forall>k. batches_of bs k = pending buffer k) \<and> (\<forall>k. pending buffer' k = []) \<and>
    (\<forall>b \<in> set bs. snd b \<noteq> []) \<and> dict_ok buffer'"
proof -
  have "\<forall>(n, b) \<in> set buffer. pending buffer n = b" using pending_item [OF assms(1)] by blast
  from flush_nodes_spec [OF assms(1) [unfolded dict_ok_def] this assms(2) [unfolded flush_buffer_def]]
  have f: "\<forall>k. k \<in> fst ` set buffer \<longrightarrow> batches_of bs k = pending buffer k \<and> pending buffer' k = []"
    "\<forall>k. k \<notin> fst ` set buffer \<longrightarrow> batches_of bs k = [] \<and> pending buffer' k = pending buffer k"
    "\<forall>b \<in> set bs. snd b \<noteq> []" "dict_ok buffer'" using assms(1) by blast+
  have "batches_of bs k = pending buffer k \<and> pending buffer' k = []" for k
    using f(1,2) pending_no_item [of k buffer] by (cases "k \<in> fst ` set buffer") auto
  then show ?thesis using f(3,4) by blast
qed

section \<open>A session of calls\<close>

text \<open>
  Between the calls of one client other things happen that change where records go: threads set
  and clear leaders, the topology is updated, and queries move the counters of the strategy.
\<close>

datatype buffer_event =
    WriteCall "db_record list"
  | FlushCall
  | LeaderOp registry_op
  | NewTopology clusters
  | QueryCall query_request

type_synonym buffer_state = "router \<times> write_buffer"

fun buffer_step ::
  "(byte list \<Rightarrow> byte list) \<Rightarrow> int \<Rightarrow> buffer_state \<Rightarrow> buffer_event \<Rightarrow> (batch list \<times> buffer_state) option" where
  "buffer_step digest batch_size (rt, buffer) (WriteCall records) =
     (case write_records digest batch_size records rt buffer of
        None \<Rightarrow> None
      | Some (Inl e, rt', buffer') \<Rightarrow> Some ([], rt', buffer')
      | Some (Inr bs, rt', buffer') \<Rightarrow> Some (bs, rt', buffer'))"
| "buffer_step digest batch_size (rt, buffer) FlushCall =
     (case flush_buffer buffer of (bs, buffer') \<Rightarrow> Some (bs, rt, buffer'))"
| "buffer_step digest batch_size (rt, buffer) (LeaderOp op) =
     Some ([], rt\<lparr>leaders := registry_step (leaders rt) op\<rparr>, buffer)"
| "buffer_step digest batch_size (rt, buffer) (NewTopology cs) = Some ([], update_topology rt cs, buffer)"
| "buffer_step digest batch_size (rt, buffer) (QueryCall q) = Some ([], snd (router_query rt q), buffer)"

text \<open>The records a call accepts, with the nodes they were routed to: a \<open>write\<close> in which the router
  raises accepts none.\<close>

fun accepted :: "(byte list \<Rightarrow> byte list) \<Rightarrow> buffer_state \<Rightarrow> buffer_event \<Rightarrow> routed list" where
  "accepted digest (rt, buffer) (WriteCall records) =
     (case fst (route_trace digest rt records) of Inl e \<Rightarrow> [] | Inr t \<Rightarrow> t)"
| "accepted digest st ev = []"

text \<open>A run of calls: all batches handed out, all records accepted, and the last state.\<close>

fun batcher_run ::
  "('s \<Rightarrow> 'e \<Rightarrow> ((('k \<times> 'r list) list) \<times> 's) option) \<Rightarrow> ('s \<Rightarrow> 'e \<Rightarrow> ('k \<times> 'r) list) \<Rightarrow> 's \<Rightarrow> 'e list \<Rightarrow>
     (('k \<times> 'r list) list \<times> ('k \<times> 'r) list \<times> 's) option" where
  "batcher_run step taken_in s [] = Some ([], [], s)"
| "batcher_run step taken_in s (e # es) = (case step s e of None \<Rightarrow> None
     | Some (bs, s') \<Rightarrow> map_option (\<lambda>(cs, ts, s''). (bs @ cs, taken_in s e @ ts, s''))
         (batcher_run step taken_in s' es))"

text \<open>The contract of a batching buffer: what goes out for a key, followed by what waits for it,
  is what waited for it before, followed by what was accepted for it.\<close>

locale keyed_batcher =
  fixes step :: "'s \<Rightarrow> 'e \<Rightarrow> ((('k \<times> 'r list) list) \<times> 's) option"
    and taken_in :: "'s \<Rightarrow> 'e \<Rightarrow> ('k \<times> 'r) list"
    and waiting :: "'s \<Rightarrow> 'k \<Rightarrow> 'r list"
    and well :: "'s \<Rightarrow> bool"
  assumes step_total: "well s \<Longrightarrow> \<exists>bs s'. step s e = Some (bs, s')"
    and step_well: "well s \<Longrightarrow> step s e = Some (bs, s') \<Longrightarrow> well s'"
    and step_conserves: "well s \<Longrightarrow> step s e = Some (bs, s') \<Longrightarrow>
      concat (map snd (filter (\<lambda>b. fst b = k) bs)) @ waiting s' k =
      waiting s k @ map snd (filter (\<lambda>p. fst p = k) (taken_in s e))"
begin

lemma run_conserves:
  "well s \<Longrightarrow> \<exists>bs ts s'. batcher_run step taken_in s es = Some (bs, ts, s') \<and> well s' \<and>
     (\<forall>k. concat (map snd (filter (\<lambda>b. fst b = k) bs)) @ waiting s' k =
       waiting s k @ map snd (filter (\<lambda>p. fst p = k) ts))"
proof (induction es arbitrary: s)
  case Nil
  then show ?case by simp
next
  case (Cons e es)
  obtain bs s1 where s1: "step s e = Some (bs, s1)" using step_total Cons.prems by blast
  obtain cs ts s2 where s2: "batcher_run step taken_in s1 es = Some (cs, ts, s2)" "well s2"
    "\<forall>k. concat (map snd (filter (\<lambda>b. fst b = k) cs)) @ waiting s2 k =
       waiting s1 k @ map snd (filter (\<lambda>p. fst p = k) ts)"
    using Cons.IH [OF step_well [OF Cons.prems s1]] by blast
  have "concat (map snd (filter (\<lambda>b. fst b = k) (bs @ cs))) @ waiting s2 k =
      waiting s k @ map snd (filter (\<lambda>p. fst p = k) (taken_in s e @ ts))" for k
    using step_conserves [OF Cons.prems s1, of k] s2(3) by simp
  then show ?case using s1 s2 by simp
qed

end

definition buffer_well :: "int \<Rightarrow> buffer_state \<Rightarrow> bool" where
  "buffer_well batch_size st \<longleftrightarrow> 0 < batch_size \<and> dict_ok (snd st) \<and>
     (\<forall>k. int (length (pending (snd st) k)) < batch_size)"

lemma buffer_step_spec:
  assumes "buffer_well batch_size st"
  shows "\<exists>bs st'. buffer_step digest batch_size st ev = Some (bs, st') \<and> buffer_well batch_size st' \<and>
    (\<forall>k. batches_of bs k @ pending (snd st') k = pending (snd st) k @ routed_to (accepted digest st ev) k) \<and>
    (ev \<noteq> FlushCall \<longrightarrow> (\<forall>b \<in> set bs. int (length (snd b)) = batch_size))"
proof -
  obtain rt buffer where st: "st = (rt, buffer)" by (cases st)
  have w: "0 < batch_size" "dict_ok buffer" "\<forall>k. int (length (pending buffer k)) < batch_size"
    using assms st by (simp_all add: buffer_well_def)
  show ?thesis
  proof (cases ev)
    case (WriteCall records)
    obtain t rt' where t: "route_trace digest rt records = (t, rt')" by force
    show ?thesis
    proof (cases t)
      case (Inl e)
      then show ?thesis using write_records_raises [OF t [unfolded Inl]] t st WriteCall w
        by (simp add: buffer_well_def)
    next
      case (Inr u)
      obtain buffer' bs where "write_records digest batch_size records rt buffer = Some (Inr bs, rt', buffer')"
        "\<forall>k. batches_of bs k @ pending buffer' k = pending buffer k @ routed_to u k"
        "\<forall>b \<in> set bs. int (length (snd b)) = batch_size"
        "\<forall>k. int (length (pending buffer k)) < batch_size \<longrightarrow> int (length (pending buffer' k)) < batch_size"
        "dict_ok buffer \<longrightarrow> dict_ok buffer'"
        using write_records_spec [OF w(1) t [unfolded Inr], of buffer] by blast
      then show ?thesis using t Inr st WriteCall w by (simp add: buffer_well_def)
    qed
  next
    case FlushCall
    obtain bs buffer' where f: "flush_buffer buffer = (bs, buffer')" by force
    from flush_buffer_spec [OF w(2) f] show ?thesis using f st FlushCall w(1)
      by (simp add: buffer_well_def)
  qed (use st w in \<open>simp_all add: buffer_well_def\<close>)
qed

interpretation wb: keyed_batcher "buffer_step digest batch_size" "accepted digest"
  "\<lambda>st. pending (snd st)" "buffer_well batch_size" for digest batch_size
proof unfold_locales
  fix st :: buffer_state and ev bs st' k
  assume w: "buffer_well batch_size st"
  note spec = buffer_step_spec [OF w, of digest ev]
  from spec show "\<exists>bs s'. buffer_step digest batch_size st ev = Some (bs, s')" by blast
  assume "buffer_step digest batch_size st ev = Some (bs, st')"
  with spec have "buffer_well batch_size st' \<and>
      batches_of bs k @ pending (snd st') k = pending (snd st) k @ routed_to (accepted digest st ev) k"
    by auto
  then show "buffer_well batch_size st'"
    and "concat (map snd (filter (\<lambda>b. fst b = k) bs)) @ pending (snd st') k =
      pending (snd st) k @ map snd (filter (\<lambda>p. fst p = k) (accepted digest st ev))"
    by (simp_all add: batches_of_def routed_to_def)
qed

section \<open>Properties\<close>

text \<open>
  C6. Over any sequence of \<open>write\<close>, \<open>flush\<close> and query calls, leader changes and topology updates, with a
  positive batch size: every call returns, and for every node the batches handed out, followed by
  what waits in the buffer, are exactly the records accepted for that node, in their order - none
  lost, duplicated or moved; fewer than a batch wait for any node, and a final \<open>flush\<close> sends them.
\<close>

theorem write_session_conserves_records:
  assumes "0 < batch_size"
  shows "\<exists>bs ts st'. batcher_run (buffer_step digest batch_size) (accepted digest) (rt, []) evs = Some (bs, ts, st') \<and>
    (\<forall>k. batches_of bs k @ pending (snd st') k = routed_to ts k \<and>
      int (length (pending (snd st') k)) < batch_size \<and>
      batches_of (bs @ fst (flush_buffer (snd st'))) k = routed_to ts k)"
proof -
  have "buffer_well batch_size (rt, [])" using assms by (simp add: buffer_well_def)
  from wb.run_conserves [OF this, of digest evs] obtain bs ts st' where
    r: "batcher_run (buffer_step digest batch_size) (accepted digest) (rt, []) evs = Some (bs, ts, st')"
    and w: "buffer_well batch_size st'"
    and c: "\<forall>k. batches_of bs k @ pending (snd st') k = routed_to ts k"
    by (auto simp: batches_of_def routed_to_def)
  have "batches_of (fst (flush_buffer (snd st'))) k = pending (snd st') k" for k
    using flush_buffer_spec [of "snd st'"] w by (metis buffer_well_def prod.collapse)
  then show ?thesis using r w c unfolding buffer_well_def by auto
qed

definition demo_router :: router where
  "demo_router = update_topology (new_router (LeaderRouting new_base))
     [(''A'', [\<lparr>cluster_name = ''A'', node_id = 1, host = ''a'', port = 1\<rparr>]),
      (''B'', [\<lparr>cluster_name = ''B'', node_id = 2, host = ''b'', port = 2\<rparr>])]"

definition demo_rec :: "int \<Rightarrow> db_record" where
  "demo_rec k = \<lparr>key_id = k, timestamp = 0, content = CInt k\<rparr>"

theorem write_session_conserves_records_witness:
  "\<exists>bs ts st'. batcher_run (buffer_step (\<lambda>_. []) 2) (accepted (\<lambda>_. [])) (demo_router, [])
      [WriteCall (map demo_rec [0, 2, 4]), WriteCall [demo_rec 1]] = Some (bs, ts, st') \<and>
    batches_of bs (Some \<lparr>cluster_name = ''A'', node_id = 1, host = ''a'', port = 1\<rparr>) @
      pending (snd st') (Some \<lparr>cluster_name = ''A'', node_id = 1, host = ''a'', port = 1\<rparr>) =
    routed_to ts (Some \<lparr>cluster_name = ''A'', node_id = 1, host = ''a'', port = 1\<rparr>)"
  using write_session_conserves_records [of 2 "\<lambda>_. []" demo_router
      "[WriteCall (map demo_rec [0, 2, 4]), WriteCall [demo_rec 1]]"] by auto

text \<open>
  One \<open>write\<close> whose records the router accepts, with a positive batch size: the batches it
  hands out all have exactly \<open>batch_size\<close> records, and together with what stays buffered they
  continue each node's earlier buffer by the records routed to it, in order.
\<close>

theorem write_cuts_exact_batches:
  assumes "0 < batch_size" and "route_trace digest rt records = (Inr t, rt')"
  shows "\<exists>buffer' bs. write_records digest batch_size records rt buffer = Some (Inr bs, rt', buffer') \<and>
    (\<forall>k. batches_of bs k @ pending buffer' k = pending buffer k @ routed_to t k) \<and>
    (\<forall>b \<in> set bs. int (length (snd b)) = batch_size)"
  using write_records_spec [OF assms, of buffer] by blast

lemma demo_trace:
  "fst (route_trace (\<lambda>_. []) demo_router (map demo_rec [0, 1, 2])) =
    Inr [(Some \<lparr>cluster_name = ''A'', node_id = 1, host = ''a'', port = 1\<rparr>, demo_rec 0),
          (Some \<lparr>cluster_name = ''B'', node_id = 2, host = ''b'', port = 2\<rparr>, demo_rec 1),
          (Some \<lparr>cluster_name = ''A'', node_id = 1, host = ''a'', port = 1\<rparr>, demo_rec 2)]"
  by code_simp

lemma demo_trace_pair:
  "\<exists>rt'. route_trace (\<lambda>_. []) demo_router (map demo_rec [0, 1, 2]) =
     (Inr (projr (fst (route_trace (\<lambda>_. []) demo_router (map demo_rec [0, 1, 2])))), rt')"
  using demo_trace by (metis prod.collapse sum.sel(2))

theorem write_cuts_exact_batches_witness:
  "\<exists>rt' buffer' bs. write_records (\<lambda>_. []) 2 (map demo_rec [0, 1, 2]) demo_router [] = Some (Inr bs, rt', buffer') \<and>
    (\<forall>b \<in> set bs. int (length (snd b)) = 2)"
proof -
  obtain rt' where t: "route_trace (\<lambda>_. []) demo_router (map demo_rec [0, 1, 2]) =
      (Inr (projr (fst (route_trace (\<lambda>_. []) demo_router (map demo_rec [0, 1, 2])))), rt')"
    using demo_trace_pair by blast
  have "0 < (2 :: int)" by simp
  from write_cuts_exact_batches [OF this t, of "[]"] show ?thesis by blast
qed

text \<open>
  C40. With a batch size that is not positive, a \<open>write\<close> that routes at least one record never
  returns: the loop that cuts batches comes to remove nothing from the buffer it waits on.
\<close>

theorem write_without_batch_size_hangs:
  assumes "batch_size \<le> 0" and "route_trace digest rt records = (Inr t, rt')" and "t \<noteq> []"
  shows "write_records digest batch_size records rt buffer = None"
proof -
  obtain nr where nr: "route_records digest rt records [] = (Inr nr, rt')" "fst ` set nr = fst ` set t"
    using route_records_trace [OF dict_ok_Nil assms(2)] by auto
  then obtain node recs nr' where "nr = (node, recs) # nr'" using assms(3) by (cases nr) auto
  then show ?thesis using nr(1) cut_batches_diverges [OF assms(1)] by (simp add: write_records_def)
qed

theorem write_without_batch_size_hangs_witness:
  "write_records (\<lambda>_. []) 0 (map demo_rec [0, 1, 2]) demo_router [] = None"
proof -
  obtain rt' where t: "route_trace (\<lambda>_. []) demo_router (map demo_rec [0, 1, 2]) =
      (Inr (projr (fst (route_trace (\<lambda>_. []) demo_router (map demo_rec [0, 1, 2])))), rt')"
    using demo_trace_pair by blast
  show ?thesis by (rule write_without_batch_size_hangs [OF _ t]) (simp_all only: demo_trace, simp_all)
qed

end
