(* ===== verification/Write_Bench.thy ===== *)
theory Write_Bench
  imports Client_Setup Streams Write_Buffer
begin

text \<open>
  \<open>write-bench.py\<close>: the loop that feeds a stream of records to the client in chunks, the callback that
  sums up acknowledged batches, and the thread that reports throughput. Waiting for futures
  (throttling, jitter, the final wait) only delays the loop: Write_Throttle has the loop with its waits, and
  the same batches.
\<close>

section \<open>The feeding loop\<close>

text \<open>\<open>DbClient.write\<close> on the router and the buffer of a client; the batches it hands out are appended
  to those handed out so far.\<close>

record bench_state =
  bn_sent :: "batch list"
  bn_router :: router
  bn_buffer :: write_buffer

definition client_write ::
  "(byte list \<Rightarrow> byte list) \<Rightarrow> int \<Rightarrow> db_record list \<Rightarrow> bench_state \<Rightarrow> (unit res \<times> bench_state) option" where
  "client_write digest batch_size records st =
     (case write_records digest batch_size records (bn_router st) (bn_buffer st) of
        None \<Rightarrow> None
      | Some (Inl e, rt, buffer) \<Rightarrow> Some (Inl e, st\<lparr>bn_router := rt, bn_buffer := buffer\<rparr>)
      | Some (Inr bs, rt, buffer) \<Rightarrow>
          Some (Inr (), st\<lparr>bn_sent := bn_sent st @ bs, bn_router := rt, bn_buffer := buffer\<rparr>))"

text \<open>The loop over the stream: \<open>batch_buffer\<close> is written and emptied when it reaches
  \<open>buffer_size\<close>; what is left at the end is returned.\<close>

fun feed_records ::
  "(byte list \<Rightarrow> byte list) \<Rightarrow> int \<Rightarrow> nat \<Rightarrow> db_record list \<Rightarrow> db_record list \<Rightarrow> bench_state \<Rightarrow>
     (db_record list res \<times> bench_state) option" where
  "feed_records digest batch_size buffer_size batch_buffer [] st = Some (Inr batch_buffer, st)"
| "feed_records digest batch_size buffer_size batch_buffer (record # stream) st =
     (let batch_buffer = batch_buffer @ [record] in
      if buffer_size \<le> length batch_buffer
      then (case client_write digest batch_size batch_buffer st of
              None \<Rightarrow> None
            | Some (Inl e, st) \<Rightarrow> Some (Inl e, st)
            | Some (Inr _, st) \<Rightarrow> feed_records digest batch_size buffer_size [] stream st)
      else feed_records digest batch_size buffer_size batch_buffer stream st)"

text \<open>\<open>bench\<close>: the stream, the rest of the last chunk, and \<open>flush\<close>, which raises the first failure of
  a batch it waits for.\<close>

definition write_bench ::
  "(byte list \<Rightarrow> byte list) \<Rightarrow> int \<Rightarrow> nat \<Rightarrow> db_record list res \<Rightarrow> 'a res list \<Rightarrow> bench_state \<Rightarrow>
     (unit res \<times> bench_state) option" where
  "write_bench digest batch_size buffer_size stream outcomes st =
     (case stream of
        Inl e \<Rightarrow> Some (Inl e, st)
      | Inr records \<Rightarrow>
          (case feed_records digest batch_size buffer_size [] records st of
             None \<Rightarrow> None
           | Some (Inl e, st) \<Rightarrow> Some (Inl e, st)
           | Some (Inr batch_buffer, st) \<Rightarrow>
               (case (if batch_buffer = [] then Some (Inr (), st)
                      else client_write digest batch_size batch_buffer st) of
                  None \<Rightarrow> None
                | Some (Inl e, st) \<Rightarrow> Some (Inl e, st)
                | Some (Inr _, st) \<Rightarrow>
                    (case flush_buffer (bn_buffer st) of (bs, buffer) \<Rightarrow>
                       Some (await_flush outcomes, st\<lparr>bn_sent := bn_sent st @ bs, bn_buffer := buffer\<rparr>)))))"

section \<open>The report thread\<close>

text \<open>One row of the CSV file; megabytes are the bytes over \<open>2 ^ 20\<close>, before printing.\<close>

record csv_row =
  cv_time :: int
  cv_records :: int
  cv_bytes :: int
  cv_delta_ops :: int
  cv_delta_mb :: rat

record reporter =
  rp_prev_records_1s :: int
  rp_prev_bytes_1s :: int
  rp_prev_records_60s :: int
  rp_prev_bytes_60s :: int
  rp_seconds :: nat

definition new_reporter :: reporter where
  "new_reporter = \<lparr>rp_prev_records_1s = 0, rp_prev_bytes_1s = 0, rp_prev_records_60s = 0,
     rp_prev_bytes_60s = 0, rp_seconds = 0\<rparr>"

definition megabytes :: "int \<Rightarrow> rat" where
  "megabytes b = of_int b / (1024 * 1024)"

definition csv_row_of :: "int \<times> int \<times> int \<Rightarrow> reporter \<Rightarrow> csv_row" where
  "csv_row_of obs rp = (case obs of (now, curr_records, curr_bytes) \<Rightarrow>
     \<lparr>cv_time = now, cv_records = curr_records, cv_bytes = curr_bytes,
      cv_delta_ops = curr_records - rp_prev_records_1s rp,
      cv_delta_mb = megabytes (curr_bytes - rp_prev_bytes_1s rp)\<rparr>)"

text \<open>One tick: a row, and every 60th time the averages of the last minute.\<close>

definition reporter_tick ::
  "int \<times> int \<times> int \<Rightarrow> reporter \<Rightarrow> csv_row \<times> (rat \<times> rat) option \<times> reporter" where
  "reporter_tick obs rp = (case obs of (now, curr_records, curr_bytes) \<Rightarrow>
     let seconds = Suc (rp_seconds rp);
         rp1 = rp\<lparr>rp_seconds := seconds, rp_prev_records_1s := curr_records, rp_prev_bytes_1s := curr_bytes\<rparr>
     in (csv_row_of obs rp,
         if seconds mod 60 = 0
         then (Some (of_int (curr_records - rp_prev_records_60s rp) / 60,
                     megabytes (curr_bytes - rp_prev_bytes_60s rp) / 60),
               rp1\<lparr>rp_prev_records_60s := curr_records, rp_prev_bytes_60s := curr_bytes\<rparr>)
         else (None, rp1)))"

fun reporter_loop :: "(int \<times> int \<times> int) list \<Rightarrow> reporter \<Rightarrow> csv_row list \<times> (rat \<times> rat) list \<times> reporter" where
  "reporter_loop [] rp = ([], [], rp)"
| "reporter_loop (obs # ticks) rp =
     (case reporter_tick obs rp of (row, minute, rp) \<Rightarrow>
       (case reporter_loop ticks rp of (rows, minutes, rp) \<Rightarrow>
         (row # rows, (case minute of None \<Rightarrow> minutes | Some m \<Rightarrow> m # minutes), rp)))"

text \<open>The whole thread: the ticks until the stop event, and a last row for what came after them, or
  when there was none.\<close>

definition throughput_reporter :: "(int \<times> int \<times> int) list \<Rightarrow> int \<times> int \<times> int \<Rightarrow> csv_row list \<times> (rat \<times> rat) list" where
  "throughput_reporter ticks last_obs =
     (case reporter_loop ticks new_reporter of (rows, minutes, rp) \<Rightarrow>
       (if rp_prev_records_1s rp < fst (snd last_obs) \<or> rp_seconds rp = 0
        then rows @ [csv_row_of last_obs rp] else rows, minutes))"

section \<open>Routing a whole stream\<close>

lemma route_trace_append:
  "route_trace digest rt (xs @ ys) = (case route_trace digest rt xs of
     (Inl e, rt') \<Rightarrow> (Inl e, rt')
   | (Inr t, rt') \<Rightarrow> (case route_trace digest rt' ys of (u, rt'') \<Rightarrow> (map_sum id ((@) t) u, rt'')))"
proof (induction xs arbitrary: rt)
  case Nil
  obtain t rt' where "route_trace digest rt ys = (t, rt')" by force
  then show ?case by (cases t) simp_all
next
  case (Cons x xs)
  obtain n rt1 where i: "router_insert digest rt x = (n, rt1)" by force
  show ?case
  proof (cases n)
    case (Inl e)
    then show ?thesis using i by simp
  next
    case (Inr m)
    obtain t rt2 where t: "route_trace digest rt1 xs = (t, rt2)" by force
    then show ?thesis using i Inr Cons.IH [of rt1]
      by (cases t; cases "fst (route_trace digest rt2 ys)") (auto split: prod.splits)
  qed
qed

lemma route_trace_records: "route_trace digest rt rs = (Inr t, rt') \<Longrightarrow> map snd t = rs"
  by (induction rs arbitrary: rt t) (auto split: prod.splits sum.splits simp: map_sum_def)

lemma map_sum_Inr: "map_sum id f u = Inr v \<longleftrightarrow> (\<exists>w. u = Inr w \<and> v = f w)"
  by (cases u) auto

lemma route_trace_splitD:
  assumes "route_trace digest rt (xs @ ys) = (Inr t, rt')"
  obtains t1 t2 rt1 where "route_trace digest rt xs = (Inr t1, rt1)"
    and "route_trace digest rt1 ys = (Inr t2, rt')" and "t = t1 @ t2"
  using assms by (auto simp: route_trace_append map_sum_Inr split: prod.splits sum.splits)

text \<open>A router over a well-formed topology routes every record its strategy accepts, to a node.\<close>

definition routable :: "router \<Rightarrow> bool" where
  "routable rt \<longleftrightarrow> topology_ok (topology rt) \<and> strategy_ok (strategy rt)"

lemma same_strategy_accepts: "same_strategy s s' \<Longrightarrow> strategy_accepts s' r = strategy_accepts s r"
  by (cases s; cases s') simp_all

lemma router_insert_total:
  assumes "routable rt" and "strategy_accepts (strategy rt) r"
  shows "\<exists>n rt'. router_insert digest rt r = (Inr (Some n), rt') \<and> routable rt' \<and>
    (\<forall>x. strategy_accepts (strategy rt') x = strategy_accepts (strategy rt) x)"
proof -
  obtain res s where i: "get_node_insert digest (strategy rt) r (leaders rt) (topology rt) = (res, s)" by force
  have "\<exists>n. res = Inr (Some n)"
    using router_rc.ins_total [of "strategy rt" r "topology rt" digest "leaders rt"] assms i
    by (simp add: routable_def)
  moreover have "strategy_ok s \<and> same_strategy (strategy rt) s"
    using router_rc.ins_keeps [of "strategy rt" digest r "leaders rt" "topology rt"] assms(1) i
    by (simp add: routable_def)
  ultimately show ?thesis using i assms(1)
    by (auto simp: router_insert_def routable_def same_strategy_accepts)
qed

lemma route_trace_total:
  "routable rt \<Longrightarrow> list_all (strategy_accepts (strategy rt)) rs \<Longrightarrow>
   \<exists>t rt'. route_trace digest rt rs = (Inr t, rt') \<and> (\<forall>p \<in> set t. fst p \<noteq> None)"
proof (induction rs arbitrary: rt)
  case (Cons r rs)
  obtain n rt1 where i: "router_insert digest rt r = (Inr (Some n), rt1)" "routable rt1"
    "\<forall>x. strategy_accepts (strategy rt1) x = strategy_accepts (strategy rt) x"
    using router_insert_total [of rt r digest] Cons.prems by auto
  then obtain t rt' where "route_trace digest rt1 rs = (Inr t, rt')" "\<forall>p \<in> set t. fst p \<noteq> None"
    using Cons.IH [of rt1] Cons.prems by (auto simp: list_all_iff)
  then show ?case using i by simp
qed simp

section \<open>What the loop hands out\<close>

text \<open>The state of a run: a positive batch size, a dictionary, and less than a batch per node.\<close>

definition bench_ok :: "int \<Rightarrow> bench_state \<Rightarrow> bool" where
  "bench_ok batch_size st \<longleftrightarrow> 0 < batch_size \<and> dict_ok (bn_buffer st) \<and>
     (\<forall>b \<in> set (bn_sent st). snd b \<noteq> [])"

lemma client_write_spec:
  assumes "bench_ok batch_size st" and "route_trace digest (bn_router st) rs = (Inr t, rt')"
  shows "\<exists>st'. client_write digest batch_size rs st = Some (Inr (), st') \<and> bench_ok batch_size st' \<and>
    bn_router st' = rt' \<and> (\<forall>k. batches_of (bn_sent st') k @ pending (bn_buffer st') k =
      batches_of (bn_sent st) k @ pending (bn_buffer st) k @ routed_to t k)"
proof -
  have pos: "0 < batch_size" using assms(1) by (simp add: bench_ok_def)
  obtain buffer bs where w: "write_records digest batch_size rs (bn_router st) (bn_buffer st) =
      Some (Inr bs, rt', buffer)"
    and c: "\<forall>k. batches_of bs k @ pending buffer k = pending (bn_buffer st) k @ routed_to t k"
    and l: "\<forall>b \<in> set bs. int (length (snd b)) = batch_size"
    and d: "dict_ok (bn_buffer st) \<longrightarrow> dict_ok buffer"
    using write_records_spec [OF pos assms(2), of "bn_buffer st"] by blast
  have "\<forall>b \<in> set bs. snd b \<noteq> []" using l pos by force
  then show ?thesis using w c d assms(1) by (auto simp: client_write_def bench_ok_def)
qed

lemma feed_records_spec:
  assumes "bench_ok batch_size st" and "route_trace digest (bn_router st) (batch_buffer @ rs) = (Inr t, rt')"
  shows "\<exists>st' rest t1 t2. feed_records digest batch_size buffer_size batch_buffer rs st = Some (Inr rest, st') \<and>
    bench_ok batch_size st' \<and> t = t1 @ t2 \<and> route_trace digest (bn_router st') rest = (Inr t2, rt') \<and>
    (\<forall>k. batches_of (bn_sent st') k @ pending (bn_buffer st') k =
      batches_of (bn_sent st) k @ pending (bn_buffer st) k @ routed_to t1 k)"
  using assms
proof (induction rs arbitrary: batch_buffer st t)
  case Nil
  then show ?case
    by (intro exI [of _ st] exI [of _ batch_buffer] exI [where x = "[]"] exI [of _ t]) simp
next
  case (Cons r rs)
  have split: "route_trace digest (bn_router st) ((batch_buffer @ [r]) @ rs) = (Inr t, rt')"
    using Cons.prems(2) by simp
  show ?case
  proof (cases "buffer_size \<le> length (batch_buffer @ [r])")
    case False
    with Cons.IH [OF Cons.prems(1) split] show ?thesis by (simp add: Let_def)
  next
    case True
    from route_trace_splitD [OF split] obtain t1 t2 rt1 where
      t1: "route_trace digest (bn_router st) (batch_buffer @ [r]) = (Inr t1, rt1)"
      and t2: "route_trace digest rt1 rs = (Inr t2, rt')" and t: "t = t1 @ t2" .
    from client_write_spec [OF Cons.prems(1) t1] obtain st1 where
      w: "client_write digest batch_size (batch_buffer @ [r]) st = Some (Inr (), st1)" "bench_ok batch_size st1"
      "bn_router st1 = rt1" and c: "\<forall>k. batches_of (bn_sent st1) k @ pending (bn_buffer st1) k =
        batches_of (bn_sent st) k @ pending (bn_buffer st) k @ routed_to t1 k" by blast
    have "route_trace digest (bn_router st1) ([] @ rs) = (Inr t2, rt')" using t2 w(3) by simp
    from Cons.IH [OF w(2) this] obtain st2 rest u1 u2 where
      f: "feed_records digest batch_size buffer_size [] rs st1 = Some (Inr rest, st2)" "bench_ok batch_size st2"
      "t2 = u1 @ u2" "route_trace digest (bn_router st2) rest = (Inr u2, rt')"
      and c2: "\<forall>k. batches_of (bn_sent st2) k @ pending (bn_buffer st2) k =
        batches_of (bn_sent st1) k @ pending (bn_buffer st1) k @ routed_to u1 k" by blast
    have "\<forall>k. batches_of (bn_sent st2) k @ pending (bn_buffer st2) k =
        batches_of (bn_sent st) k @ pending (bn_buffer st) k @ routed_to (t1 @ u1) k"
      using c c2 by (metis append.assoc routed_to_simps(3))
    then show ?thesis using True w(1) f t
      by (intro exI [of _ st2] exI [of _ rest] exI [of _ "t1 @ u1"] exI [of _ u2]) (simp add: Let_def)
  qed
qed

lemma write_bench_spec:
  assumes "bench_ok batch_size st" and "route_trace digest (bn_router st) rs = (Inr t, rt')"
  shows "\<exists>st'. write_bench digest batch_size buffer_size (Inr rs) outcomes st = Some (await_flush outcomes, st') \<and>
    bench_ok batch_size st' \<and> (\<forall>k. batches_of (bn_sent st') k =
      batches_of (bn_sent st) k @ pending (bn_buffer st) k @ routed_to t k) \<and>
    (\<forall>k. pending (bn_buffer st') k = [])"
proof -
  from feed_records_spec [OF assms(1), of digest "[]" rs t rt' buffer_size] assms(2) obtain st1 rest t1 t2 where
    f: "feed_records digest batch_size buffer_size [] rs st = Some (Inr rest, st1)" and ok1: "bench_ok batch_size st1"
    and t: "t = t1 @ t2" and r: "route_trace digest (bn_router st1) rest = (Inr t2, rt')"
    and c: "\<forall>k. batches_of (bn_sent st1) k @ pending (bn_buffer st1) k =
      batches_of (bn_sent st) k @ pending (bn_buffer st) k @ routed_to t1 k" by auto
  obtain st2 where w: "(if rest = [] then Some (Inr (), st1) else client_write digest batch_size rest st1) =
      Some (Inr (), st2)" and ok2: "bench_ok batch_size st2"
    and c2: "\<forall>k. batches_of (bn_sent st2) k @ pending (bn_buffer st2) k =
      batches_of (bn_sent st1) k @ pending (bn_buffer st1) k @ routed_to t2 k"
    using client_write_spec [OF ok1 r] ok1 r by (cases "rest = []") auto
  obtain bs buffer where fl: "flush_buffer (bn_buffer st2) = (bs, buffer)" by force
  have d: "dict_ok (bn_buffer st2)" using ok2 by (simp add: bench_ok_def)
  note spec = flush_buffer_spec [OF d fl]
  have "batches_of (bn_sent st2 @ bs) k = batches_of (bn_sent st) k @ pending (bn_buffer st) k @ routed_to t k" for k
  proof -
    have "batches_of (bn_sent st2 @ bs) k = batches_of (bn_sent st2) k @ pending (bn_buffer st2) k"
      using spec by simp
    also have "\<dots> = (batches_of (bn_sent st1) k @ pending (bn_buffer st1) k) @ routed_to t2 k" using c2 by simp
    also have "\<dots> = batches_of (bn_sent st) k @ pending (bn_buffer st) k @ routed_to t k"
      unfolding c [rule_format] t by simp
    finally show ?thesis .
  qed
  moreover have "write_bench digest batch_size buffer_size (Inr rs) outcomes st =
      Some (await_flush outcomes, st2\<lparr>bn_sent := bn_sent st2 @ bs, bn_buffer := buffer\<rparr>)"
    using f w fl by (simp add: write_bench_def del: feed_records.simps)
  moreover have "bench_ok batch_size (st2\<lparr>bn_sent := bn_sent st2 @ bs, bn_buffer := buffer\<rparr>)"
    using ok2 spec by (auto simp: bench_ok_def)
  ultimately show ?thesis using spec
    by (intro exI [of _ "st2\<lparr>bn_sent := bn_sent st2 @ bs, bn_buffer := buffer\<rparr>"]) simp
qed

text \<open>Batches that hold, for every node, what was routed to it hold all records.\<close>

lemma batches_mset:
  assumes "\<forall>k. batches_of bs k = routed_to t k"
  shows "mset (concat (map snd bs)) = mset (map snd t)"
proof -
  let ?ps = "concat (map (\<lambda>(k, rs). map (Pair k) rs) bs)"
  have f: "filter (\<lambda>p. fst p = k) ?ps = map (Pair k) (batches_of bs k)" for k
    by (induction bs) (auto simp: batches_of_def filter_map o_def intro: filter_False)
  have g: "filter (\<lambda>p. fst p = k) t = map (Pair k) (routed_to t k)" for k
    by (induction t) auto
  have "count (mset ?ps) p = count (mset t) p" for p
  proof -
    have "count (mset xs) p = count (mset (filter (\<lambda>q. fst q = fst p) xs)) p" for xs :: "routed list"
      by (simp add: count_filter_mset)
    then show ?thesis using f [of "fst p"] g [of "fst p"] assms by metis
  qed
  then have "mset ?ps = mset t" by (rule multiset_eqI)
  then have "mset (map snd ?ps) = mset (map snd t)" by (simp only: mset_map)
  moreover have "map snd ?ps = concat (map snd bs)" by (induction bs) (auto simp: o_def)
  ultimately show ?thesis by simp
qed

lemma batches_of_nonempty: "b \<in> set bs \<Longrightarrow> snd b \<noteq> [] \<Longrightarrow> batches_of bs (fst b) \<noteq> []"
  by (cases b) (auto simp: batches_of_def)

lemma routed_to_empty: "\<forall>p \<in> set t. fst p \<noteq> k \<Longrightarrow> routed_to t k = []"
  by (induction t) auto

section \<open>Properties\<close>

text \<open>
  The write benchmark over a client with a well-formed topology, whose strategy can route every
  record of the stream: the run ends with what its last \<open>flush\<close> gives, every record of the stream is in
  exactly one batch that was handed out for a node, no batch is empty, and nothing waits in the buffer
  any more, whatever the sizes of chunks and batches.
\<close>

theorem write_bench_sends_every_record:
  assumes "routable rt" and "list_all (strategy_accepts (strategy rt)) rs" and "0 < batch_size"
  shows "\<exists>st'. write_bench digest batch_size buffer_size (Inr rs) outcomes
      \<lparr>bn_sent = [], bn_router = rt, bn_buffer = []\<rparr> = Some (await_flush outcomes, st') \<and>
    mset (concat (map snd (bn_sent st'))) = mset rs \<and>
    (\<forall>b \<in> set (bn_sent st'). fst b \<noteq> None \<and> snd b \<noteq> []) \<and> (\<forall>k. pending (bn_buffer st') k = [])"
proof -
  let ?st = "\<lparr>bn_sent = [], bn_router = rt, bn_buffer = []\<rparr>"
  obtain t rt' where t: "route_trace digest rt rs = (Inr t, rt')" "\<forall>p \<in> set t. fst p \<noteq> None"
    using route_trace_total [OF assms(1,2)] by blast
  have ok: "bench_ok batch_size ?st" using assms(3) by (simp add: bench_ok_def)
  from write_bench_spec [OF ok, of digest rs t rt' buffer_size outcomes] t(1) obtain st' where
    w: "write_bench digest batch_size buffer_size (Inr rs) outcomes ?st = Some (await_flush outcomes, st')"
    and ok': "bench_ok batch_size st'" and c: "\<forall>k. batches_of (bn_sent st') k = routed_to t k"
    and p: "\<forall>k. pending (bn_buffer st') k = []" by auto
  have "mset (concat (map snd (bn_sent st'))) = mset rs"
    using batches_mset [OF c] route_trace_records [OF t(1)] by simp
  moreover have "fst b \<noteq> None" if b: "b \<in> set (bn_sent st')" for b
  proof
    assume "fst b = None"
    moreover have "snd b \<noteq> []" using ok' b by (simp add: bench_ok_def)
    ultimately have "batches_of (bn_sent st') None \<noteq> []" using batches_of_nonempty [OF b] by simp
    then show False using c routed_to_empty [OF t(2)] by simp
  qed
  ultimately show ?thesis using w ok' p by (auto simp: bench_ok_def)
qed

lemma demo_router_routable: "routable demo_router"
  by (simp add: routable_def demo_router_def update_topology_def new_router_def topology_ok_def
      clusters_ok_def dict_ok_def)

theorem write_bench_sends_every_record_witness:
  "\<exists>st'. write_bench (\<lambda>_. []) 2 3 (Inr (map demo_rec [0, 1, 2, 3])) [Inr (), Inl RuntimeError]
      \<lparr>bn_sent = [], bn_router = demo_router, bn_buffer = []\<rparr> = Some (Inl RuntimeError, st') \<and>
    mset (concat (map snd (bn_sent st'))) = mset (map demo_rec [0, 1, 2, 3])"
proof -
  have "list_all (strategy_accepts (strategy demo_router)) (map demo_rec [0, 1, 2, 3])"
    by (simp add: demo_router_def update_topology_def new_router_def)
  from write_bench_sends_every_record [OF demo_router_routable this, of 2 "\<lambda>_. []" 3 "[Inr (), Inl RuntimeError]"]
  show ?thesis by auto
qed

text \<open>The report: the differences telescope.\<close>

lemma reporter_loop_sums:
  "reporter_loop ticks rp = (rows, minutes, rp') \<Longrightarrow>
     sum_list (map cv_delta_ops rows) = rp_prev_records_1s rp' - rp_prev_records_1s rp \<and>
     sum_list (map cv_delta_mb rows) = megabytes (rp_prev_bytes_1s rp') - megabytes (rp_prev_bytes_1s rp) \<and>
     map cv_records rows = map (fst \<circ> snd) ticks \<and> rp_seconds rp' = rp_seconds rp + length ticks \<and>
     (ticks \<noteq> [] \<longrightarrow> rp_prev_records_1s rp' = fst (snd (last ticks)))"
proof (induction ticks arbitrary: rp rows minutes)
  case (Cons obs ticks)
  obtain row minute rp1 where t: "reporter_tick obs rp = (row, minute, rp1)" by (metis prod_cases3)
  obtain rows1 minutes1 where l: "reporter_loop ticks rp1 = (rows1, minutes1, rp')" "rows = row # rows1"
    using Cons.prems t by (auto split: prod.splits)
  obtain now recs bytes where obs: "obs = (now, recs, bytes)" by (cases obs)
  have "cv_delta_ops row = recs - rp_prev_records_1s rp" "cv_records row = recs"
    "cv_delta_mb row = megabytes bytes - megabytes (rp_prev_bytes_1s rp)" "rp_prev_records_1s rp1 = recs"
    "rp_prev_bytes_1s rp1 = bytes" "rp_seconds rp1 = Suc (rp_seconds rp)"
    using t by (auto simp: reporter_tick_def csv_row_of_def obs Let_def megabytes_def diff_divide_distrib
        split: if_splits)
  then show ?case using Cons.IH [OF l(1)] l(2) obs by (cases "ticks = []") auto
qed simp

text \<open>
  The CSV file of the report thread adds up: for totals that never fall, the differences of its
  rows sum to the last total, whatever the moments of the ticks and of the stop, the file has a row,
  and its last row shows that total.
\<close>

theorem throughput_report_adds_up:
  assumes "sorted (map (fst \<circ> snd) (ticks @ [last_obs]))" and "0 \<le> fst (snd last_obs)"
  shows "sum_list (map cv_delta_ops (fst (throughput_reporter ticks last_obs))) = fst (snd last_obs) \<and>
    fst (throughput_reporter ticks last_obs) \<noteq> [] \<and>
    cv_records (last (fst (throughput_reporter ticks last_obs))) = fst (snd last_obs)"
proof -
  obtain rows minutes rp where l: "reporter_loop ticks new_reporter = (rows, minutes, rp)" by (metis prod_cases3)
  note sums = reporter_loop_sums [OF l]
  have r: "sum_list (map cv_delta_ops rows) = rp_prev_records_1s rp" "rp_seconds rp = length ticks"
    "map cv_records rows = map (fst \<circ> snd) ticks"
    using sums by (simp_all add: new_reporter_def)
  obtain now recs bytes where obs: "last_obs = (now, recs, bytes)" by (cases last_obs)
  show ?thesis
  proof (cases "rp_prev_records_1s rp < recs \<or> ticks = []")
    case True
    then have "fst (throughput_reporter ticks last_obs) = rows @ [csv_row_of last_obs rp]"
      using l r(2) by (auto simp: throughput_reporter_def obs)
    then show ?thesis using r(1) by (simp add: csv_row_of_def obs)
  next
    case False
    then have "rp_prev_records_1s rp = fst (snd (last ticks))" "ticks \<noteq> []" using sums by auto
    moreover have "fst (snd (last ticks)) \<le> recs"
      using assms(1) False by (auto simp: sorted_append obs)
    ultimately have e: "rp_prev_records_1s rp = recs" using False by simp
    have n: "rows \<noteq> []" using r(3) False by auto
    then have "cv_records (last rows) = last (map cv_records rows)" by (simp add: last_map)
    also have "\<dots> = recs" using r(3) False e \<open>rp_prev_records_1s rp = fst (snd (last ticks))\<close> by (simp add: last_map)
    finally show ?thesis using l r e n False by (simp add: throughput_reporter_def obs)
  qed
qed

theorem throughput_report_adds_up_witness:
  "sum_list (map cv_delta_ops (fst (throughput_reporter [(1, 5, 50), (2, 9, 90)] (3, 12, 120)))) = 12"
  using throughput_report_adds_up [of "[(1, 5, 50), (2, 9, 90)]" "(3, 12, 120)"] by simp

end
