(* ===== verification/Read_Session.thy ===== *)
theory Read_Session
  imports Mock_Pages Client_Setup Write_Bench
begin

text \<open>
  \<open>read\<close> of \<open>client/dbclient.py\<close> as a whole: the router names the nodes, every future runs
  \<open>_query_single_node\<close> on the client's sockets, and the aggregator waits for one future after the
  other, in an order that is an argument. A call to the network is one step here; that workers
  interleave inside it without sharing a socket is shown in \<^theory_text>\<open>Socket_Pool\<close>.
\<close>

section \<open>The loop\<close>

text \<open>What a call meets: the registry as other threads left it, and the environments of its attempts.\<close>

type_synonym world = "nat \<Rightarrow> page_call \<Rightarrow> registry \<times> (nat \<Rightarrow> query_env)"

text \<open>\<open>while active_futures\<close>: each number picks the future that completes next. With no number left
  the loop still waits.\<close>

fun read_loop ::
  "clusters \<Rightarrow> query_request \<Rightarrow> bool \<Rightarrow> world \<Rightarrow> nat list \<Rightarrow> aggregator \<Rightarrow> query_state \<Rightarrow>
     aggregator res \<times> query_state" where
  "read_loop cs q skip_records world [] ag st = (Inr ag, st)"
| "read_loop cs q skip_records world (k # ks) ag st =
     (if ag_active ag = [] then (Inr ag, st)
      else case ag_active ag ! (k mod length (ag_active ag)) of (fut, call) \<Rightarrow>
        case world fut call of (reg, envs) \<Rightarrow>
        case query_single_node cs reg envs (pc_node call) (pc_query call) skip_records (Some (pc_req_id call)) st of
          (outcome, st') \<Rightarrow>
        case read_step q ag (fut, outcome) of
          Inl e \<Rightarrow> (Inl e, st')
        | Inr ag' \<Rightarrow> read_loop cs q skip_records world ks ag' (st'\<lparr>qs_counter := ag_next_req ag'\<rparr>))"

definition client_read ::
  "client \<Rightarrow> query_request \<Rightarrow> bool \<Rightarrow> world \<Rightarrow> nat list \<Rightarrow> read_results res option \<times> client" where
  "client_read cl q skip_records world ks =
     (case read_submit (cl_router cl) q (cl_req_counter cl) of
        (Inl e, rt) \<Rightarrow> (Some (Inl e), cl\<lparr>cl_router := rt\<rparr>)
      | (Inr ag, rt) \<Rightarrow>
          (case read_loop (cl_clusters cl) q skip_records world ks ag
                  \<lparr>qs_net = cl_net cl, qs_counter = ag_next_req ag\<rparr> of
             (r, st) \<Rightarrow>
               (case r of Inl e \<Rightarrow> Some (Inl TimeoutError)
                | Inr ag' \<Rightarrow> if ag_active ag' = [] then Some (Inr (build_read_results ag')) else None,
                cl\<lparr>cl_router := rt, cl_net := qs_net st, cl_req_counter := qs_counter st\<rparr>)))"

section \<open>Request ids\<close>

definition ids_ok :: "int \<Rightarrow> aggregator \<Rightarrow> bool" where
  "ids_ok i ag \<longleftrightarrow> i \<le> ag_next_req ag \<and>
     (\<forall>(f, call) \<in> set (ag_active ag). i \<le> pc_req_id call \<and> pc_req_id call < ag_next_req ag)"

lemma follow_pages_ids:
  "ids_ok i ag \<Longrightarrow> ids_ok i (follow_pages q n r ag) \<and> ag_next_req (follow_pages q n r ag) \<le> ag_next_req ag + 1"
  by (auto simp: ids_ok_def follow_pages_def)

lemma read_step_follow:
  assumes "read_step q ag (fut, outcome) = Inr ag'"
  shows "\<exists>n r ag0. ag' = follow_pages q n r ag0 \<and> ag_active ag0 = filter (\<lambda>a. fst a \<noteq> fut) (ag_active ag) \<and>
    ag_next_req ag0 = ag_next_req ag"
proof -
  obtain n r s e where o: "outcome = Inr (n, r, s, e)" using assms by (auto simp: read_step_def res_simps)
  define ag0 where "ag0 = note_times s e (ag\<lparr>ag_active := filter (\<lambda>a. fst a \<noteq> fut) (ag_active ag)\<rparr>)"
  have fields: "ag_active (note_metrics (query_id q) r s e ag0) = filter (\<lambda>a. fst a \<noteq> fut) (ag_active ag)"
    "ag_next_req (note_metrics (query_id q) r s e ag0) = ag_next_req ag"
    by (simp_all add: ag0_def note_metrics_def note_times_def)
  have step: "(case map_of (ag_tracker ag) fut of Some (m, i) \<Rightarrow> page_done q m i r s e ag0
      | None \<Rightarrow> initial_done q n r s e ag0) = Inr ag'"
    using assms by (cases "map_of (ag_tracker ag) fut") (auto simp: read_step_def o Let_def ag0_def note_times_def)
  have "\<exists>m r'. ag' = follow_pages q m r' (note_metrics (query_id q) r s e ag0)" if "initial_done q n r s e ag0 = Inr ag'"
    using that by (auto simp: initial_done_def split: if_splits)
  moreover have "\<exists>m r'. ag' = follow_pages q m r' (note_metrics (query_id q) r s e ag0)"
    if "page_done q m i r s e ag0 = Inr ag'" for m i
    using that by (auto simp: page_done_def Let_def res_simps split: if_splits)
  ultimately have "\<exists>m r'. ag' = follow_pages q m r' (note_metrics (query_id q) r s e ag0)"
    using step by (cases "map_of (ag_tracker ag) fut") auto
  then show ?thesis using fields by blast
qed

lemma read_step_ids:
  assumes "read_step q ag (fut, outcome) = Inr ag'" and "ids_ok i ag"
  shows "ids_ok i ag' \<and> ag_next_req ag' \<le> ag_next_req ag + 1"
proof -
  obtain n r ag0 where f: "ag' = follow_pages q n r ag0" "ag_active ag0 = filter (\<lambda>a. fst a \<noteq> fut) (ag_active ag)"
    "ag_next_req ag0 = ag_next_req ag" using read_step_follow [OF assms(1)] by blast
  have "ids_ok i ag0" using assms(2) by (auto simp: ids_ok_def f(2,3))
  then show ?thesis using follow_pages_ids [of i ag0 q n r] f(1,3) by simp
qed

section \<open>Clusters that answer\<close>

definition world_answers :: "clusters \<Rightarrow> world \<Rightarrow> bool" where
  "world_answers cs world \<longleftrightarrow> (\<forall>fut call bs. cluster_name (pc_node call) \<in> set (dict_keys cs) \<longrightarrow>
     encode_query (pc_req_id call) (pc_query call) = Inr bs \<longrightarrow>
     cluster_answers cs (snd (world fut call)) (pc_node call) bs)"

lemma next_page_fits:
  assumes "queries_fit q" and "mock_pages.partly q c r"
  shows "queries_fit (next_page_query q r)"
  using assms by (auto simp: queries_fit_def query_u64_def is_u64_def next_page_query_def mock_pages.partly_def)

lemma active_call_fits:
  assumes "mock_pages.call_ok q ag (fut, call)" and "queries_fit q"
  shows "queries_fit (pc_query call)"
  using assms next_page_fits by (auto simp: mock_pages.call_ok_def split: option.splits)

lemma active_weight: "ag_active ag \<noteq> [] \<Longrightarrow> 0 < work_left q ag"
  by (cases "ag_active ag") (auto simp: work_left_def call_weight_def)

lemma read_loop_mock:
  assumes "mock_pages.read_inv q {} ag" and "ids_ok i ag" and "0 \<le> i" and "net_ok (qs_net st)"
    and "queries_fit q" and "clusters_ok cs" and "world_answers cs world"
    and "set (active_clusters ag) \<union> set (accum_clusters ag) \<subseteq> set (dict_keys cs)"
    and "ag_next_req ag + int (work_left q ag) < 2 ^ 64" and "work_left q ag \<le> length ks"
  shows "\<exists>ag' st'. read_loop cs q False world ks ag st = (Inr ag', st') \<and> ag_active ag' = [] \<and>
    mock_pages.read_inv q {} ag' \<and> net_ok (qs_net st') \<and>
    set (accum_clusters ag') = set (active_clusters ag) \<union> set (accum_clusters ag)"
  using assms
proof (induction ks arbitrary: ag st)
  case Nil
  then have "ag_active ag = []" using active_weight [of ag q] by auto
  then show ?case using Nil by (simp add: active_clusters_def)
next
  case (Cons k ks)
  show ?case
  proof (cases "ag_active ag = []")
    case True
    then show ?thesis using Cons.prems by (simp add: active_clusters_def)
  next
    case False
    obtain fut call where fc: "ag_active ag ! (k mod length (ag_active ag)) = (fut, call)" by force
    obtain reg envs where w: "world fut call = (reg, envs)" by force
    have "k mod length (ag_active ag) < length (ag_active ag)" using False by simp
    then have mem: "(fut, call) \<in> set (ag_active ag)" using fc by (metis nth_mem)
    have c: "cluster_name (pc_node call) \<in> set (dict_keys cs)"
      using mem Cons.prems(8) by (force simp: active_clusters_def)
    have fits: "queries_fit (pc_query call)"
      using mem Cons.prems(1,5) by (auto simp: mock_pages.read_inv_def intro: active_call_fits)
    have "is_u64 (pc_req_id call)"
      using mem Cons.prems(2,3,9) by (force simp: ids_ok_def is_u64_def)
    then obtain bs where bs: "encode_query (pc_req_id call) (pc_query call) = Inr bs"
      using fits by (auto simp: encode_query_eq queries_fit_def)
    have "cluster_answers cs envs (pc_node call) bs"
      using Cons.prems(7) c bs w unfolding world_answers_def by (metis snd_conv)
    from query_single_node_mock [OF Cons.prems(4) bs fits this, of reg False] obtain n s e st1 where
      ans: "query_single_node cs reg envs (pc_node call) (pc_query call) False (Some (pc_req_id call)) st =
        (Inr (n, mock_answer (pc_req_id call) (pc_query call) False, s, e), st1)"
      and n: "n \<in> set (dict_get_default cs (cluster_name (pc_node call)) [])" and ok: "query_state_ok st st1" by blast
    have "cluster_name n = cluster_name (pc_node call)"
      using Cons.prems(6) n by (rule cluster_member)
    then have "call_served mock_answers call (Inr (n, mock_answer (pc_req_id call) (pc_query call) False, s, e))"
      by (auto simp: call_served_def mock_answers_def mock_answer_def Let_def)
    from mock_pages.read_step_served [OF Cons.prems(1) mem this] obtain ag1 where
      ag1: "read_step q ag (fut, Inr (n, mock_answer (pc_req_id call) (pc_query call) False, s, e)) = Inr ag1"
      "mock_pages.progressed q ag ag1" by blast
    note ids = read_step_ids [OF ag1(1) Cons.prems(2)]
    have p: "mock_pages.read_inv q {} ag1" "work_left q ag1 < work_left q ag"
      "set (active_clusters ag1) \<union> set (accum_clusters ag1) = set (active_clusters ag) \<union> set (accum_clusters ag)"
      using ag1(2) by (simp_all add: mock_pages.progressed_def)
    have "\<exists>ag' st'. read_loop cs q False world ks ag1 (st1\<lparr>qs_counter := ag_next_req ag1\<rparr>) = (Inr ag', st') \<and>
        ag_active ag' = [] \<and> mock_pages.read_inv q {} ag' \<and> net_ok (qs_net st') \<and>
        set (accum_clusters ag') = set (active_clusters ag1) \<union> set (accum_clusters ag1)"
      using Cons.prems p ids ok by (intro Cons.IH) (auto simp: query_state_ok_def)
    then show ?thesis using False fc w ans ag1(1) p(3) by simp
  qed
qed

section \<open>The results\<close>

lemma filed_apart:
  "distinct (map fst results @ map cluster_name (dict_keys accum)) \<Longrightarrow>
   foldl (\<lambda>results p. file_under p results) results accum =
     results @ map (\<lambda>(n, r). (cluster_name n, [(node_name n, n, r)])) accum"
proof (induction accum arbitrary: results)
  case (Cons p accum)
  obtain n r where p: "p = (n, r)" by (cases p)
  then have new: "cluster_name n \<notin> set (dict_keys results)" using Cons.prems by simp
  then have "map_of results (cluster_name n) = None" by (simp add: map_of_eq_None_iff)
  then have "file_under p results = results @ [(cluster_name n, [(node_name n, n, r)])]"
    using p new by (simp add: file_under_def dict_get_default_def update_fresh)
  moreover have "distinct (map fst (results @ [(cluster_name n, [(node_name n, n, r)])]) @ map cluster_name (dict_keys accum))"
    using Cons.prems p by auto
  ultimately show ?case using Cons.IH p by simp
qed simp

text \<open>What a read that ended returns: one entry per cluster, with every record.\<close>

definition every_record :: "query_request \<Rightarrow> string set \<Rightarrow> read_results \<Rightarrow> bool" where
  "every_record q cnames res \<longleftrightarrow> set (dict_keys (rr_clusters res)) = cnames \<and> dict_ok (rr_clusters res) \<and>
     (\<forall>(c, entries) \<in> set (rr_clusters res). \<exists>n r. entries = [(node_name n, n, r)] \<and> cluster_name n = c \<and>
        r_records r = map mock_rec [min_id q..max_id q] \<and> \<not> r_limit_reached r)"

lemma ended_results:
  assumes "mock_pages.read_inv q {} ag" and "ag_active ag = []"
  shows "every_record q (set (accum_clusters ag)) (build_read_results ag)"
proof -
  have d: "distinct (map cluster_name (dict_keys (ag_accum ag)))"
    using assms(1) by (simp add: mock_pages.read_inv_def accum_clusters_def)
  then have filed: "rr_clusters (build_read_results ag) =
      map (\<lambda>(n, r). (cluster_name n, [(node_name n, n, r)])) (ag_accum ag)"
    using filed_apart [of "[]" "ag_accum ag"] by (simp add: build_read_results_def)
  have keys: "dict_keys (rr_clusters (build_read_results ag)) = accum_clusters ag"
    unfolding filed accum_clusters_def by (simp add: case_prod_beta)
  have full: "mock_pages.collected q (cluster_name n) r" if "(n, r) \<in> set (ag_accum ag)" for n r
  proof -
    have "distinct (dict_keys (ag_accum ag))" using d by (simp only: distinct_map)
    then have "map_of (ag_accum ag) n = Some r" using that by simp
    then show ?thesis using assms by (auto simp: mock_pages.read_inv_def active_clusters_def)
  qed
  have "\<exists>n r. entries = [(node_name n, n, r)] \<and> cluster_name n = c \<and>
      r_records r = map mock_rec [min_id q..max_id q] \<and> \<not> r_limit_reached r"
    if "(c, entries) \<in> set (rr_clusters (build_read_results ag))" for c entries
    using that full by (fastforce simp: filed mock_pages.collected_def mock_stored_def)
  then show ?thesis unfolding every_record_def dict_ok_def keys
    using assms(1) by (auto simp: mock_pages.read_inv_def)
qed

section \<open>Reading\<close>

lemma read_start_ids: "ids_ok i (read_start q ns i)"
  by (auto simp: ids_ok_def read_start_def in_set_enumerate_eq)

definition read_bound :: "clusters \<Rightarrow> query_request \<Rightarrow> nat" where
  "read_bound cs q = length cs * Suc (nat (max_id q - min_id q + 1))"

lemma router_query_clusters:
  assumes "routable rt" and "registry_ok (leaders rt)"
  obtains ns rt' where "router_query rt q = (Inr ns, rt')" "distinct (map cluster_name ns)"
    "cluster_name ` set ns \<subseteq> set (dict_keys (topology rt))" "length ns \<le> length (topology rt)"
proof -
  obtain ns s where s: "get_node_query (strategy rt) q (leaders rt) (topology rt) = (Inr ns, s)"
    using router_rc.qry_total [of "strategy rt" "topology rt" "leaders rt" q] assms
    by (metis fst_conv prod.exhaust_sel routable_def)
  have d: "distinct (map cluster_name ns)" "cluster_name ` set ns \<subseteq> set (dict_keys (topology rt))"
    using router_rc.qry_clusters [of "strategy rt" "topology rt" "leaders rt" q ns] s assms by (simp_all add: routable_def)
  have "length ns = card (set (map cluster_name ns))" using distinct_card [OF d(1)] by simp
  also have "\<dots> \<le> card (set (dict_keys (topology rt)))" using d(2) by (intro card_mono) simp_all
  also have "\<dots> \<le> length (topology rt)" using card_length [of "dict_keys (topology rt)"] by simp
  finally show ?thesis using that s d by (simp add: router_query_def)
qed

text \<open>
  C1. A read, from the router's choice of nodes to the result: with at least one node of every
  cluster up and the mock server behind it, whatever nodes are down, whatever pieces the answers
  arrive in, whatever leaders other threads learn of, and whatever order the futures complete in,
  the read ends after at most one completion per key and cluster and returns one entry for each
  cluster the router asks, with every record of the interval once and in key order.
\<close>

theorem client_read_returns_every_record:
  assumes "routable (cl_router cl)" and "registry_ok (leaders (cl_router cl))"
    and "cl_clusters cl = topology (cl_router cl)" and "net_ok (cl_net cl)" and "queries_fit q"
    and "0 \<le> cl_req_counter cl" and "cl_req_counter cl + 1 + int (read_bound (cl_clusters cl) q) < 2 ^ 64"
    and "world_answers (cl_clusters cl) world" and "read_bound (cl_clusters cl) q \<le> length ks"
  shows "\<exists>ns rt' res cl'. router_query (cl_router cl) q = (Inr ns, rt') \<and>
    client_read cl q False world ks = (Some (Inr res), cl') \<and> net_ok (cl_net cl') \<and>
    every_record q (cluster_name ` set ns) res"
proof -
  obtain ns rt' where ns: "router_query (cl_router cl) q = (Inr ns, rt')" "distinct (map cluster_name ns)"
    "cluster_name ` set ns \<subseteq> set (dict_keys (cl_clusters cl))" "length ns \<le> length (cl_clusters cl)"
    using assms(1,2) unfolding assms(3) by (rule router_query_clusters)
  let ?i = "cl_req_counter cl"
  let ?ag = "read_start q ns ?i"
  note start = mock_pages.read_start_inv [OF ns(2), of q ?i]
  have work: "work_left q ?ag \<le> read_bound (cl_clusters cl) q"
    unfolding start(3) read_bound_def using ns(4) by (rule mult_le_mono1)
  have acc: "set (active_clusters ?ag) \<union> set (accum_clusters ?ag) = cluster_name ` set ns"
    using start(2) by (simp add: accum_clusters_def) (simp add: read_start_def)
  have ok: "clusters_ok (cl_clusters cl)" using assms(1,3) by (simp add: routable_def topology_ok_def)
  have next_req: "ag_next_req ?ag = ?i + 1" by (simp add: read_start_def)
  have "\<exists>ag' st'. read_loop (cl_clusters cl) q False world ks ?ag \<lparr>qs_net = cl_net cl, qs_counter = ag_next_req ?ag\<rparr> =
      (Inr ag', st') \<and> ag_active ag' = [] \<and> mock_pages.read_inv q {} ag' \<and> net_ok (qs_net st') \<and>
      set (accum_clusters ag') = set (active_clusters ?ag) \<union> set (accum_clusters ?ag)"
    using start(1) read_start_ids assms(4-9) ok work next_req ns(3) acc
    by (intro read_loop_mock [where i = ?i]) simp_all
  then obtain ag' st' where run: "read_loop (cl_clusters cl) q False world ks ?ag
      \<lparr>qs_net = cl_net cl, qs_counter = ag_next_req ?ag\<rparr> = (Inr ag', st')" "ag_active ag' = []"
    "mock_pages.read_inv q {} ag'" "net_ok (qs_net st')" "set (accum_clusters ag') = cluster_name ` set ns"
    using acc by auto
  then have "client_read cl q False world ks = (Some (Inr (build_read_results ag')),
      cl\<lparr>cl_router := rt', cl_net := qs_net st', cl_req_counter := qs_counter st'\<rparr>)"
    using ns(1) by (simp add: client_read_def read_submit_def)
  then show ?thesis using ns(1) run(4,5) ended_results [OF run(3,2)] by auto
qed

text \<open>Two clusters; the first node of \<open>A\<close> refuses whatever it is sent, so the second answers.\<close>

definition session_node :: "string \<Rightarrow> int \<Rightarrow> node" where
  "session_node c i = \<lparr>cluster_name = c, node_id = i, host = ''h'', port = 8000 + i\<rparr>"

definition session_clusters :: clusters where
  "session_clusters = [(''A'', [session_node ''A'' 1, session_node ''A'' 2]), (''B'', [session_node ''B'' 1])]"

definition session_client :: client where
  "session_client = \<lparr>cl_router = update_topology (new_router (RoundRobinRouting new_rr)) session_clusters,
     cl_clusters = session_clusters, cl_net = empty_net, cl_io_workers = 4, cl_aggregator_workers = 2, cl_req_counter = 1\<rparr>"

definition session_query :: query_request where
  "session_query = \<lparr>min_id = 3, min_ts = 0, max_id = 14, max_ts = 0, query_id = 1\<rparr>"

definition mock_env :: "byte list res \<Rightarrow> query_env" where
  "mock_env request = \<lparr>qv_sock = calm_env, qv_sendall = None,
     qv_events = [Chunk (serve_reads (case request of Inl e \<Rightarrow> [] | Inr bs \<Rightarrow> bs))], qv_start = 5, qv_end = 6,
     qv_recv_ts = (\<lambda>i. 5)\<rparr>"

definition failing_world :: world where
  "failing_world fut call = (empty_registry, \<lambda>i.
     let env = mock_env (encode_query (pc_req_id call) (pc_query call)) in
     if i = 0 \<and> cluster_name (pc_node call) = ''A'' then env\<lparr>qv_sendall := Some ConnectionError\<rparr> else env)"

lemma mock_env_behind: "mock_behind (mock_env (Inr bs)) bs"
  by (simp add: mock_behind_def mock_env_def calm_env_def)

lemma failing_world_answers: "world_answers session_clusters failing_world"
proof -
  have "cluster_answers session_clusters (snd (failing_world fut call)) (pc_node call) bs"
    if c: "cluster_name (pc_node call) \<in> set (dict_keys session_clusters)"
      and bs: "encode_query (pc_req_id call) (pc_query call) = Inr bs" for fut call bs
  proof (cases "cluster_name (pc_node call) = ''A''")
    case True
    then have "mock_behind (snd (failing_world fut call) 1) bs" "node_down (snd (failing_world fut call) 0)"
      using mock_env_behind bs by (simp_all add: failing_world_def node_down_def)
    then show ?thesis using True unfolding cluster_answers_def
      by (intro exI [of _ 1]) (simp add: session_clusters_def dict_get_default_def)
  next
    case False
    then have "cluster_name (pc_node call) = ''B''" using c by (auto simp: session_clusters_def)
    moreover have "mock_behind (snd (failing_world fut call) 0) bs"
      using False mock_env_behind bs by (simp add: failing_world_def)
    ultimately show ?thesis unfolding cluster_answers_def
      by (intro exI [of _ 0]) (simp add: session_clusters_def dict_get_default_def)
  qed
  then show ?thesis by (simp add: world_answers_def)
qed

lemma session_client_ok:
  "routable (cl_router session_client)" "registry_ok (leaders (cl_router session_client))"
  "cl_clusters session_client = topology (cl_router session_client)" "net_ok (cl_net session_client)"
  "0 \<le> cl_req_counter session_client" "cl_clusters session_client = session_clusters"
  by (simp_all add: session_client_def routable_def topology_ok_def clusters_ok_def dict_ok_def session_clusters_def
      update_topology_def new_router_def session_node_def registry_ok_def empty_registry_def get_leader_def)

theorem client_read_returns_every_record_witness:
  "\<exists>res cl'. client_read session_client session_query False failing_world (replicate 26 1) = (Some (Inr res), cl') \<and>
     every_record session_query {''A'', ''B''} res"
proof -
  have fit: "queries_fit session_query"
    by (simp add: queries_fit_def query_u64_def is_u64_def session_query_def)
  have b: "read_bound session_clusters session_query = 26"
    by (simp add: read_bound_def session_clusters_def session_query_def)
  obtain ns rt' res cl' where r: "router_query (cl_router session_client) session_query = (Inr ns, rt')"
    "client_read session_client session_query False failing_world (replicate 26 1) = (Some (Inr res), cl')"
    "every_record session_query (cluster_name ` set ns) res"
    using client_read_returns_every_record [OF session_client_ok(1-4) fit session_client_ok(5),
        of failing_world "replicate 26 1"] failing_world_answers b session_client_ok(6)
    by (auto simp: session_client_def)
  have "fst (query_every new_rr session_query empty_registry session_clusters) = Inr ns"
    using r(1) by (cases "query_every new_rr session_query empty_registry session_clusters")
      (simp add: router_query_def session_client_def update_topology_def new_router_def)
  moreover have "topology_ok session_clusters" "registry_ok empty_registry"
    using session_client_ok(1,2) by (simp_all add: routable_def session_client_def update_topology_def new_router_def)
  ultimately have "map cluster_name ns = dict_keys session_clusters"
    using query_every_eq [of session_clusters empty_registry new_rr session_query] by auto
  then have "cluster_name ` set ns = {''A'', ''B''}"
    unfolding set_map [symmetric] by (simp add: session_clusters_def)
  then show ?thesis using r(2,3) by auto
qed

end
