(* ===== verification/Batch_Session.thy ===== *)
theory Batch_Session
  imports Read_Session
begin

text \<open>
  \<open>read_batch\<close> of \<open>client/dbclient.py\<close> as a whole: the router groups the queries by node, every
  sub-batch runs \<open>_query_batch_single_node\<close> and every page \<open>_query_single_node\<close> on the client's
  sockets, and the aggregator waits for one future after the other, in an order that is an argument.
\<close>

section \<open>The loop\<close>

type_synonym batch_world = "nat \<Rightarrow> job \<Rightarrow> registry \<times> (nat \<Rightarrow> query_env)"

fun run_job ::
  "clusters \<Rightarrow> bool \<Rightarrow> registry \<Rightarrow> (nat \<Rightarrow> query_env) \<Rightarrow> job \<Rightarrow> query_state \<Rightarrow> job_outcome res \<times> query_state" where
  "run_job cs skip_records reg envs (BatchJob call) st =
     (case query_batch_single_node cs reg envs (bc_node call) (map snd (bc_pairs call)) skip_records
              (Some (bc_req_ids call)) st of
        (r, st') \<Rightarrow> (bind_res r (\<lambda>(n, rs, s, e). Inr (BatchOut n rs s e)), st'))"
| "run_job cs skip_records reg envs (PageJob call) st =
     (case query_single_node cs reg envs (pc_node call) (pc_query call) skip_records (Some (pc_req_id call)) st of
        (r, st') \<Rightarrow> (bind_res r (\<lambda>(n, r, s, e). Inr (PageOut n r s e)), st'))"

fun batch_loop ::
  "clusters \<Rightarrow> query_request list \<Rightarrow> bool \<Rightarrow> batch_world \<Rightarrow> nat list \<Rightarrow> batch_aggregator \<Rightarrow> query_state \<Rightarrow>
     batch_aggregator res \<times> query_state" where
  "batch_loop cs queries skip_records world [] ag st = (Inr ag, st)"
| "batch_loop cs queries skip_records world (k # ks) ag st =
     (if bg_active ag = [] then (Inr ag, st)
      else case bg_active ag ! (k mod length (bg_active ag)) of (fut, job) \<Rightarrow>
        case world fut job of (reg, envs) \<Rightarrow>
        case run_job cs skip_records reg envs job st of (outcome, st') \<Rightarrow>
        case batch_step queries ag (fut, outcome) of
          Inl e \<Rightarrow> (Inl e, st')
        | Inr ag' \<Rightarrow> batch_loop cs queries skip_records world ks ag' (st'\<lparr>qs_counter := bg_next_req ag'\<rparr>))"

text \<open>No queries give the empty result at once: the inner \<open>None\<close>.\<close>

definition client_read_batch ::
  "client \<Rightarrow> query_request list \<Rightarrow> bool \<Rightarrow> batch_world \<Rightarrow> nat list \<Rightarrow> batch_results option res option \<times> client" where
  "client_read_batch cl queries skip_records world ks =
     (case batch_submit (cl_router cl) queries (cl_req_counter cl) of
        (Inl e, rt) \<Rightarrow> (Some (Inl e), cl\<lparr>cl_router := rt, cl_req_counter := cl_req_counter cl + int (length queries)\<rparr>)
      | (Inr None, rt) \<Rightarrow> (Some (Inr None), cl\<lparr>cl_router := rt\<rparr>)
      | (Inr (Some ag), rt) \<Rightarrow>
          (case batch_loop (cl_clusters cl) queries skip_records world ks ag
                  \<lparr>qs_net = cl_net cl, qs_counter = bg_next_req ag\<rparr> of
             (r, st) \<Rightarrow>
               (case r of Inl e \<Rightarrow> Some (Inl TimeoutError)
                | Inr ag' \<Rightarrow> if bg_active ag' = [] then Some (Inr (Some (build_batch_results ag'))) else None,
                cl\<lparr>cl_router := rt, cl_net := qs_net st, cl_req_counter := qs_counter st\<rparr>)))"

section \<open>Request ids\<close>

fun job_ids :: "job \<Rightarrow> int list" where
  "job_ids (BatchJob call) = bc_req_ids call"
| "job_ids (PageJob call) = [pc_req_id call]"

fun job_shape :: "nat \<Rightarrow> job \<Rightarrow> bool" where
  "job_shape l (BatchJob call) \<longleftrightarrow> distinct (bc_req_ids call) \<and> length (bc_req_ids call) = length (bc_pairs call) \<and>
     length (bc_pairs call) \<le> l"
| "job_shape l (PageJob call) \<longleftrightarrow> True"

definition batch_ids_ok :: "int \<Rightarrow> nat \<Rightarrow> batch_aggregator \<Rightarrow> bool" where
  "batch_ids_ok i l ag \<longleftrightarrow> i \<le> bg_next_req ag \<and> (\<forall>(f, job) \<in> set (bg_active ag).
     job_shape l job \<and> (\<forall>r \<in> set (job_ids job). i \<le> r \<and> r < bg_next_req ag))"

lemma batch_ids_cong:
  "bg_next_req ag' = bg_next_req ag \<Longrightarrow> set (bg_active ag') \<subseteq> set (bg_active ag) \<Longrightarrow> batch_ids_ok i l ag \<Longrightarrow> batch_ids_ok i l ag'"
  unfolding batch_ids_ok_def by (simp add: Ball_def subset_iff) blast

lemma batch_follow_ids:
  assumes "batch_ids_ok i l ag"
  shows "batch_ids_ok i l (batch_follow_pages n idx oi q r ag) \<and>
    bg_next_req (batch_follow_pages n idx oi q r ag) \<le> bg_next_req ag + 1"
  using assms by (force simp: batch_ids_ok_def batch_follow_pages_def set_entry_def)

lemma batch_entries_ids:
  assumes "batch_entries n pairs s e k rs ag = Inr ag'" and "batch_ids_ok i l ag"
  shows "batch_ids_ok i l ag' \<and> bg_next_req ag' \<le> bg_next_req ag + int (length rs)"
  using assms
proof (induction rs arbitrary: k ag)
  case (Cons o1 rs)
  obtain oi q where pq: "py_index pairs (int k) = Inr (oi, q)"
    using Cons.prems(1) by (cases "py_index pairs (int k)") auto
  obtain r where r: "o1 = Some r" using Cons.prems(1) pq by (cases o1) (simp_all add: Let_def)
  have rest: "batch_entries n pairs s e (Suc k) rs (batch_follow_pages n k oi q r
      (batch_note_metrics q r s (case r_recv_ts r of None \<Rightarrow> e | Some t \<Rightarrow> t) (ag\<lparr>bg_orig_query := Some q\<rparr>))) = Inr ag'"
    using Cons.prems(1) pq r by (simp add: Let_def split: if_splits)
  define ag1 where "ag1 = batch_note_metrics q r s (case r_recv_ts r of None \<Rightarrow> e | Some t \<Rightarrow> t) (ag\<lparr>bg_orig_query := Some q\<rparr>)"
  note step = rest [folded ag1_def]
  have same: "bg_next_req ag1 = bg_next_req ag" "bg_active ag1 = bg_active ag"
    by (simp_all add: ag1_def batch_note_metrics_def)
  have "batch_ids_ok i l ag1" using Cons.prems(2) by (rule batch_ids_cong [rotated -1]) (simp_all add: same)
  from batch_follow_ids [OF this, of n k oi q r] Cons.IH [OF step] same show ?case by auto
qed simp

lemma batch_step_ids:
  assumes "batch_step queries ag (fut, outcome) = Inr ag'" and "batch_ids_ok i l ag"
    and "\<And>n rs s e. outcome = Inr (BatchOut n rs s e) \<Longrightarrow> length rs \<le> l" and "1 \<le> l"
  shows "batch_ids_ok i l ag' \<and> bg_next_req ag' \<le> bg_next_req ag + int l"
proof -
  define ag0 where "ag0 = ag\<lparr>bg_active := filter (\<lambda>a. fst a \<noteq> fut) (bg_active ag)\<rparr>"
  obtain out where o: "outcome = Inr out" using assms(1) by (cases outcome) (simp_all add: batch_step_def Let_def)
  show ?thesis
  proof (cases out)
    case (BatchOut n rs s e)
    then obtain pairs where "batch_entries n pairs s e 0 rs
        ((batch_note_times s e ag0)\<lparr>bg_accum := AList.update n rs (bg_accum (batch_note_times s e ag0))\<rparr>) = Inr ag'"
      using assms(1) by (cases "map_of (bg_tracker ag) fut"; cases "map_of (bg_info ag) fut")
        (simp_all add: batch_step_def o ag0_def Let_def dict_index_def batch_note_times_def)
    moreover have "batch_ids_ok i l ((batch_note_times s e ag0)\<lparr>bg_accum := AList.update n rs (bg_accum (batch_note_times s e ag0))\<rparr>)"
      using assms(2) by (rule batch_ids_cong [rotated -1]) (auto simp: ag0_def batch_note_times_def)
    ultimately have "batch_ids_ok i l ag'" "bg_next_req ag' \<le> bg_next_req ag + int (length rs)"
      using batch_entries_ids by (fastforce simp: ag0_def batch_note_times_def)+
    then show ?thesis using assms(3) [of n rs s e] o BatchOut by auto
  next
    case (PageOut n r s e)
    then obtain info where d: "batch_page_done queries info r s e (batch_note_times s e ag0) = Inr ag'"
      using assms(1) by (cases "map_of (bg_tracker ag) fut") (simp_all add: batch_step_def o ag0_def Let_def)
    obtain m idx oi x where info: "info = (m, idx, oi, x)" by (cases info) auto
    obtain q r' ag1 where f: "ag' = batch_follow_pages m idx oi q r' ag1" "bg_next_req ag1 = bg_next_req ag"
      "bg_active ag1 = bg_active ag0"
      using d unfolding info
      by (auto simp: batch_page_done_def res_simps Let_def batch_note_metrics_def batch_note_times_def ag0_def
          split: option.splits if_splits)
    have "batch_ids_ok i l ag1" using assms(2) by (rule batch_ids_cong [rotated -1]) (auto simp: f ag0_def)
    from batch_follow_ids [OF this, of m idx oi q r'] show ?thesis using f assms(4) by simp
  qed
qed

section \<open>Nodes that answer\<close>

text \<open>The first node asked answers a sub-batch; a page is answered by some node of the cluster.\<close>

fun job_answers :: "clusters \<Rightarrow> (nat \<Rightarrow> query_env) \<Rightarrow> job \<Rightarrow> bool" where
  "job_answers cs envs (BatchJob call) \<longleftrightarrow> (\<forall>bss.
     map_res (\<lambda>(r, q). encode_query r q) (zip (bc_req_ids call) (map snd (bc_pairs call))) = Inr bss \<longrightarrow>
     mock_behind (envs 0) (concat bss))"
| "job_answers cs envs (PageJob call) \<longleftrightarrow> (\<forall>bs. cluster_name (pc_node call) \<in> set (dict_keys cs) \<longrightarrow>
     encode_query (pc_req_id call) (pc_query call) = Inr bs \<longrightarrow> cluster_answers cs envs (pc_node call) bs)"

definition batch_world_answers :: "clusters \<Rightarrow> batch_world \<Rightarrow> bool" where
  "batch_world_answers cs world \<longleftrightarrow> (\<forall>fut job. job_answers cs (snd (world fut job)) job)"

text \<open>What is known of the sub-batches of a call.\<close>

definition calls_fit :: "clusters \<Rightarrow> batch_call list \<Rightarrow> bool" where
  "calls_fit cs calls \<longleftrightarrow> distinct (map bc_node calls) \<and> (\<forall>c \<in> set calls.
     bc_node c \<in> set (dict_get_default cs (cluster_name (bc_node c)) []) \<and> (\<forall>(i, q) \<in> set (bc_pairs c). queries_fit q))"

definition own_nodes :: "batch_call list \<Rightarrow> (nat \<Rightarrow> node option) \<Rightarrow> bool" where
  "own_nodes calls A \<longleftrightarrow> (\<forall>k n. A k = Some n \<longrightarrow> n = bc_node (calls ! k))"

lemma listed_cluster: "n \<in> set (dict_get_default cs c []) \<Longrightarrow> c \<in> set (dict_keys cs)"
  by (cases "map_of cs c") (force simp: dict_get_default_def dest: map_of_SomeD)+

lemma encodes_all:
  assumes "length ids = length qs" and "\<forall>q \<in> set qs. queries_fit q" and "\<forall>r \<in> set ids. is_u64 r"
  shows "\<exists>bss. map_res (\<lambda>(r, q). encode_query r q) (zip ids qs) = Inr bss"
  using assms
proof (induction ids qs rule: list_induct2)
  case (Cons r ids q qs)
  then show ?case by (auto simp: encode_query_eq queries_fit_def)
qed simp

lemma run_batch_job:
  assumes inv: "mock_pages.batch_inv calls A {} ag" and mem: "(fut, BatchJob call) \<in> set (bg_active ag)"
    and own: "own_nodes calls A" and fit: "calls_fit cs calls" and ids: "batch_ids_ok i l ag" "0 \<le> i" "bg_next_req ag \<le> 2 ^ 64"
    and ok: "net_ok (qs_net st)" and ans: "job_answers cs envs (BatchJob call)"
  shows "\<exists>outcome st'. run_job cs False reg envs (BatchJob call) st = (outcome, st') \<and> query_state_ok st st' \<and>
    job_served mock_answers ag (BatchJob call) outcome \<and> own_nodes calls (now_answered A fut outcome) \<and>
    (\<forall>n rs s e. outcome = Inr (BatchOut n rs s e) \<longrightarrow> length rs \<le> l)"
proof -
  have call: "fut < length calls" "calls ! fut = call" "A fut = None"
    using inv mem by (auto simp: mock_pages.batch_inv_def mock_pages.jobs_ok_def mock_pages.job_ok_def)
  then have cmem: "call \<in> set calls" by (metis nth_mem)
  then have node: "bc_node call \<in> set (dict_get_default cs (cluster_name (bc_node call)) [])"
    and fits: "\<forall>(i, q) \<in> set (bc_pairs call). queries_fit q" using fit by (auto simp: calls_fit_def)
  let ?qs = "map snd (bc_pairs call)"
  have shape: "distinct (bc_req_ids call)" "length (bc_req_ids call) = length ?qs" "length (bc_pairs call) \<le> l"
    and u64: "\<forall>r \<in> set (bc_req_ids call). is_u64 r"
    using mem ids by (force simp: batch_ids_ok_def is_u64_def)+
  have all_fit: "\<forall>q \<in> set ?qs. queries_fit q" using fits by auto
  obtain bss where bss: "map_res (\<lambda>(r, q). encode_query r q) (zip (bc_req_ids call) ?qs) = Inr bss"
    using encodes_all [OF shape(2) all_fit u64] by blast
  then have "mock_behind (envs 0) (concat bss)" using ans by simp
  from query_batch_single_node_mock [where envs = envs, OF ok node shape(1,2) bss _ this, of reg False] all_fit obtain st' where
    st': "query_batch_single_node cs reg envs (bc_node call) ?qs False (Some (bc_req_ids call)) st =
      (Inr (bc_node call, mock_pipeline (bc_req_ids call) ?qs False (qv_recv_ts (envs 0)), qv_start (envs 0), qv_end (envs 0)), st')"
    "query_state_ok st st'" by (auto simp: list_all_iff)
  let ?rs = "mock_pipeline (bc_req_ids call) ?qs False (qv_recv_ts (envs 0))"
  let ?out = "Inr (BatchOut (bc_node call) ?rs (qv_start (envs 0)) (qv_end (envs 0))) :: job_outcome res"
  have len: "length ?rs = length (bc_pairs call)" using shape(2) by (simp add: mock_pipeline_def)
  have "bc_node call \<notin> set (dict_keys (bg_accum ag))"
  proof
    assume "bc_node call \<in> set (dict_keys (bg_accum ag))"
    then have "bc_node call \<in> ran A" using inv by (simp add: mock_pages.batch_inv_def answered_by_def)
    then obtain j where j: "A j = Some (bc_node call)" by (auto simp: ran_def)
    then have "bc_node (calls ! j) = bc_node (calls ! fut)" using own call(2) by (simp add: own_nodes_def)
    moreover have "j < length calls" using j inv by (auto simp: mock_pages.batch_inv_def answered_by_def)
    ultimately have "j = fut"
      using fit call(1) nth_eq_iff_index_eq [of "map bc_node calls" j fut] by (simp add: calls_fit_def)
    then show False using j call(3) by simp
  qed
  moreover have "\<exists>r. ?rs ! j = Some r \<and> mock_answers (cluster_name (bc_node call)) (snd (bc_pairs call ! j)) (bc_req_ids call ! j) r"
    if "j < length (bc_pairs call)" for j
    using that shape(2) by (auto simp: mock_pipeline_def mock_answers_def)
  ultimately have "job_served mock_answers ag (BatchJob call) ?out" using len by (simp add: job_served_def)
  moreover have "own_nodes calls (now_answered A fut ?out)" using own call(2) by (simp add: own_nodes_def)
  ultimately show ?thesis using st' len shape(3) by simp
qed

lemma run_page_job:
  assumes inv: "mock_pages.batch_inv calls A {} ag" and mem: "(fut, PageJob call) \<in> set (bg_active ag)"
    and own: "own_nodes calls A" and fit: "calls_fit cs calls" and ids: "batch_ids_ok i l ag" "0 \<le> i" "bg_next_req ag \<le> 2 ^ 64"
    and ok: "net_ok (qs_net st)" and ans: "job_answers cs envs (PageJob call)" and cs: "clusters_ok cs"
  shows "\<exists>outcome st'. run_job cs False reg envs (PageJob call) st = (outcome, st') \<and> query_state_ok st st' \<and>
    job_served mock_answers ag (PageJob call) outcome \<and> own_nodes calls (now_answered A fut outcome) \<and>
    (\<forall>n rs s e. outcome = Inr (BatchOut n rs s e) \<longrightarrow> length rs \<le> l)"
proof -
  obtain k idx oi q acc where k: "A k = Some (pc_node call)" "idx < length (bc_pairs (calls ! k))"
    "bc_pairs (calls ! k) ! idx = (oi, q)" and query: "pc_query call = next_page_query q acc"
    and part: "mock_pages.partly q (cluster_name (pc_node call)) acc"
  proof -
    have "mock_pages.job_ok calls A {} ag fut (PageJob call)"
      using inv mem by (auto simp: mock_pages.batch_inv_def mock_pages.jobs_ok_def)
    then show ?thesis using that by (auto simp: mock_pages.job_ok_def)
  qed
  have kl: "k < length calls" using inv k(1) by (auto simp: mock_pages.batch_inv_def answered_by_def)
  then have kmem: "calls ! k \<in> set calls" by simp
  have node: "pc_node call = bc_node (calls ! k)" using own k(1) by (simp add: own_nodes_def)
  then have "pc_node call \<in> set (dict_get_default cs (cluster_name (pc_node call)) [])"
    using fit kmem by (simp add: calls_fit_def)
  then have c: "cluster_name (pc_node call) \<in> set (dict_keys cs)"
    by (rule listed_cluster)
  have "(oi, q) \<in> set (bc_pairs (calls ! k))" using k(2,3) by (metis nth_mem)
  then have "queries_fit q" using fit kmem by (auto simp: calls_fit_def)
  then have fits: "queries_fit (pc_query call)" using part next_page_fits [of q _ acc]
    by (simp add: query mock_pages.partly_def)
  have "is_u64 (pc_req_id call)" using mem ids by (force simp: batch_ids_ok_def is_u64_def)
  then obtain bs where bs: "encode_query (pc_req_id call) (pc_query call) = Inr bs"
    using fits by (auto simp: encode_query_eq queries_fit_def)
  then have "cluster_answers cs envs (pc_node call) bs" using ans c by simp
  from query_single_node_mock [OF ok bs fits this, of reg False] obtain n s e st' where
    st': "query_single_node cs reg envs (pc_node call) (pc_query call) False (Some (pc_req_id call)) st =
      (Inr (n, mock_answer (pc_req_id call) (pc_query call) False, s, e), st')" "query_state_ok st st'"
    and n: "n \<in> set (dict_get_default cs (cluster_name (pc_node call)) [])" by blast
  have "cluster_name n = cluster_name (pc_node call)" using cs n by (rule cluster_member)
  then have "job_served mock_answers ag (PageJob call)
      (Inr (PageOut n (mock_answer (pc_req_id call) (pc_query call) False) s e))"
    by (auto simp: job_served_def mock_answers_def mock_answer_def Let_def)
  then show ?thesis using st' own by simp
qed

section \<open>The loop ends\<close>

lemma active_job_weight: "bg_active ag \<noteq> [] \<Longrightarrow> 0 < batch_work ag"
proof -
  have "0 < job_weight job" for job by (cases job) simp_all
  then show "bg_active ag \<noteq> [] \<Longrightarrow> 0 < batch_work ag" by (cases "bg_active ag") (simp_all add: batch_work_def)
qed

lemma run_job_served:
  assumes "mock_pages.batch_inv calls A {} ag" and "(fut, job) \<in> set (bg_active ag)"
    and "own_nodes calls A" and "calls_fit cs calls" and "batch_ids_ok i l ag" and "0 \<le> i" and "bg_next_req ag \<le> 2 ^ 64"
    and "net_ok (qs_net st)" and "job_answers cs envs job" and "clusters_ok cs"
  shows "\<exists>outcome st'. run_job cs False reg envs job st = (outcome, st') \<and> query_state_ok st st' \<and>
    job_served mock_answers ag job outcome \<and> own_nodes calls (now_answered A fut outcome) \<and>
    (\<forall>n rs s e. outcome = Inr (BatchOut n rs s e) \<longrightarrow> length rs \<le> l)"
proof (cases job)
  case (BatchJob call)
  from run_batch_job [OF assms(1) assms(2) [unfolded BatchJob] assms(3-8) assms(9) [unfolded BatchJob]]
  show ?thesis unfolding BatchJob .
next
  case (PageJob call)
  from run_page_job [OF assms(1) assms(2) [unfolded PageJob] assms(3-8) assms(9) [unfolded PageJob] assms(10)]
  show ?thesis unfolding PageJob .
qed

lemma batch_loop_mock:
  assumes "mock_pages.batch_inv calls A {} ag" and "own_nodes calls A" and "calls_fit cs calls"
    and "pairs_ok queries calls" and "batch_ids_ok i l ag" and "0 \<le> i" and "1 \<le> l" and "net_ok (qs_net st)"
    and "clusters_ok cs" and "batch_world_answers cs world"
    and "bg_next_req ag + int l * int (batch_work ag) \<le> 2 ^ 64" and "batch_work ag \<le> length ks"
  shows "\<exists>ag' st' A'. batch_loop cs queries False world ks ag st = (Inr ag', st') \<and> bg_active ag' = [] \<and>
    mock_pages.batch_inv calls A' {} ag' \<and> own_nodes calls A' \<and> net_ok (qs_net st')"
  using assms
proof (induction ks arbitrary: ag st A)
  case Nil
  then have "bg_active ag = []" using active_job_weight [of ag] by auto
  then show ?case using Nil by auto
next
  case (Cons k ks)
  show ?case
  proof (cases "bg_active ag = []")
    case True
    then show ?thesis using Cons.prems by auto
  next
    case False
    obtain fut job where fj: "bg_active ag ! (k mod length (bg_active ag)) = (fut, job)" by force
    obtain reg envs where w: "world fut job = (reg, envs)" by force
    have "k mod length (bg_active ag) < length (bg_active ag)" using False by simp
    then have mem: "(fut, job) \<in> set (bg_active ag)" using fj by (metis nth_mem)
    have ans: "job_answers cs envs job" using Cons.prems(10) w unfolding batch_world_answers_def by (metis snd_conv)
    have "0 \<le> int l * int (batch_work ag)" by simp
    then have le: "bg_next_req ag \<le> 2 ^ 64" using Cons.prems(11) by linarith
    from run_job_served [OF Cons.prems(1) mem Cons.prems(2,3,5,6) le Cons.prems(8) ans Cons.prems(9), of reg]
    obtain outcome st1 where run: "run_job cs False reg envs job st = (outcome, st1)" "query_state_ok st st1"
      and served: "job_served mock_answers ag job outcome" and own: "own_nodes calls (now_answered A fut outcome)"
      and len: "\<And>n rs s e. outcome = Inr (BatchOut n rs s e) \<Longrightarrow> length rs \<le> l" by blast
    have "distinct (map fst (bg_active ag))" using Cons.prems(1) by (simp add: mock_pages.batch_inv_def futures_ok_def)
    then have job: "map_of (bg_active ag) fut = Some job" using mem by simp
    from mock_pages.batch_step_served [OF Cons.prems(1) job served Cons.prems(4)] obtain ag1 where
      ag1: "batch_step queries ag (fut, outcome) = Inr ag1" "mock_pages.batch_inv calls (now_answered A fut outcome) {} ag1"
        "batch_work ag1 < batch_work ag" by blast
    have ids: "batch_ids_ok i l ag1 \<and> bg_next_req ag1 \<le> bg_next_req ag + int l"
      by (rule batch_step_ids [OF ag1(1) Cons.prems(5) _ Cons.prems(7)]) (rule len)
    have "int l * int (batch_work ag1) + int l \<le> int l * int (batch_work ag)"
    proof -
      have "l * Suc (batch_work ag1) \<le> l * batch_work ag" using ag1(3) by (intro mult_le_mono2) simp
      then show ?thesis by (simp flip: of_nat_mult of_nat_add)
    qed
    then have "bg_next_req ag1 + int l * int (batch_work ag1) \<le> 2 ^ 64" using ids Cons.prems(11) by linarith
    then have "\<exists>ag' st' A'. batch_loop cs queries False world ks ag1 (st1\<lparr>qs_counter := bg_next_req ag1\<rparr>) = (Inr ag', st') \<and>
        bg_active ag' = [] \<and> mock_pages.batch_inv calls A' {} ag' \<and> own_nodes calls A' \<and> net_ok (qs_net st')"
      using Cons.prems ag1(2,3) own ids run(2)
      by (intro Cons.IH [where A = "now_answered A fut outcome"]) (auto simp: query_state_ok_def)
    then show ?thesis using False fj w run(1) ag1(1) by simp
  qed
qed

section \<open>The submission\<close>

lemma routed_total:
  assumes "routable rt" and "registry_ok (leaders rt)" and "leaders_known (topology rt) (leaders rt)"
  shows "\<exists>nss rt'. routed rt qs = (Inr nss, rt') \<and> length nss = length qs \<and> (\<forall>ns \<in> set nss.
    distinct ns \<and> set ns \<subseteq> members (topology rt) \<and> length ns \<le> length (topology rt))"
  using assms
proof (induction qs arbitrary: rt)
  case (Cons q qs)
  obtain ns rt1 where ns: "router_query rt q = (Inr ns, rt1)" "distinct (map cluster_name ns)"
    "length ns \<le> length (topology rt)" using Cons.prems(1,2) by (rule router_query_clusters)
  have same: "topology rt1 = topology rt" "leaders rt1 = leaders rt" "strategy_ok (strategy rt1)"
    using ns(1) Cons.prems(1) router_rc.qry_keeps [of "strategy rt" q "leaders rt" "topology rt"]
    by (auto simp: router_query_def routable_def split: prod.splits)
  have "set ns \<subseteq> members (topology rt)"
    using ns(1) Cons.prems(1,3) by (intro router_query_members) (auto simp: routable_def topology_ok_def clusters_ok_def)
  moreover have "distinct ns" using ns(2) by (simp add: distinct_map)
  moreover obtain nss rt' where "routed rt1 qs = (Inr nss, rt')" "length nss = length qs" "\<forall>ns \<in> set nss.
    distinct ns \<and> set ns \<subseteq> members (topology rt) \<and> length ns \<le> length (topology rt)"
    using Cons.IH [of rt1] Cons.prems same by (auto simp: routable_def)
  ultimately show ?case using ns(1,3) by auto
qed simp

lemma batch_start_ids:
  assumes "calls = batch_calls (map (\<lambda>i. c + int i) [0..<length queries]) d" and "length nss = length queries"
    and "\<And>n pairs. (n, pairs) \<in> set d \<Longrightarrow> pairs = asked 0 queries nss n" and "\<forall>ns \<in> set nss. distinct ns"
  shows "batch_ids_ok c (length queries) (batch_start calls (c + int (length queries)))"
proof -
  let ?ids = "map (\<lambda>i. c + int i) [0..<length queries]"
  have "job_shape (length queries) (BatchJob (calls ! k)) \<and>
      (\<forall>r \<in> set (job_ids (BatchJob (calls ! k))). c \<le> r \<and> r < c + int (length queries))" if k: "k < length d" for k
  proof -
    let ?pairs = "asked 0 queries nss (fst (d ! k))"
    have pairs: "snd (d ! k) = ?pairs" using assms(3) k by (metis nth_mem prod.collapse)
    have idx: "fst p < length queries" if "p \<in> set ?pairs" for p using that by (auto simp: asked_set [OF assms(2)])
    then have req: "bc_req_ids (calls ! k) = map (\<lambda>i. c + int i) (map fst ?pairs)"
      using k by (auto simp: assms(1) batch_calls_nth pairs)
    have "distinct (bc_req_ids (calls ! k))"
      unfolding req using asked_distinct [OF assms(2,4)] by (subst distinct_map) (simp add: inj_on_def)
    moreover have "\<forall>r \<in> set (bc_req_ids (calls ! k)). c \<le> r \<and> r < c + int (length queries)"
      unfolding req using idx by auto
    ultimately show ?thesis
      using asked_length [OF assms(2,4)] k by (simp add: assms(1) batch_calls_nth pairs req)
  qed
  then show ?thesis
    by (auto simp: batch_ids_ok_def batch_start_def in_set_enumerate_eq assms(1) simp del: job_shape.simps job_ids.simps)
qed

definition batch_bound :: "clusters \<Rightarrow> query_request list \<Rightarrow> nat" where
  "batch_bound cs queries = length cs * (\<Sum>q \<leftarrow> queries. Suc (keys_of q))"

lemma batch_start_work:
  "batch_work (batch_start (batch_calls ids d) i) = grouped_weight keys_of d"
  unfolding mock_pages.batch_start_inv(2) grouped_weight_def batch_calls_def by (induction d) auto

lemma filed_member:
  "(n, r) \<in> set accum \<Longrightarrow>
     (node_name n, n, r) \<in> set (dict_get_default (foldl (\<lambda>results p. file_under p results) results accum) (cluster_name n) [])"
proof (induction accum arbitrary: results)
  case (Cons p accum)
  have keep: "x \<in> set (dict_get_default results c []) \<Longrightarrow>
      x \<in> set (dict_get_default (foldl (\<lambda>results p. file_under p results) results accum) c [])" for x c results
  proof (induction accum arbitrary: results)
    case (Cons q accum)
    have "x \<in> set (dict_get_default (file_under q results) c [])"
      using Cons.prems by (auto simp: file_under_def dict_get_default_def update_conv split: prod.splits)
    then show ?case using Cons.IH by simp
  qed simp
  have "(node_name n, n, r) \<in> set (dict_get_default (file_under (n, r) results) (cluster_name n) [])"
    by (simp add: file_under_def dict_get_default_def update_conv)
  then show ?case using Cons keep by auto
qed simp

text \<open>The entries a node is to have at the end.\<close>

definition entries_full :: "(nat \<times> query_request) list \<Rightarrow> response option list \<Rightarrow> bool" where
  "entries_full pairs entries \<longleftrightarrow> list_all2 (\<lambda>(i, q) entry. \<exists>r. entry = Some r \<and> \<not> r_limit_reached r \<and>
     r_records r = map mock_rec [min_id q..max_id q]) pairs entries"

lemma batch_ended_entries:
  assumes inv: "mock_pages.batch_inv calls A {} ag" and "own_nodes calls A" and "bg_active ag = []" and k: "k < length calls"
  shows "\<exists>entries. (bc_node (calls ! k), entries) \<in> set (bg_accum ag) \<and> entries_full (bc_pairs (calls ! k)) entries"
proof -
  have B: "answered_by calls A ag" using inv by (simp add: mock_pages.batch_inv_def)
  then obtain n where "A k = Some n" using assms(3) k by (auto simp: answered_by_def)
  then have n: "A k = Some (bc_node (calls ! k))" using assms(2) by (simp add: own_nodes_def)
  obtain es where es: "map_of (bg_accum ag) (bc_node (calls ! k)) = Some es" "length es = length (bc_pairs (calls ! k))"
    using B n by (rule answered_entries)
  have "\<exists>r. es ! j = Some r \<and> \<not> r_limit_reached r \<and>
      r_records r = map mock_rec [min_id (snd (bc_pairs (calls ! k) ! j))..max_id (snd (bc_pairs (calls ! k) ! j))]"
    if j: "j < length (bc_pairs (calls ! k))" for j
    using mock_pages.batch_ended [OF inv assms(3) k j] n es
    by (auto simp: entry_at_def mock_pages.collected_def mock_stored_def)
  then have "entries_full (bc_pairs (calls ! k)) es"
    using es(2) by (auto simp: entries_full_def list_all2_conv_all_nth case_prod_beta)
  then show ?thesis using map_of_SomeD [OF es(1)] by blast
qed

section \<open>Reading a batch\<close>

lemma submitted_fits:
  assumes ready: "routable rt" "registry_ok (leaders rt)" "leaders_known (topology rt) (leaders rt)"
    and fits: "\<forall>q \<in> set queries. queries_fit q" and "queries \<noteq> []"
  obtains calls nss rt' where
    "batch_submit rt queries c = (Inr (Some (batch_start calls (c + int (length queries)))), rt')"
    "routed rt queries = (Inr nss, rt')" "pairs_ok queries calls" "calls_fit (topology rt) calls"
    "batch_ids_ok c (length queries) (batch_start calls (c + int (length queries)))"
    "batch_work (batch_start calls (c + int (length queries))) \<le> batch_bound (topology rt) queries"
    "\<And>n. n \<in> (\<Union>ns \<in> set nss. set ns) \<Longrightarrow> \<exists>k < length calls. bc_node (calls ! k) = n \<and>
       bc_pairs (calls ! k) = asked 0 queries nss n"
proof -
  have cs: "clusters_ok (topology rt)" using ready(1) by (simp add: routable_def topology_ok_def)
  obtain nss rt' where nss: "routed rt queries = (Inr nss, rt')" "length nss = length queries"
    and each: "\<forall>ns \<in> set nss. distinct ns \<and> set ns \<subseteq> members (topology rt) \<and> length ns \<le> length (topology rt)"
    using routed_total [OF ready, of queries] by blast
  have g: "case group_queries rt 0 queries [] of (Inl e, rt') \<Rightarrow> routed rt queries = (Inl e, rt') | (Inr d', rt') \<Rightarrow>
      \<exists>nss. routed rt queries = (Inr nss, rt')"
    using group_queries_routed [where d = "[]" and rt = rt and idx = 0 and qs = queries]
    by (auto split: prod.splits sum.splits)
  then obtain d where "group_queries rt 0 queries [] = (Inr d, rt')"
    using nss(1) by (auto split: prod.splits sum.splits)
  then obtain st where sub: "batch_submit rt queries c = (Inr (Some st), rt')"
    using assms(5) by (simp add: batch_submit_def Let_def)
  obtain calls nss' d where st: "st = batch_start calls (c + int (length queries))"
    and calls: "calls = batch_calls (map (\<lambda>i. c + int i) [0..<length queries]) d"
    and gr: "group_queries rt 0 queries [] = (Inr d, rt')" and nss': "routed rt queries = (Inr nss', rt')"
    and d: "dict_ok d" and keys: "set (dict_keys d) = (\<Union>ns \<in> set nss'. set ns)"
    and pairs: "\<And>n pairs. (n, pairs) \<in> set d \<Longrightarrow> pairs = asked 0 queries nss' n"
    and all: "\<And>n. n \<in> set (dict_keys d) \<Longrightarrow> (n, asked 0 queries nss' n) \<in> set d"
    using sub by (rule submitted_calls) blast
  have same: "nss' = nss" using nss(1) nss' by simp
  have member: "n \<in> set (dict_get_default (topology rt) (cluster_name n) [])" if "n \<in> set (dict_keys d)" for n
  proof -
    have "n \<in> members (topology rt)" using that each unfolding keys same by blast
    then obtain cn where "n \<in> set (dict_get_default (topology rt) cn [])" by (auto simp: members_def)
    then show ?thesis using cluster_member [OF cs] by metis
  qed
  have "calls_fit (topology rt) calls"
  proof -
    have "map bc_node calls = dict_keys d" by (simp add: calls batch_calls_def o_def case_prod_beta)
    moreover have "bc_node c \<in> set (dict_keys d) \<and> bc_pairs c = asked 0 queries nss (bc_node c)" if "c \<in> set calls" for c
      using that pairs same by (force simp: calls batch_calls_def)
    ultimately show ?thesis using d member fits unfolding calls_fit_def dict_ok_def
      by (fastforce simp: asked_set [OF nss(2)])
  qed
  moreover have "pairs_ok queries calls"
    unfolding calls using nss(2) pairs [unfolded same] by (rule grouped_pairs_ok)
  moreover have "batch_ids_ok c (length queries) (batch_start calls (c + int (length queries)))"
    using each by (intro batch_start_ids [OF calls nss(2) pairs [unfolded same]]) simp_all
  moreover have "batch_work (batch_start calls (c + int (length queries))) \<le> batch_bound (topology rt) queries"
    using group_queries_weight [OF gr nss(1), of "length (topology rt)" keys_of] each
    by (simp add: calls batch_start_work batch_bound_def grouped_weight_def)
  moreover have "\<exists>k < length calls. bc_node (calls ! k) = n \<and> bc_pairs (calls ! k) = asked 0 queries nss n"
    if "n \<in> (\<Union>ns \<in> set nss. set ns)" for n
  proof -
    have "(n, asked 0 queries nss n) \<in> set d" using all that unfolding keys same by blast
    then obtain k where "k < length d" "d ! k = (n, asked 0 queries nss n)" by (metis in_set_conv_nth)
    then show ?thesis by (intro exI [of _ k]) (simp add: calls batch_calls_nth)
  qed
  ultimately show ?thesis using that sub nss(1) unfolding st by blast
qed

text \<open>
  C2. A batch of queries, from the router's choice of nodes to the result: with the leaders known
  being nodes of their clusters, every node that is asked up and the mock server behind it, and
  pages answered by any node of the cluster that is up, in whatever pieces the answers arrive and
  in whatever order sub-batches and pages complete, the call ends after at most one completion per
  cluster, query and key. The result then holds, for every node the router named for a query, the
  list of its answers in the order of its queries, each with every record of the query's interval
  once and in key order.
\<close>

theorem client_read_batch_returns_every_record:
  assumes "routable (cl_router cl)" and "registry_ok (leaders (cl_router cl))"
    and "leaders_known (cl_clusters cl) (leaders (cl_router cl))"
    and "cl_clusters cl = topology (cl_router cl)" and "net_ok (cl_net cl)" and "\<forall>q \<in> set queries. queries_fit q"
    and "queries \<noteq> []" and "0 \<le> cl_req_counter cl"
    and "cl_req_counter cl + int (length queries) * (1 + int (batch_bound (cl_clusters cl) queries)) \<le> 2 ^ 64"
    and "batch_world_answers (cl_clusters cl) world" and "batch_bound (cl_clusters cl) queries \<le> length ks"
  shows "\<exists>nss rt' res cl'. routed (cl_router cl) queries = (Inr nss, rt') \<and>
    client_read_batch cl queries False world ks = (Some (Inr (Some res)), cl') \<and> net_ok (cl_net cl') \<and>
    (\<forall>n \<in> \<Union> (set ` set nss). \<exists>entries.
       (node_name n, n, entries) \<in> set (dict_get_default (br_clusters res) (cluster_name n) []) \<and>
       entries_full (asked 0 queries nss n) entries)"
proof -
  let ?c = "cl_req_counter cl" and ?cs = "topology (cl_router cl)"
  note world = assms(9-11) [unfolded assms(4)]
  obtain calls nss rt' where
    sub: "batch_submit (cl_router cl) queries ?c = (Inr (Some (batch_start calls (?c + int (length queries)))), rt')"
    and nss: "routed (cl_router cl) queries = (Inr nss, rt')" and pairs: "pairs_ok queries calls"
    and fit: "calls_fit ?cs calls" and ids: "batch_ids_ok ?c (length queries) (batch_start calls (?c + int (length queries)))"
    and work: "batch_work (batch_start calls (?c + int (length queries))) \<le> batch_bound ?cs queries"
    and every: "\<And>n. n \<in> \<Union> (set ` set nss) \<Longrightarrow> \<exists>k < length calls. bc_node (calls ! k) = n \<and>
       bc_pairs (calls ! k) = asked 0 queries nss n"
    by (rule submitted_fits [OF assms(1,2) assms(3) [unfolded assms(4)] assms(6,7), of ?c]) blast
  let ?ag = "batch_start calls (?c + int (length queries))"
  have next_req: "bg_next_req ?ag = ?c + int (length queries)" by (simp add: batch_start_def)
  have "length queries * batch_work ?ag \<le> length queries * batch_bound ?cs queries" using work by (rule mult_le_mono2)
  then have "int (length queries) * int (batch_work ?ag) \<le> int (length queries) * int (batch_bound ?cs queries)"
    by (simp flip: of_nat_mult)
  then have u64: "bg_next_req ?ag + int (length queries) * int (batch_work ?ag) \<le> 2 ^ 64"
    using world(1) next_req by (simp add: distrib_left)
  have cs: "clusters_ok ?cs" using assms(1) by (simp add: routable_def topology_ok_def)
  have l: "1 \<le> length queries" using assms(7) by (simp add: Suc_le_eq)
  have "\<exists>ag' st' A'. batch_loop ?cs queries False world ks ?ag \<lparr>qs_net = cl_net cl, qs_counter = bg_next_req ?ag\<rparr> =
      (Inr ag', st') \<and> bg_active ag' = [] \<and> mock_pages.batch_inv calls A' {} ag' \<and> own_nodes calls A' \<and> net_ok (qs_net st')"
    using assms(5) world(3) work
    by (intro batch_loop_mock [OF mock_pages.batch_start_inv(1) _ fit pairs ids assms(8) l _ cs world(2) u64])
      (simp_all add: own_nodes_def)
  then obtain ag' st' A' where run: "batch_loop ?cs queries False world ks ?ag
      \<lparr>qs_net = cl_net cl, qs_counter = bg_next_req ?ag\<rparr> = (Inr ag', st')" "bg_active ag' = []"
    "mock_pages.batch_inv calls A' {} ag'" "own_nodes calls A'" "net_ok (qs_net st')" by blast
  have res: "client_read_batch cl queries False world ks = (Some (Inr (Some (build_batch_results ag'))),
      cl\<lparr>cl_router := rt', cl_net := qs_net st', cl_req_counter := qs_counter st'\<rparr>)"
    using sub run(1,2) by (simp add: client_read_batch_def assms(4))
  have full: "\<forall>n \<in> \<Union> (set ` set nss). \<exists>entries.
      (node_name n, n, entries) \<in> set (dict_get_default (br_clusters (build_batch_results ag')) (cluster_name n) []) \<and>
      entries_full (asked 0 queries nss n) entries"
  proof
    fix n
    assume n: "n \<in> \<Union> (set ` set nss)"
    obtain k where k: "k < length calls" "bc_node (calls ! k) = n" "bc_pairs (calls ! k) = asked 0 queries nss n"
      using every [OF n] by blast
    from batch_ended_entries [OF run(3,4,2) k(1)] obtain entries where
      "(n, entries) \<in> set (bg_accum ag')" "entries_full (asked 0 queries nss n) entries" unfolding k(2,3) by blast
    then show "\<exists>entries. (node_name n, n, entries) \<in>
        set (dict_get_default (br_clusters (build_batch_results ag')) (cluster_name n) []) \<and>
        entries_full (asked 0 queries nss n) entries"
      using filed_member [of n entries "bg_accum ag'" "[]"] by (auto simp: build_batch_results_def)
  qed
  show ?thesis
    by (intro exI [of _ nss] exI [of _ rt'] exI [of _ "build_batch_results ag'"] conjI exI, rule nss, rule res)
      (simp add: run(5), rule full)
qed

text \<open>Two queries to two clusters, from the client of \<^theory_text>\<open>Read_Session\<close>; the first page a future
  stands for is refused by the first node of \<open>A\<close>.\<close>

definition batch_test_queries :: "query_request list" where
  "batch_test_queries = [session_query, session_query\<lparr>max_id := 5\<rparr>]"

definition failing_batch_world :: batch_world where
  "failing_batch_world fut job = (case job of
     BatchJob call \<Rightarrow> (empty_registry, \<lambda>i. mock_env (bind_res
       (map_res (\<lambda>(r, q). encode_query r q) (zip (bc_req_ids call) (map snd (bc_pairs call)))) (\<lambda>bss. Inr (concat bss))))
   | PageJob call \<Rightarrow> failing_world fut call)"

lemma failing_batch_world_answers: "batch_world_answers session_clusters failing_batch_world"
  unfolding batch_world_answers_def
proof (intro allI)
  fix fut job
  show "job_answers session_clusters (snd (failing_batch_world fut job)) job"
  proof (cases job)
    case (BatchJob call)
    then show ?thesis using mock_env_behind by (simp add: failing_batch_world_def)
  next
    case (PageJob call)
    then show ?thesis using failing_world_answers by (simp add: failing_batch_world_def world_answers_def)
  qed
qed

theorem client_read_batch_returns_every_record_witness:
  "\<exists>nss res cl'. client_read_batch session_client batch_test_queries False failing_batch_world (replicate 100 1) =
     (Some (Inr (Some res)), cl') \<and> map (map cluster_name) nss = [[''A'', ''B''], [''A'', ''B'']] \<and>
     (\<forall>n \<in> \<Union> (set ` set nss). \<exists>entries.
       (node_name n, n, entries) \<in> set (dict_get_default (br_clusters res) (cluster_name n) []) \<and>
       entries_full (asked 0 batch_test_queries nss n) entries)"
proof -
  have fit: "\<forall>q \<in> set batch_test_queries. queries_fit q"
    by (simp add: batch_test_queries_def queries_fit_def query_u64_def is_u64_def session_query_def)
  have b: "batch_bound session_clusters batch_test_queries = 34"
    by (simp add: batch_bound_def session_clusters_def batch_test_queries_def session_query_def keys_of_def)
  have known: "leaders_known (cl_clusters session_client) (leaders (cl_router session_client))"
    by (simp add: leaders_known_def session_client_def update_topology_def new_router_def empty_registry_def get_leader_def)
  have ne: "batch_test_queries \<noteq> []" "length batch_test_queries = 2" by (simp_all add: batch_test_queries_def)
  obtain nss rt' res cl' where r: "routed (cl_router session_client) batch_test_queries = (Inr nss, rt')"
    "client_read_batch session_client batch_test_queries False failing_batch_world (replicate 100 1) = (Some (Inr (Some res)), cl')"
    and all: "\<forall>n \<in> \<Union> (set ` set nss). \<exists>entries.
       (node_name n, n, entries) \<in> set (dict_get_default (br_clusters res) (cluster_name n) []) \<and>
       entries_full (asked 0 batch_test_queries nss n) entries"
    using client_read_batch_returns_every_record [OF session_client_ok(1,2) known session_client_ok(3,4) fit ne(1)
        session_client_ok(5), of failing_batch_world "replicate 100 1"] failing_batch_world_answers b ne(2) session_client_ok(6)
    by (auto simp: session_client_def simp del: UN_iff)
  have "map_sum id (map (map cluster_name)) (fst (routed (cl_router session_client) batch_test_queries)) =
      Inr [[''A'', ''B''], [''A'', ''B'']]"
    by (simp add: batch_test_queries_def session_client_def session_clusters_def session_node_def update_topology_def
        new_router_def router_query_def query_every_def select_follower_def followers_of_def get_leader_def
        empty_registry_def Let_def new_rr_def)
  then have "map (map cluster_name) nss = [[''A'', ''B''], [''A'', ''B'']]" using r(1) by simp
  with r(2) all show ?thesis by (intro exI [of _ nss] exI [of _ res] exI [of _ cl'] conjI)
qed

end
