(* ===== verification/Cli_Show.thy ===== *)
theory Cli_Show
  imports Read_Pages
begin

text \<open>
  \<open>show\<close> of \<open>cli.py\<close>: the results of a query, either as JSON, converted to plain values and truncated
  in depth and length, or as an indented listing of clusters, nodes and records. A printed line is kept
  as its kind with the values it shows; the layout of the text is left out.
\<close>

section \<open>Python values\<close>

text \<open>The values \<open>show\<close> tells apart. A dataclass is the dictionary of its fields; of any other object
  only the text \<open>str\<close> gives matters.\<close>

datatype pykey = KStr string | KInt int | KObj string

datatype pyval =
    VInt int | VFloat rat | VBool bool | VStr string | VNone
  | VList "pyval list" | VTuple "pyval list"
  | VDict "(pykey \<times> pyval) list" | VData "(string \<times> pyval) list"
  | VBytes "byte list" | VObj string

definition hex_digit :: "nat \<Rightarrow> char" where
  "hex_digit d = char_of (if d < 10 then 48 + d else 87 + d)"

definition byte_repr :: "nat \<Rightarrow> nat \<Rightarrow> string" where
  "byte_repr quote b =
     (if b = quote \<or> b = 92 then [char_of (92 :: nat), char_of b]
      else if b = 9 then [char_of (92 :: nat), CHR ''t'']
      else if b = 10 then [char_of (92 :: nat), CHR ''n'']
      else if b = 13 then [char_of (92 :: nat), CHR ''r'']
      else if 32 \<le> b \<and> b < 127 then [char_of b]
      else [char_of (92 :: nat), CHR ''x'', hex_digit (b div 16), hex_digit (b mod 16)])"

definition bytes_repr :: "byte list \<Rightarrow> string" where
  "bytes_repr bs =
     (let quote = (if 39 \<in> set bs \<and> 34 \<notin> set bs then 34 else 39) in
      CHR ''b'' # char_of quote # concat (map (byte_repr quote \<circ> unat) bs) @ [char_of quote])"

fun key_str :: "pykey \<Rightarrow> string" where
  "key_str (KStr s) = s"
| "key_str (KInt i) = show_int i"
| "key_str (KObj s) = s"

section \<open>JSON output\<close>

text \<open>The list case: a list over the limit keeps its two ends, and a line that counts the rest.\<close>

definition omitted_items :: "int \<Rightarrow> string" where
  "omitted_items k = ''... ('' @ show_int k @ '' more items omitted) ...''"

definition truncate_items :: "int \<Rightarrow> (pyval \<Rightarrow> pyval) \<Rightarrow> pyval list \<Rightarrow> pyval list" where
  "truncate_items max_length convert xs =
     (if max_length < int (length xs)
      then let half = max_length div 2 in
        map convert (py_take half xs) @ [VStr (omitted_items (int (length xs) - max_length))] @
        map convert (py_drop (- half) xs)
      else map convert xs)"

lemma truncate_items_cong [fundef_cong]:
  assumes "n = n'" and "xs = ys" and "\<And>x. x \<in> set ys \<Longrightarrow> f x = g x"
  shows "truncate_items n f xs = truncate_items n' g ys"
  using assms by (auto simp: truncate_items_def Let_def py_take_def py_drop_def dest: in_set_takeD in_set_dropD)

text \<open>A dictionary whose keys become texts: keys with the same text share the place of the first.\<close>

definition str_keys :: "(pyval \<Rightarrow> pyval) \<Rightarrow> (pykey \<times> pyval) list \<Rightarrow> (pykey \<times> pyval) list" where
  "str_keys convert kvs = foldl (\<lambda>d (k, v). AList.update (KStr (key_str k)) (convert v) d) [] kvs"

lemma str_keys_cong [fundef_cong]:
  assumes "kvs = kvs'" and "\<And>k v. (k, v) \<in> set kvs' \<Longrightarrow> f v = g v"
  shows "str_keys f kvs = str_keys g kvs'"
  unfolding str_keys_def by (rule foldl_cong) (use assms in auto)

text \<open>A value is larger than those it holds.\<close>

lemma pyval_size_item:
  "x \<in> set xs \<Longrightarrow> size x < size (VList xs)"
  "x \<in> set xs \<Longrightarrow> size x < size (VTuple xs)"
  by (simp_all add: size_list_estimation [of x xs "size x" size] less_Suc_eq_le size_list_estimation')

lemma pyval_size_entry:
  "(k, x) \<in> set kvs \<Longrightarrow> size x < size (VDict kvs)"
  "(c, x) \<in> set attrs \<Longrightarrow> size x < size (VData attrs)"
  by (induction kvs, auto) (induction attrs, auto)

function convert_and_truncate :: "int \<Rightarrow> int \<Rightarrow> int \<Rightarrow> pyval \<Rightarrow> pyval" where
  "convert_and_truncate max_depth max_length depth v =
     (if max_depth < depth then VStr ''<Max Depth Reached>''
      else case v of
        VData attrs \<Rightarrow> VDict (str_keys (convert_and_truncate max_depth max_length (depth + 1))
                                (map (\<lambda>(k, x). (KStr k, x)) attrs))
      | VDict kvs \<Rightarrow> VDict (str_keys (convert_and_truncate max_depth max_length (depth + 1)) kvs)
      | VList xs \<Rightarrow> VList (truncate_items max_length (convert_and_truncate max_depth max_length (depth + 1)) xs)
      | VTuple xs \<Rightarrow> VList (truncate_items max_length (convert_and_truncate max_depth max_length (depth + 1)) xs)
      | VBytes bs \<Rightarrow> VStr (bytes_repr bs)
      | VObj s \<Rightarrow> VStr s
      | v \<Rightarrow> v)"
  by pat_completeness auto

termination
  by (relation "measure (\<lambda>(_, _, _, v). size v)")
    (auto dest: pyval_size_item pyval_size_entry)

declare convert_and_truncate.simps [simp del]

lemma convert_simps:
  "m < d \<Longrightarrow> convert_and_truncate m n d v = VStr ''<Max Depth Reached>''"
  "d \<le> m \<Longrightarrow> convert_and_truncate m n d (VList xs) = VList (truncate_items n (convert_and_truncate m n (d + 1)) xs)"
  "d \<le> m \<Longrightarrow> convert_and_truncate m n d (VTuple xs) = VList (truncate_items n (convert_and_truncate m n (d + 1)) xs)"
  "d \<le> m \<Longrightarrow> convert_and_truncate m n d (VDict kvs) = VDict (str_keys (convert_and_truncate m n (d + 1)) kvs)"
  "d \<le> m \<Longrightarrow> convert_and_truncate m n d (VData attrs) =
     VDict (str_keys (convert_and_truncate m n (d + 1)) (map (\<lambda>(k, x). (KStr k, x)) attrs))"
  "d \<le> m \<Longrightarrow> convert_and_truncate m n d (VBytes bs) = VStr (bytes_repr bs)"
  "d \<le> m \<Longrightarrow> convert_and_truncate m n d (VObj s) = VStr s"
  "d \<le> m \<Longrightarrow> convert_and_truncate m n d (VInt i) = VInt i"
  "d \<le> m \<Longrightarrow> convert_and_truncate m n d (VFloat q) = VFloat q"
  "d \<le> m \<Longrightarrow> convert_and_truncate m n d (VBool b) = VBool b"
  "d \<le> m \<Longrightarrow> convert_and_truncate m n d (VStr s) = VStr s"
  "d \<le> m \<Longrightarrow> convert_and_truncate m n d VNone = VNone"
  by (subst convert_and_truncate.simps, simp)+

section \<open>The listing\<close>

datatype show_line =
    ClusterHead pykey | NodeHead pykey | PlainValue pyval | MetaLine pykey pyval
  | RecordsHead nat | RecordItem pyval | OmittedRecords int | NoRecords | JsonText pyval

text \<open>Lines printed so far, and whether the printing was left by an exception.\<close>

type_synonym printed = "show_line list \<times> unit res"

definition then_show :: "printed \<Rightarrow> printed \<Rightarrow> printed" where
  "then_show a b = (case snd a of Inl e \<Rightarrow> a | Inr _ \<Rightarrow> (fst a @ fst b, snd b))"

fun show_all :: "('a \<Rightarrow> printed) \<Rightarrow> 'a list \<Rightarrow> printed" where
  "show_all f [] = ([], Inr ())"
| "show_all f (x # xs) = then_show (f x) (show_all f xs)"

text \<open>What \<open>len\<close> counts and \<open>for\<close> goes through.\<close>

fun key_value :: "pykey \<Rightarrow> pyval" where
  "key_value (KStr s) = VStr s"
| "key_value (KInt i) = VInt i"
| "key_value (KObj s) = VObj s"

definition py_items :: "pyval \<Rightarrow> pyval list res" where
  "py_items v = (case v of
     VList xs \<Rightarrow> Inr xs
   | VTuple xs \<Rightarrow> Inr xs
   | VDict kvs \<Rightarrow> Inr (map (key_value \<circ> fst) kvs)
   | VStr s \<Rightarrow> Inr (map (\<lambda>c. VStr [c]) s)
   | VBytes bs \<Rightarrow> Inr (map (VInt \<circ> uint) bs)
   | _ \<Rightarrow> Inl TypeError)"

definition is_dict :: "pyval \<Rightarrow> bool" where
  "is_dict v = (case v of VDict kvs \<Rightarrow> True | _ \<Rightarrow> False)"

definition show_records :: "int \<Rightarrow> pyval \<Rightarrow> printed" where
  "show_records max_length records =
     (case py_items records of
        Inl e \<Rightarrow> ([], Inl e)
      | Inr xs \<Rightarrow>
          then_show ([RecordsHead (length xs)], Inr ())
            (if max_length < int (length xs)
             then if is_dict records then ([], Inl TypeError)
               else let half = max_length div 2 in
                 (map RecordItem (py_take half xs) @ [OmittedRecords (int (length xs) - max_length)] @
                  map RecordItem (py_drop (- half) xs), Inr ())
             else (map RecordItem xs @ (if xs = [] then [NoRecords] else []), Inr ())))"

text \<open>A long text among the metadata is cut after 100 characters.\<close>

definition meta_value :: "pyval \<Rightarrow> pyval" where
  "meta_value v = (case v of
     VStr s \<Rightarrow> if 100 < length s then VStr (take 100 s @ ''...'') else v
   | _ \<Rightarrow> v)"

definition show_node :: "int \<Rightarrow> pykey \<times> pyval \<Rightarrow> printed" where
  "show_node max_length entry = (case entry of (nname, node_data) \<Rightarrow>
     then_show ([NodeHead nname], Inr ())
       (let response = (case node_data of VTuple [_, r] \<Rightarrow> r | _ \<Rightarrow> node_data) in
        case response of
          VDict kvs \<Rightarrow>
            then_show
              (map (\<lambda>(k, v). MetaLine k (meta_value v)) (filter (\<lambda>kv. fst kv \<noteq> KStr ''records'') kvs), Inr ())
              (show_records max_length (dict_get_default kvs (KStr ''records'') (VList [])))
        | _ \<Rightarrow> ([PlainValue response], Inr ())))"

definition show_cluster :: "int \<Rightarrow> pykey \<times> pyval \<Rightarrow> printed" where
  "show_cluster max_length entry = (case entry of (cname, node_list) \<Rightarrow>
     then_show ([ClusterHead cname], Inr ())
       (case node_list of
          VList entries \<Rightarrow>
            show_all (\<lambda>node_entry. case node_entry of
                VDict kvs \<Rightarrow> show_all (show_node max_length) kvs
              | _ \<Rightarrow> ([], Inr ())) entries
        | _ \<Rightarrow> ([PlainValue node_list], Inr ())))"

definition show_results :: "pyval \<Rightarrow> bool \<Rightarrow> int \<Rightarrow> int \<Rightarrow> printed" where
  "show_results results verbose max_depth max_length =
     (if verbose then ([JsonText (convert_and_truncate max_depth max_length 0 results)], Inr ())
      else case results of
        VDict kvs \<Rightarrow> show_all (show_cluster max_length) kvs
      | _ \<Rightarrow> ([PlainValue results], Inr ()))"

section \<open>The results of a query as values\<close>

text \<open>The contents that reading a record gives are integers and byte strings.\<close>

fun content_value :: "content \<Rightarrow> pyval" where
  "content_value (CInt i) = VInt i"
| "content_value (CBytes bs) = VBytes bs"
| "content_value _ = VObj []"

definition record_value :: "db_record \<Rightarrow> pyval" where
  "record_value r = VData
     [(''key_id'', VInt (key_id r)), (''timestamp'', VInt (timestamp r)), (''content'', content_value (content r))]"

definition node_value :: "node \<Rightarrow> pyval" where
  "node_value n = VData
     [(''cluster_name'', VStr (cluster_name n)), (''id'', VInt (node_id n)), (''host'', VStr (host n)),
      (''port'', VInt (port n))]"

definition response_value :: "response \<Rightarrow> pyval" where
  "response_value resp = VDict
     [(KStr ''req_id'', VInt (r_req_id resp)), (KStr ''limit_reached'', VBool (r_limit_reached resp)),
      (KStr ''min_id'', VInt (r_min_id resp)), (KStr ''min_ts'', VInt (r_min_ts resp)),
      (KStr ''max_id'', VInt (r_max_id resp)), (KStr ''max_ts'', VInt (r_max_ts resp)),
      (KStr ''records_bytes'', VInt (r_records_bytes resp)), (KStr ''records_count'', VInt (r_records_count resp)),
      (KStr ''records'', VList (map record_value (r_records resp)))]"

definition metrics_value :: "read_request_metrics \<Rightarrow> pyval" where
  "metrics_value m = VData
     [(''query_id'', VInt (rm_query_id m)), (''req_id'', VInt (rm_req_id m)),
      (''send_time_ms'', VFloat (rm_send_time_ms m)), (''recv_time_ms'', VFloat (rm_recv_time_ms m)),
      (''record_count'', VInt (rm_record_count m)), (''records_bytes'', VInt (rm_records_bytes m))]"

definition entry_value :: "string \<times> node \<times> response \<Rightarrow> pyval" where
  "entry_value e = (case e of (name, n, resp) \<Rightarrow> VDict [(KStr name, VTuple [node_value n, response_value resp])])"

definition results_value :: "read_results \<Rightarrow> pyval" where
  "results_value r = VDict
     (AList.update (KStr ''_request_metrics'') (VList (map metrics_value (rr_request_metrics r)))
       (AList.update (KStr ''_latency_ms'') (VFloat (rr_latency_ms r))
         (map (\<lambda>(c, es). (KStr c, VList (map entry_value es))) (rr_clusters r))))"

section \<open>Bounds of the JSON output\<close>

text \<open>A value with at most \<open>k\<close> levels, made of what \<open>json.dumps\<close> takes, whose lists have at most
  \<open>n + 1\<close> entries.\<close>

fun json_within :: "int \<Rightarrow> nat \<Rightarrow> pyval \<Rightarrow> bool" where
  "json_within n k (VList xs) = (case k of 0 \<Rightarrow> False
     | Suc j \<Rightarrow> int (length xs) \<le> n + 1 \<and> (\<forall>x \<in> set xs. json_within n j x))"
| "json_within n k (VDict kvs) = (case k of 0 \<Rightarrow> False
     | Suc j \<Rightarrow> dict_ok kvs \<and> (\<forall>(key, x) \<in> set kvs. (\<exists>s. key = KStr s) \<and> json_within n j x))"
| "json_within n k (VTuple xs) = False"
| "json_within n k (VData attrs) = False"
| "json_within n k (VBytes bs) = False"
| "json_within n k (VObj s) = False"
| "json_within n k v = True"

lemma truncate_items_set: "x \<in> set (truncate_items n f xs) \<Longrightarrow> x \<in> f ` set xs \<or> (\<exists>s. x = VStr s)"
  by (auto simp: truncate_items_def Let_def py_take_def py_drop_def dest: in_set_takeD in_set_dropD split: if_splits)

lemma half_pieces:
  assumes "2 \<le> n" and "n < int (length xs)"
  shows "py_take (n div 2) xs = take (nat n div 2) xs"
    and "py_drop (- (n div 2)) xs = drop (length xs - nat n div 2) xs"
proof -
  have h: "nat n div 2 = nat (n div 2)" "0 < n div 2" "n div 2 < int (length xs)"
    using assms by (auto simp: nat_div_distrib)
  show "py_take (n div 2) xs = take (nat n div 2) xs" using h assms by (simp add: py_take_nonneg)
  show "py_drop (- (n div 2)) xs = drop (length xs - nat n div 2) xs"
    using h by (simp add: py_drop_def slice_pos_def) (simp add: nat_diff_distrib)
qed

lemma truncate_items_length: "2 \<le> n \<Longrightarrow> int (length (truncate_items n f xs)) \<le> n + 1"
proof (cases "n < int (length xs)")
  case True
  assume n: "2 \<le> n"
  have "length (truncate_items n f xs) = 2 * (nat n div 2) + 1"
    using True n half_pieces [OF n True] by (simp add: truncate_items_def Let_def)
  then show ?thesis using n by linarith
qed (simp add: truncate_items_def)

lemma str_keys_spec:
  "dict_ok (str_keys f kvs) \<and>
   (\<forall>(key, x) \<in> set (str_keys f kvs). (\<exists>s. key = KStr s) \<and> (\<exists>(k, v) \<in> set kvs. x = f v))"
proof (induction kvs rule: rev_induct)
  case (snoc kv kvs)
  obtain k v where kv: "kv = (k, v)" by (cases kv)
  have u: "str_keys f (kvs @ [kv]) = AList.update (KStr (key_str k)) (f v) (str_keys f kvs)"
    by (simp add: str_keys_def kv)
  have sub: "set (AList.update key x d) \<subseteq> insert (key, x) (set d)" for key :: pykey and x :: pyval and d
    by (induction d) auto
  have "(\<exists>s. key = KStr s) \<and> (\<exists>(k, v) \<in> set (kvs @ [kv]). x = f v)"
    if "(key, x) \<in> set (str_keys f (kvs @ [kv]))" for key x
  proof (cases "(key, x) \<in> set (str_keys f kvs)")
    case True
    then show ?thesis using snoc.IH by auto
  next
    case False
    moreover have "(key, x) \<in> insert (KStr (key_str k), f v) (set (str_keys f kvs))"
      using that sub unfolding u by (rule rev_subsetD)
    ultimately have "key = KStr (key_str k)" "x = f v" by simp_all
    then show ?thesis using kv by auto
  qed
  then show ?case using snoc.IH u by auto
qed (simp add: str_keys_def)

lemma str_keysD:
  assumes "(key, x) \<in> set (str_keys f kvs)"
  obtains s c v where "key = KStr s" and "(c, v) \<in> set kvs" and "x = f v"
  using str_keys_spec [of f kvs] assms by auto

lemma str_keys_ok: "dict_ok (str_keys f kvs)"
  using str_keys_spec by blast

lemma convert_within:
  "2 \<le> n \<Longrightarrow> json_within n (nat (m + 1 - d)) (convert_and_truncate m n d v)"
proof (induction m n d v rule: convert_and_truncate.induct)
  case (1 m n d v)
  show ?case
  proof (cases "m < d")
    case True
    then show ?thesis by (simp add: convert_simps)
  next
    case False
    let ?f = "convert_and_truncate m n (d + 1)" and ?k = "nat (m + 1 - (d + 1))"
    have le: "d \<le> m" and k: "nat (m + 1 - d) = Suc ?k" using False by simp_all
    have items: "json_within n (Suc ?k) (VList (truncate_items n ?f xs))"
      if IH: "\<And>x. x \<in> set xs \<Longrightarrow> json_within n ?k (?f x)" for xs
    proof -
      have "json_within n ?k x" if x: "x \<in> set (truncate_items n ?f xs)" for x
        using truncate_items_set [OF x] IH by auto
      then show ?thesis using truncate_items_length [OF "1.prems", of ?f xs] by simp
    qed
    have entries: "json_within n (Suc ?k) (VDict (str_keys ?f kvs))"
      if IH: "\<And>c x. (c, x) \<in> set kvs \<Longrightarrow> json_within n ?k (?f x)" for kvs
    proof -
      have "(\<exists>s. key = KStr s) \<and> json_within n ?k x" if "(key, x) \<in> set (str_keys ?f kvs)" for key x
        using that by (rule str_keysD) (use IH in auto)
      then show ?thesis using str_keys_ok [of ?f kvs] by auto
    qed
    show ?thesis
    proof (cases v)
      case (VList xs)
      from items [OF "1.IH"(1) [OF False this _ "1.prems"]] show ?thesis
        unfolding VList k convert_simps(2) [OF le] .
    next
      case (VTuple xs)
      from items [OF "1.IH"(2) [OF False this _ "1.prems"]] show ?thesis
        unfolding VTuple k convert_simps(3) [OF le] .
    next
      case (VDict kvs)
      from entries [OF "1.IH"(3) [OF False this _ "1.prems"]] show ?thesis
        unfolding VDict k convert_simps(4) [OF le] .
    next
      case (VData attrs)
      from entries [OF "1.IH"(4) [OF False this _ "1.prems"]] show ?thesis
        unfolding VData k convert_simps(5) [OF le] .
    qed (use le in \<open>simp_all add: convert_simps\<close>)
  qed
qed

section \<open>Values within the limits\<close>

text \<open>The conversion without truncation, and the values with at most \<open>k\<close> levels and \<open>n\<close> entries in
  every list.\<close>

function json_value :: "pyval \<Rightarrow> pyval" where
  "json_value v = (case v of
     VData attrs \<Rightarrow> VDict (str_keys json_value (map (\<lambda>(k, x). (KStr k, x)) attrs))
   | VDict kvs \<Rightarrow> VDict (str_keys json_value kvs)
   | VList xs \<Rightarrow> VList (map json_value xs)
   | VTuple xs \<Rightarrow> VList (map json_value xs)
   | VBytes bs \<Rightarrow> VStr (bytes_repr bs)
   | VObj s \<Rightarrow> VStr s
   | v \<Rightarrow> v)"
  by pat_completeness auto
termination
  by (relation "measure size") (auto dest: pyval_size_item pyval_size_entry)

declare json_value.simps [simp del]

lemma json_value_simps [simp]:
  "json_value (VList xs) = VList (map json_value xs)"
  "json_value (VTuple xs) = VList (map json_value xs)"
  "json_value (VDict kvs) = VDict (str_keys json_value kvs)"
  "json_value (VData attrs) = VDict (str_keys json_value (map (\<lambda>(k, x). (KStr k, x)) attrs))"
  "json_value (VBytes bs) = VStr (bytes_repr bs)"
  "json_value (VObj s) = VStr s"
  "json_value (VInt i) = VInt i"
  "json_value (VFloat q) = VFloat q"
  "json_value (VBool b) = VBool b"
  "json_value (VStr s) = VStr s"
  "json_value VNone = VNone"
  by (subst json_value.simps, simp)+

fun fits :: "int \<Rightarrow> nat \<Rightarrow> pyval \<Rightarrow> bool" where
  "fits n 0 v = False"
| "fits n (Suc j) (VList xs) = (int (length xs) \<le> n \<and> (\<forall>x \<in> set xs. fits n j x))"
| "fits n (Suc j) (VTuple xs) = (int (length xs) \<le> n \<and> (\<forall>x \<in> set xs. fits n j x))"
| "fits n (Suc j) (VDict kvs) = (\<forall>x \<in> snd ` set kvs. fits n j x)"
| "fits n (Suc j) (VData attrs) = (\<forall>x \<in> snd ` set attrs. fits n j x)"
| "fits n (Suc j) v = True"

lemma truncate_items_fit: "int (length xs) \<le> n \<Longrightarrow> truncate_items n f xs = map f xs"
  by (simp add: truncate_items_def)

lemma str_keys_eq: "(\<And>k v. (k, v) \<in> set kvs \<Longrightarrow> f v = g v) \<Longrightarrow> str_keys f kvs = str_keys g kvs"
  by (rule str_keys_cong) auto

lemma convert_fits: "fits n j v \<Longrightarrow> int j \<le> m + 1 - d \<Longrightarrow> convert_and_truncate m n d v = json_value v"
proof (induction m n d v arbitrary: j rule: convert_and_truncate.induct)
  case (1 m n d v)
  obtain i where j: "j = Suc i" using "1.prems"(1) by (cases j) auto
  have le: "d \<le> m" "\<not> m < d" and i: "int i \<le> m + 1 - (d + 1)" using "1.prems"(2) j by simp_all
  note IH = "1.IH" [OF le(2)]
  show ?case
  proof (cases v)
    case (VList xs)
    have "map (convert_and_truncate m n (d + 1)) xs = map json_value xs"
      using IH(1) [OF VList _ _ i] "1.prems"(1) by (intro map_cong) (simp_all add: VList j)
    then show ?thesis using "1.prems"(1) by (simp add: VList j convert_simps(3,2) [OF le(1)] truncate_items_fit)
  next
    case (VTuple xs)
    have "map (convert_and_truncate m n (d + 1)) xs = map json_value xs"
      using IH(2) [OF VTuple _ _ i] "1.prems"(1) by (intro map_cong) (simp_all add: VTuple j)
    then show ?thesis using "1.prems"(1) by (simp add: VTuple j convert_simps(3,2) [OF le(1)] truncate_items_fit)
  next
    case (VDict kvs)
    have "str_keys (convert_and_truncate m n (d + 1)) kvs = str_keys json_value kvs"
      using "1.prems"(1) by (intro str_keys_eq IH(3) [OF VDict _ _ i]) (force simp: VDict j)+
    then show ?thesis by (simp only: VDict convert_simps(4) [OF le(1)] json_value_simps)
  next
    case (VData attrs)
    have "str_keys (convert_and_truncate m n (d + 1)) (map (\<lambda>(k, x). (KStr k, x)) attrs) =
        str_keys json_value (map (\<lambda>(k, x). (KStr k, x)) attrs)"
      using "1.prems"(1) by (intro str_keys_eq IH(4) [OF VData _ _ i]) (force simp: VData j)+
    then show ?thesis by (simp only: VData convert_simps(5) [OF le(1)] json_value_simps)
  qed (use le in \<open>simp_all add: convert_simps\<close>)
qed

section \<open>The listing of a query\<close>

definition shown_records :: "show_line list \<Rightarrow> pyval list" where
  "shown_records ls = concat (map (\<lambda>l. case l of RecordItem v \<Rightarrow> [v] | _ \<Rightarrow> []) ls)"

definition shown_counts :: "show_line list \<Rightarrow> nat list" where
  "shown_counts ls = concat (map (\<lambda>l. case l of RecordsHead k \<Rightarrow> [k] | _ \<Rightarrow> []) ls)"

text \<open>The two ends of a list that is over the limit.\<close>

definition both_ends :: "nat \<Rightarrow> 'a list \<Rightarrow> 'a list" where
  "both_ends n xs = (if n < length xs then take (n div 2) xs @ drop (length xs - n div 2) xs else xs)"

lemma shown_simps [simp]:
  "shown_records [] = []" "shown_counts [] = []"
  "shown_records (l # ls) = (case l of RecordItem v \<Rightarrow> [v] | _ \<Rightarrow> []) @ shown_records ls"
  "shown_counts (l # ls) = (case l of RecordsHead k \<Rightarrow> [k] | _ \<Rightarrow> []) @ shown_counts ls"
  "shown_records (ls @ ls') = shown_records ls @ shown_records ls'"
  "shown_counts (ls @ ls') = shown_counts ls @ shown_counts ls'"
  "shown_records (map RecordItem xs) = xs" "shown_counts (map RecordItem xs) = []"
  "shown_records (map (\<lambda>(k, v). MetaLine k (g v)) kvs) = []" "shown_counts (map (\<lambda>(k, v). MetaLine k (g v)) kvs) = []"
  by (simp_all add: shown_records_def shown_counts_def o_def case_prod_beta)

lemma then_show_ok [simp]: "then_show (ls, Inr ()) b = (ls @ fst b, snd b)"
  by (simp add: then_show_def)

text \<open>A printing that is not left by an exception and shows these counts and records.\<close>

definition shows_ok :: "printed \<Rightarrow> nat list \<Rightarrow> pyval list \<Rightarrow> bool" where
  "shows_ok out counts records \<longleftrightarrow>
     snd out = Inr () \<and> shown_counts (fst out) = counts \<and> shown_records (fst out) = records"

lemma then_show_shows: "shows_ok a c r \<Longrightarrow> shows_ok b c' r' \<Longrightarrow> shows_ok (then_show a b) (c @ c') (r @ r')"
  by (auto simp: shows_ok_def then_show_def split: sum.splits)

lemma show_all_shows:
  "(\<And>x. x \<in> set xs \<Longrightarrow> shows_ok (f x) (c x) (r x)) \<Longrightarrow> shows_ok (show_all f xs) (concat (map c xs)) (concat (map r xs))"
proof (induction xs)
  case (Cons x xs)
  then show ?case using then_show_shows [of "f x" "c x" "r x"] by simp
qed (simp add: shows_ok_def)

lemma show_all_append: "show_all f (xs @ ys) = then_show (show_all f xs) (show_all f ys)"
  by (induction xs) (auto simp: then_show_def split: sum.splits)

lemma show_all_map: "show_all f (map g xs) = show_all (f \<circ> g) xs"
  by (induction xs) simp_all

text \<open>The entries with statistics are passed over.\<close>

lemma metrics_lines:
  "show_all (\<lambda>node_entry. case node_entry of VDict kvs \<Rightarrow> show_all f kvs | _ \<Rightarrow> ([], Inr ())) (map metrics_value ms) = ([], Inr ())"
  by (induction ms) (simp_all add: metrics_value_def)

lemma show_records_shows:
  assumes "2 \<le> n"
  shows "shows_ok (show_records (int n) (VList xs)) [length xs] (both_ends n xs)"
proof (cases "n < length xs")
  case True
  then have "int n < int (length xs)" "2 \<le> int n" using assms by simp_all
  then show ?thesis using True half_pieces [of "int n" xs]
    by (simp add: show_records_def py_items_def is_dict_def Let_def shows_ok_def both_ends_def)
qed (simp add: show_records_def py_items_def shows_ok_def both_ends_def)

lemma show_node_shows:
  assumes "2 \<le> n"
  shows "shows_ok (show_node (int n) (key, VTuple [v, response_value resp])) [length (r_records resp)]
    (both_ends n (map record_value (r_records resp)))"
proof -
  have "shows_ok ([NodeHead key], Inr ()) [] []" by (simp add: shows_ok_def)
  moreover have "shows_ok (map (\<lambda>(k, v). MetaLine k (meta_value v)) kvs, Inr ()) [] []" for kvs
    by (simp add: shows_ok_def)
  moreover have "response_value resp = VDict kvs \<Longrightarrow>
      dict_get_default kvs (KStr ''records'') (VList []) = VList (map record_value (r_records resp))" for kvs
    by (auto simp: response_value_def dict_get_default_def)
  moreover obtain kvs where "response_value resp = VDict kvs" by (simp add: response_value_def)
  ultimately show ?thesis
    using then_show_shows [of _ "[]" "[]" _ "[length (r_records resp)]" "both_ends n (map record_value (r_records resp))"]
      show_records_shows [OF assms, of "map record_value (r_records resp)"]
    by (simp add: show_node_def del: then_show_ok)
qed

lemma show_cluster_shows:
  assumes "2 \<le> n"
  shows "shows_ok (show_cluster (int n) (key, VList (map entry_value es))) (map (\<lambda>(_, _, resp). length (r_records resp)) es)
    (concat (map (\<lambda>(_, _, resp). both_ends n (map record_value (r_records resp))) es))"
proof -
  let ?show = "\<lambda>node_entry. case node_entry of VDict kvs \<Rightarrow> show_all (show_node (int n)) kvs | _ \<Rightarrow> ([], Inr ())"
  let ?c = "\<lambda>(_, _, resp). [length (r_records resp)]"
  let ?r = "\<lambda>(_, _, resp). both_ends n (map record_value (r_records resp))"
  have "shows_ok (?show (entry_value e)) (?c e) (?r e)" for e
    using then_show_shows [OF show_node_shows [OF assms], of "([], Inr ())" "[]" "[]"]
    by (cases e) (simp add: entry_value_def shows_ok_def)
  then have "shows_ok (show_all (?show \<circ> entry_value) es) (concat (map ?c es)) (concat (map ?r es))"
    by (intro show_all_shows) simp
  moreover have "show_all (?show \<circ> entry_value) es = show_all ?show (map entry_value es)"
    by (induction es) simp_all
  moreover have "concat (map ?c es) = map (\<lambda>(_, _, resp). length (r_records resp)) es" by (induction es) auto
  ultimately show ?thesis
    using then_show_shows [of "([ClusterHead key], Inr ())" "[]" "[]"]
    by (simp add: show_cluster_def shows_ok_def)
qed

section \<open>Properties\<close>

text \<open>
  Whatever value is shown, the verbose output is one JSON text over plain values only, with text
  keys and no key twice, nested at most \<open>max_depth + 1\<close> deep, and with at most \<open>max_length + 1\<close> entries
  in every list, for limits of length from 2 on.
\<close>

theorem json_output_is_bounded:
  assumes "2 \<le> max_length"
  shows "\<exists>v. show_results results True max_depth max_length = ([JsonText v], Inr ()) \<and>
    json_within max_length (nat (max_depth + 1)) v"
  using convert_within [OF assms, of max_depth 0 results] by (simp add: show_results_def)

theorem json_output_is_bounded_witness:
  "\<exists>v. show_results (VList (map VInt [1..9])) True 1 3 = ([JsonText v], Inr ()) \<and> json_within 3 2 v"
  using json_output_is_bounded [of 3 "VList (map VInt [1..9])" 1] by simp

lemma fits_update:
  "(\<forall>x \<in> snd ` set d. P x) \<Longrightarrow> P v \<Longrightarrow> (\<forall>x \<in> snd ` set (AList.update k v d). P x)"
  by (induction d) auto

text \<open>The JSON of a query result has eight levels.\<close>

definition small_results :: "int \<Rightarrow> read_results \<Rightarrow> bool" where
  "small_results n r \<longleftrightarrow> int (length (rr_request_metrics r)) \<le> n \<and>
     (\<forall>es \<in> snd ` set (rr_clusters r). int (length es) \<le> n \<and>
        (\<forall>(_, _, resp) \<in> set es. int (length (r_records resp)) \<le> n))"

lemma atom_fits: "fits n (Suc j) (content_value c)"
  by (cases c) simp_all

lemma results_fit:
  assumes "small_results n r" and "2 \<le> n"
  shows "fits n 8 (results_value r)"
proof -
  have rec: "fits n 2 (record_value x)" for x by (simp add: record_value_def atom_fits numeral_2_eq_2)
  have entry: "fits n 6 (entry_value e)" if "int (length (r_records (snd (snd e)))) \<le> n" for e
    using that rec assms(2)
    by (cases e) (auto simp: entry_value_def node_value_def response_value_def eval_nat_numeral)
  have "\<forall>x \<in> snd ` set (map (\<lambda>(c, es). (KStr c, VList (map entry_value es))) (rr_clusters r)). fits n 7 x"
    using assms(1) entry by (auto simp: small_results_def eval_nat_numeral split_beta)
  moreover have "fits n 7 (VList (map metrics_value (rr_request_metrics r)))"
    using assms(1) by (simp add: small_results_def metrics_value_def eval_nat_numeral)
  moreover have "fits n 7 (VFloat q)" for q by (simp add: eval_nat_numeral)
  ultimately have "\<forall>x \<in> snd ` set (AList.update (KStr ''_request_metrics'') (VList (map metrics_value (rr_request_metrics r)))
      (AList.update (KStr ''_latency_ms'') (VFloat (rr_latency_ms r))
         (map (\<lambda>(c, es). (KStr c, VList (map entry_value es))) (rr_clusters r)))). fits n 7 x"
    by (intro fits_update) blast+
  then show ?thesis by (simp add: results_value_def eval_nat_numeral)
qed

text \<open>
  The JSON of a query whose result has at most \<open>max_length\<close> nodes per cluster, records per node and
  requests shows everything: it is the plain conversion of the result, for the depth 10 that the command
  passes and any other from 7 on.
\<close>

theorem small_query_results_shown_whole:
  assumes "small_results max_length r" and "2 \<le> max_length" and "7 \<le> max_depth"
  shows "show_results (results_value r) True max_depth max_length =
    ([JsonText (json_value (results_value r))], Inr ())"
  using convert_fits [OF results_fit [OF assms(1,2)], of max_depth 0] assms(3) by (simp add: show_results_def)

definition demo_results :: read_results where
  "demo_results =
     \<lparr>rr_clusters = [(''A'', [(''1:h:7'', \<lparr>cluster_name = ''A'', node_id = 1, host = ''h'', port = 7\<rparr>,
        \<lparr>r_req_id = 3, r_limit_reached = False, r_min_id = 0, r_min_ts = 0, r_max_id = 2, r_max_ts = 0,
         r_records_bytes = 87, r_records_count = 3,
         r_records = map (\<lambda>k. \<lparr>key_id = k, timestamp = 0, content = CInt k\<rparr>) [0, 1, 2], r_recv_ts = None\<rparr>)])],
      rr_latency_ms = 4, rr_request_metrics = []\<rparr>"

theorem small_query_results_shown_whole_witness:
  "show_results (results_value demo_results) True 10 10 = ([JsonText (json_value (results_value demo_results))], Inr ())"
  by (rule small_query_results_shown_whole) (simp_all add: small_results_def demo_results_def)

text \<open>
  The listing of a query result is complete and in order: it counts the records of every node, and
  shows all of them when they are within the limit, else the first and the last ones; no cluster or node
  is left out, and no exception ends it. The two entries with statistics must not have the name of a
  cluster.
\<close>

theorem listing_shows_records_in_order:
  assumes "2 \<le> n" and "''_latency_ms'' \<notin> set (dict_keys (rr_clusters r))"
    and "''_request_metrics'' \<notin> set (dict_keys (rr_clusters r))"
  shows "snd (show_results (results_value r) False max_depth (int n)) = Inr () \<and>
    shown_counts (fst (show_results (results_value r) False max_depth (int n))) =
      concat (map (\<lambda>(_, es). map (\<lambda>(_, _, resp). length (r_records resp)) es) (rr_clusters r)) \<and>
    shown_records (fst (show_results (results_value r) False max_depth (int n))) =
      concat (map (\<lambda>(_, es). concat (map (\<lambda>(_, _, resp). both_ends n (map record_value (r_records resp))) es)) (rr_clusters r))"
proof -
  let ?cs = "map (\<lambda>(c, es). (KStr c, VList (map entry_value es))) (rr_clusters r)"
  let ?extra = "[(KStr ''_latency_ms'', VFloat (rr_latency_ms r)),
    (KStr ''_request_metrics'', VList (map metrics_value (rr_request_metrics r)))]"
  have fresh: "AList.update k v d = d @ [(k, v)]" if "k \<notin> set (dict_keys d)" for k :: pykey and v :: pyval and d
    using that by (induction d) auto
  have v: "results_value r = VDict (?cs @ ?extra)"
    using assms(2,3) unfolding results_value_def by (subst fresh, force)+ simp
  let ?show = "show_cluster (int n)"
  let ?file = "\<lambda>(c, es). (KStr c, VList (map entry_value es))"
  have "shows_ok (show_all (?show \<circ> ?file) (rr_clusters r))
      (concat (map (\<lambda>(_, es). map (\<lambda>(_, _, resp). length (r_records resp)) es) (rr_clusters r)))
      (concat (map (\<lambda>(_, es). concat (map (\<lambda>(_, _, resp). both_ends n (map record_value (r_records resp))) es)) (rr_clusters r)))"
    by (rule show_all_shows) (use show_cluster_shows [OF assms(1)] in \<open>auto simp del: shown_simps\<close>)
  moreover have "shows_ok (show_all ?show ?extra) [] []"
    by (simp add: shows_ok_def show_cluster_def metrics_lines)
  ultimately have "shows_ok (then_show (show_all (?show \<circ> ?file) (rr_clusters r)) (show_all ?show ?extra))
      (concat (map (\<lambda>(_, es). map (\<lambda>(_, _, resp). length (r_records resp)) es) (rr_clusters r)) @ [])
      (concat (map (\<lambda>(_, es). concat (map (\<lambda>(_, _, resp). both_ends n (map record_value (r_records resp))) es)) (rr_clusters r)) @ [])"
    by (rule then_show_shows)
  moreover have "show_results (results_value r) False max_depth (int n) =
      then_show (show_all (?show \<circ> ?file) (rr_clusters r)) (show_all ?show ?extra)"
    by (simp only: v show_results_def if_False pyval.case show_all_append show_all_map)
  ultimately show ?thesis by (simp only: shows_ok_def append_Nil2)
qed

theorem listing_shows_records_in_order_witness:
  "shown_records (fst (show_results (results_value demo_results) False 10 2)) =
     [record_value \<lparr>key_id = 0, timestamp = 0, content = CInt 0\<rparr>, record_value \<lparr>key_id = 2, timestamp = 0, content = CInt 2\<rparr>]"
  using listing_shows_records_in_order [of 2 demo_results 10]
  by (simp add: demo_results_def both_ends_def)

end
