(* ===== verification/Cli.thy ===== *)
theory Cli
  imports Cli_Show Write_Bench Py_Text
begin

text \<open>
  The interactive loop of \<open>cli.py\<close>: a line is split into words and read as a command, the command runs
  on the client, and every exception of it is printed. What the outside gives to a command (the clock,
  random draws, the metrics that arrive while it waits, the outcomes of futures) comes with its line.
\<close>

section \<open>Commands\<close>

text \<open>\<open>str.split()\<close>: the words between whitespace.\<close>

function split_ws :: "ptext \<Rightarrow> ptext list" where
  "split_ws [] = []"
| "split_ws (c # cs) =
     (if py_space c then split_ws cs
      else (c # takeWhile (Not \<circ> py_space) cs) # split_ws (dropWhile (Not \<circ> py_space) cs))"
  by pat_completeness auto
termination
  by (relation "measure length") (auto simp: less_Suc_eq_le length_dropWhile_le)

text \<open>\<open>str.upper()\<close> as far as ASCII letters come out of it: the letters, the sharp s, the dotless i, the
  long s and the ligatures. The upper case of any other character is not ASCII and in no command.\<close>

definition upper_char :: "nat \<Rightarrow> ptext" where
  "upper_char c =
     (if 97 \<le> c \<and> c \<le> 122 then [c - 32]
      else if c = 223 then lit ''SS'' else if c = 305 then lit ''I'' else if c = 383 then lit ''S''
      else if c = 64256 then lit ''FF'' else if c = 64257 then lit ''FI'' else if c = 64258 then lit ''FL''
      else if c = 64259 then lit ''FFI'' else if c = 64260 then lit ''FFL''
      else if c = 64261 \<or> c = 64262 then lit ''ST'' else [c])"

definition upper :: "ptext \<Rightarrow> ptext" where
  "upper t = concat (map upper_char t)"

datatype command =
    Blank | Usage string | Generate int ptext | Insert int int int | Query int int int int
  | Flush | Exit | Unknown ptext

definition parse_command :: "ptext \<Rightarrow> command res" where
  "parse_command line =
     (let user_input = strip line in
      if user_input = [] then Inr Blank
      else bind_res (py_index (split_ws user_input) 0) (\<lambda>word.
        let cmd = upper word; args = drop 1 (split_ws user_input) in
        if cmd = lit ''GENERATE'' then
          if length args < 1 then Inr (Usage ''GENERATE'')
          else bind_res (py_int (args ! 0)) (\<lambda>amount.
            Inr (Generate amount (if 1 < length args then args ! 1 else lit ''sequential'')))
        else if cmd = lit ''INSERT'' then
          if length args < 3 then Inr (Usage ''INSERT'')
          else bind_res (py_int (args ! 0)) (\<lambda>key. bind_res (py_int (args ! 1)) (\<lambda>ts.
            bind_res (py_int (args ! 2)) (\<lambda>c. Inr (Insert key ts c))))
        else if cmd = lit ''QUERY'' then
          if length args < 4 then Inr (Usage ''QUERY'')
          else bind_res (py_int (args ! 0)) (\<lambda>k. bind_res (py_int (args ! 1)) (\<lambda>t.
            bind_res (py_int (args ! 2)) (\<lambda>l. bind_res (py_int (args ! 3)) (\<lambda>u. Inr (Query k t l u)))))
        else if cmd = lit ''FLUSH'' then Inr Flush
        else if cmd = lit ''EXIT'' \<or> cmd = lit ''QUIT'' then Inr Exit
        else Inr (Unknown cmd)))"

lemmas parse_eval = parse_command_def lit_def py_space_def strip_def lstrip_def rstrip_def py_index_def
  upper_def upper_char_def py_int_def

text \<open>The distribution a word names; any other makes \<open>bulk_records\<close> raise.\<close>

definition dist_name :: "ptext \<Rightarrow> string" where
  "dist_name t = (case find (\<lambda>s. lit s = t) [''sequential'', ''uniform'', ''zipfian''] of
     None \<Rightarrow> '''' | Some s \<Rightarrow> s)"

section \<open>The state of a session\<close>

record cli_state =
  cs_client :: bench_state
  cs_net :: net
  cs_metrics :: "batch_metrics list"
  cs_running :: bool

text \<open>What the outside gives to one line: the milliseconds of the clock, random draws, the metrics of the
  batches acknowledged while the command waits, the outcomes of the futures of a \<open>flush\<close>, and the number
  and the completions of a read.\<close>

record line_env =
  le_now_ms :: int
  le_draws :: "nat \<Rightarrow> int"
  le_acks :: "batch_metrics list"
  le_flush :: "unit res list"
  le_req_id :: int
  le_pages :: "(nat \<times> page_outcome) list"

datatype cli_output =
    UsageLine string | ErrorLine exc | UnknownLine ptext | UseExit | Generating int | Sending nat
  | NoMetrics | Throughput int int | QueuedLine int int int | Listing "show_line list" | FlushedLine
  | Disconnecting | Goodbye

section \<open>\<open>write_sync\<close>\<close>

text \<open>Python's \<open>//\<close> on positive floats: the quotient of what is left after the exact remainder, taken to
  the next integer when rounding brought it close.\<close>

definition float_floordiv :: "rat \<Rightarrow> rat \<Rightarrow> int" where
  "float_floordiv vx wx =
     (let md = vx - wx * of_int \<lfloor>vx / wx\<rfloor>;
          q = rnd (rnd (vx - md) / wx)
      in if 1 / 2 < q - of_int \<lfloor>q\<rfloor> then \<lfloor>q\<rfloor> + 1 else \<lfloor>q\<rfloor>)"

definition sync_report :: "batch_metrics list \<Rightarrow> cli_output list" where
  "sync_report ms =
     (if ms = [] then [NoMetrics]
      else
        let total_records = (\<Sum>m \<leftarrow> ms. bm_record_count m);
            total_bytes = (\<Sum>m \<leftarrow> ms. bm_batch_bytes m);
            min_send_time = Min (set (map bm_send_time_ms ms));
            max_ack_time = Max (set (map bm_ack_recv_time_ms ms));
            total_time_sec = rnd (rnd (of_int (max_ack_time - min_send_time)) / 1000)
        in if 0 < total_time_sec
           then [Throughput (float_floordiv (rnd (of_int total_records)) total_time_sec)
                   (float_floordiv (rnd (of_int (total_bytes div 1024))) total_time_sec)]
           else [])"

text \<open>\<open>write_batch_cb\<close> of the command-line client keeps every metric for good.\<close>

definition append_metrics :: "batch_metrics list \<Rightarrow> batch_metrics \<Rightarrow> batch_metrics list" where
  "append_metrics batch_metrics_list m = batch_metrics_list @ [m]"

text \<open>What a command prints, whether it ends with an exception, and the state it leaves.\<close>

type_synonym ran = "cli_output list \<times> unit res \<times> cli_state"

definition write_sync ::
  "(byte list \<Rightarrow> byte list) \<Rightarrow> int \<Rightarrow> db_record list \<Rightarrow> line_env \<Rightarrow> cli_state \<Rightarrow> ran option" where
  "write_sync digest batch_size records env st =
     (case client_write digest batch_size records (cs_client st) of
        None \<Rightarrow> None
      | Some (Inl e, cl) \<Rightarrow> Some ([], Inl e, st\<lparr>cs_client := cl\<rparr>)
      | Some (Inr _, cl) \<Rightarrow>
          let metrics = foldl append_metrics (cs_metrics st) (le_acks env)
          in Some (sync_report metrics, Inr (), st\<lparr>cs_client := cl, cs_metrics := metrics\<rparr>))"

section \<open>Running a command\<close>

definition run_query ::
  "bool \<Rightarrow> query_request \<Rightarrow> line_env \<Rightarrow> cli_state \<Rightarrow> ran option" where
  "run_query verbose q env st =
     (case read_submit (bn_router (cs_client st)) q (le_req_id env) of
        (submitted, rt) \<Rightarrow>
          let st = st\<lparr>cs_client := (cs_client st)\<lparr>bn_router := rt\<rparr>\<rparr> in
          (case submitted of
             Inl e \<Rightarrow> Some ([], Inl e, st)
           | Inr ag \<Rightarrow>
               (case read_result q ag (le_pages env) of
                  None \<Rightarrow> None
                | Some (Inl e) \<Rightarrow> Some ([], Inl e, st)
                | Some (Inr results) \<Rightarrow>
                    (case show_results (results_value results) verbose 10 10 of (ls, out) \<Rightarrow>
                       Some ([Listing ls], out, st)))))"

definition run_flush :: "line_env \<Rightarrow> cli_state \<Rightarrow> ran" where
  "run_flush env st =
     (case flush_buffer (bn_buffer (cs_client st)) of (bs, buffer) \<Rightarrow>
        let cl = cs_client st; st = st\<lparr>cs_client := cl\<lparr>bn_sent := bn_sent cl @ bs, bn_buffer := buffer\<rparr>\<rparr> in
        (case await_flush (le_flush env) of
           Inl e \<Rightarrow> ([], Inl e, st)
         | Inr _ \<Rightarrow> ([FlushedLine], Inr (), st)))"

definition run_command ::
  "(byte list \<Rightarrow> byte list) \<Rightarrow> int \<Rightarrow> bool \<Rightarrow> line_env \<Rightarrow> command \<Rightarrow> cli_state \<Rightarrow> ran option" where
  "run_command digest batch_size verbose env c st =
     (case c of
        Blank \<Rightarrow> Some ([], Inr (), st)
      | Usage u \<Rightarrow> Some ([UsageLine u], Inr (), st)
      | Unknown w \<Rightarrow> Some ([UnknownLine w], Inr (), st)
      | Generate amount dist_word \<Rightarrow>
          (case bulk_records amount (dist_name dist_word) (le_now_ms env) (le_draws env) of
             Inl e \<Rightarrow> Some ([Generating amount], Inl e, st)
           | Inr records \<Rightarrow>
               map_option (\<lambda>(out, r, st'). ([Generating amount, Sending (length records)] @ out, r, st'))
                 (write_sync digest batch_size records env st))
      | Insert key ts c \<Rightarrow>
          (case client_write digest batch_size [\<lparr>key_id = key, timestamp = ts, content = CInt c\<rparr>] (cs_client st) of
             None \<Rightarrow> None
           | Some (Inl e, cl) \<Rightarrow> Some ([], Inl e, st\<lparr>cs_client := cl\<rparr>)
           | Some (Inr _, cl) \<Rightarrow> Some ([QueuedLine key ts c], Inr (), st\<lparr>cs_client := cl\<rparr>))
      | Query k t l u \<Rightarrow>
          run_query verbose \<lparr>min_id = k, min_ts = t, max_id = l, max_ts = u, query_id = 0\<rparr> env st
      | Flush \<Rightarrow> Some (run_flush env st)
      | Exit \<Rightarrow> Some ([Disconnecting, Goodbye], Inr (), st\<lparr>cs_net := disconnect (cs_net st), cs_running := False\<rparr>))"

section \<open>The loop\<close>

text \<open>What \<open>input\<close> gives: a line, the end of the input (\<open>EOFError\<close>) or an interrupt. Between the lines the
  threads of the client go on: leaders are set and cleared, batches acknowledged, and sockets taken from
  and returned to the pools.\<close>

datatype cli_event =
    Typed ptext line_env | EndOfInput | Interrupt
  | LeaderChange registry_op | Acked batch_metrics | Pools net

definition print_error :: "ran \<Rightarrow> cli_output list \<times> cli_state" where
  "print_error out = (case out of (ls, r, st) \<Rightarrow> (case r of Inl e \<Rightarrow> (ls @ [ErrorLine e], st) | Inr _ \<Rightarrow> (ls, st)))"

fun cli_step ::
  "(byte list \<Rightarrow> byte list) \<Rightarrow> int \<Rightarrow> bool \<Rightarrow> cli_event \<Rightarrow> cli_state \<Rightarrow> (cli_output list \<times> cli_state) option" where
  "cli_step digest batch_size verbose (Typed line env) st =
     (case parse_command line of
        Inl e \<Rightarrow> Some ([ErrorLine e], st)
      | Inr c \<Rightarrow> map_option print_error (run_command digest batch_size verbose env c st))"
| "cli_step digest batch_size verbose EndOfInput st = Some ([ErrorLine EOFError], st)"
| "cli_step digest batch_size verbose Interrupt st = Some ([UseExit], st)"
| "cli_step digest batch_size verbose (LeaderChange op) st =
     Some ([], st\<lparr>cs_client := (cs_client st)\<lparr>bn_router :=
       (bn_router (cs_client st))\<lparr>leaders := registry_step (leaders (bn_router (cs_client st))) op\<rparr>\<rparr>\<rparr>)"
| "cli_step digest batch_size verbose (Acked m) st = Some ([], st\<lparr>cs_metrics := append_metrics (cs_metrics st) m\<rparr>)"
| "cli_step digest batch_size verbose (Pools net) st = Some ([], st\<lparr>cs_net := net\<rparr>)"

text \<open>The loop runs until \<open>EXIT\<close>.\<close>

fun cli_loop ::
  "(byte list \<Rightarrow> byte list) \<Rightarrow> int \<Rightarrow> bool \<Rightarrow> cli_event list \<Rightarrow> cli_state \<Rightarrow> (cli_output list \<times> cli_state) option" where
  "cli_loop digest batch_size verbose [] st = Some ([], st)"
| "cli_loop digest batch_size verbose (ev # evs) st =
     (if cs_running st
      then (case cli_step digest batch_size verbose ev st of
              None \<Rightarrow> None
            | Some (out, st') \<Rightarrow>
                map_option (\<lambda>(outs, st''). (out @ outs, st'')) (cli_loop digest batch_size verbose evs st'))
      else Some ([], st))"

section \<open>A session as calls of the client\<close>

fun calls_of :: "cli_event \<Rightarrow> buffer_event list" where
  "calls_of (Typed line env) = (case parse_command line of
     Inr (Generate amount dist_word) \<Rightarrow>
       (case bulk_records amount (dist_name dist_word) (le_now_ms env) (le_draws env) of
          Inl e \<Rightarrow> [] | Inr records \<Rightarrow> [WriteCall records])
   | Inr (Insert key ts c) \<Rightarrow> [WriteCall [\<lparr>key_id = key, timestamp = ts, content = CInt c\<rparr>]]
   | Inr (Query k t l u) \<Rightarrow> [QueryCall \<lparr>min_id = k, min_ts = t, max_id = l, max_ts = u, query_id = 0\<rparr>]
   | Inr Flush \<Rightarrow> [FlushCall]
   | _ \<Rightarrow> [])"
| "calls_of (LeaderChange op) = [LeaderOp op]"
| "calls_of _ = []"

fun is_exit :: "cli_event \<Rightarrow> bool" where
  "is_exit (Typed line env) = (parse_command line = Inr Exit)"
| "is_exit _ = False"

fun session_calls :: "cli_event list \<Rightarrow> buffer_event list" where
  "session_calls [] = []"
| "session_calls (ev # evs) = (if is_exit ev then [] else calls_of ev @ session_calls evs)"

text \<open>The read a line submits ends, whatever nodes the router names.\<close>

fun read_ends :: "cli_event \<Rightarrow> bool" where
  "read_ends (Typed line env) = (case parse_command line of
     Inr (Query k t l u) \<Rightarrow>
       (\<forall>ns. read_result \<lparr>min_id = k, min_ts = t, max_id = l, max_ts = u, query_id = 0\<rparr>
          (read_start \<lparr>min_id = k, min_ts = t, max_id = l, max_ts = u, query_id = 0\<rparr> ns (le_req_id env))
          (le_pages env) \<noteq> None)
   | _ \<Rightarrow> True)"
| "read_ends _ = True"

abbreviation client_buffer :: "cli_state \<Rightarrow> buffer_state" where
  "client_buffer st \<equiv> (bn_router (cs_client st), bn_buffer (cs_client st))"

text \<open>One step of the loop is a run of its calls, and hands out what these hand out.\<close>

lemma client_write_call:
  assumes "buffer_step digest batch_size (bn_router cl, bn_buffer cl) (WriteCall rs) = Some (bs, b)"
  shows "\<exists>r cl'. client_write digest batch_size rs cl = Some (r, cl') \<and>
    bn_sent cl' = bn_sent cl @ bs \<and> (bn_router cl', bn_buffer cl') = b"
  using assms by (auto simp: client_write_def split: option.splits sum.splits)

lemma batcher_run_append:
  "batcher_run step taken_in s (es @ fs) = (case batcher_run step taken_in s es of None \<Rightarrow> None
     | Some (bs, ts, s') \<Rightarrow> map_option (\<lambda>(cs, us, s''). (bs @ cs, ts @ us, s'')) (batcher_run step taken_in s' fs))"
  by (induction es arbitrary: s) (auto simp: option.map_comp option.map_id o_def split: option.splits prod.splits intro!: option.map_cong)

lemma single_call:
  "buffer_step digest batch_size b ev = Some (bs, b') \<Longrightarrow>
   batcher_run (buffer_step digest batch_size) (accepted digest) b [ev] = Some (bs, accepted digest b ev, b')"
  by simp

lemma cli_step_calls:
  assumes "buffer_well batch_size (client_buffer st)" and "read_ends ev" and "cs_running st"
  shows "\<exists>out st' bs ts. cli_step digest batch_size verbose ev st = Some (out, st') \<and>
    batcher_run (buffer_step digest batch_size) (accepted digest) (client_buffer st) (calls_of ev) =
      Some (bs, ts, client_buffer st') \<and>
    bn_sent (cs_client st') = bn_sent (cs_client st) @ bs \<and> cs_running st' = (\<not> is_exit ev)"
proof (cases ev)
  case (Typed line env)
  show ?thesis
  proof (cases "parse_command line")
    case (Inl e)
    then show ?thesis using Typed assms(3) by simp
  next
    case (Inr c)
    have written: "\<exists>r cl bs. client_write digest batch_size rs (cs_client st) = Some (r, cl) \<and>
        buffer_step digest batch_size (client_buffer st) (WriteCall rs) = Some (bs, bn_router cl, bn_buffer cl) \<and>
        bn_sent cl = bn_sent (cs_client st) @ bs" for rs
      using wb.step_total [OF assms(1), of digest "WriteCall rs"] client_write_call by (metis prod.collapse)
    show ?thesis
    proof (cases c)
      case (Generate amount dist_word)
      show ?thesis
      proof (cases "bulk_records amount (dist_name dist_word) (le_now_ms env) (le_draws env)")
        case (Inr rs)
        from written [of rs] obtain r cl bs where w:
          "client_write digest batch_size rs (cs_client st) = Some (r, cl)"
          "buffer_step digest batch_size (client_buffer st) (WriteCall rs) = Some (bs, bn_router cl, bn_buffer cl)"
          "bn_sent cl = bn_sent (cs_client st) @ bs" by blast
        show ?thesis using w single_call [OF w(2)] Inr Generate Typed assms(3) \<open>parse_command line = Inr c\<close>
          by (cases r) (simp_all add: run_command_def write_sync_def print_error_def Let_def)
      qed (use Generate Typed assms(3) Inr in \<open>simp add: run_command_def print_error_def\<close>)
    next
      case (Insert key ts d)
      from written [of "[\<lparr>key_id = key, timestamp = ts, content = CInt d\<rparr>]"] obtain r cl bs where w:
        "client_write digest batch_size [\<lparr>key_id = key, timestamp = ts, content = CInt d\<rparr>] (cs_client st) = Some (r, cl)"
        "buffer_step digest batch_size (client_buffer st) (WriteCall [\<lparr>key_id = key, timestamp = ts, content = CInt d\<rparr>])
           = Some (bs, bn_router cl, bn_buffer cl)"
        "bn_sent cl = bn_sent (cs_client st) @ bs" by blast
      show ?thesis using w single_call [OF w(2)] Insert Typed assms(3) Inr
        by (cases r) (simp_all add: run_command_def print_error_def)
    next
      case (Query k t l u)
      let ?q = "\<lparr>min_id = k, min_ts = t, max_id = l, max_ts = u, query_id = 0\<rparr>"
      obtain ns rt where rt: "router_query (bn_router (cs_client st)) ?q = (ns, rt)" by force
      have "\<exists>res. read_result ?q (read_start ?q ms (le_req_id env)) (le_pages env) = Some res" for ms
        using assms(2) Typed Inr Query by auto
      then obtain res where res: "\<And>ms. read_result ?q (read_start ?q ms (le_req_id env)) (le_pages env) = Some (res ms)"
        by metis
      show ?thesis
      proof (cases ns)
        case (Inr ms)
        then show ?thesis using rt res [of ms] Query Typed assms(3) \<open>parse_command line = Inr c\<close>
          by (cases "res ms") (auto simp: run_command_def run_query_def read_submit_def print_error_def split: prod.splits sum.splits)
      qed (use rt Query Typed assms(3) Inr in \<open>simp add: run_command_def run_query_def read_submit_def print_error_def\<close>)
    next
      case Flush
      obtain bs buffer where "flush_buffer (bn_buffer (cs_client st)) = (bs, buffer)" by force
      then show ?thesis using Flush Typed assms(3) Inr
        by (cases "await_flush (le_flush env)") (simp_all add: run_command_def run_flush_def print_error_def Let_def)
    qed (use Typed assms(3) Inr in \<open>simp_all add: run_command_def print_error_def\<close>)
  qed
qed (use assms(3) in simp_all)

lemma cli_loop_calls:
  assumes "buffer_well batch_size (client_buffer st)" and "list_all read_ends evs" and "cs_running st"
  shows "\<exists>outs st' bs ts. cli_loop digest batch_size verbose evs st = Some (outs, st') \<and>
    batcher_run (buffer_step digest batch_size) (accepted digest) (client_buffer st) (session_calls evs) =
      Some (bs, ts, client_buffer st') \<and>
    bn_sent (cs_client st') = bn_sent (cs_client st) @ bs \<and> cs_running st' = (\<forall>ev \<in> set evs. \<not> is_exit ev)"
  using assms
proof (induction evs arbitrary: st)
  case (Cons ev evs)
  from Cons.prems cli_step_calls [of batch_size st ev digest verbose] obtain out st1 bs ts where s:
    "cli_step digest batch_size verbose ev st = Some (out, st1)"
    "batcher_run (buffer_step digest batch_size) (accepted digest) (client_buffer st) (calls_of ev) =
      Some (bs, ts, client_buffer st1)"
    "bn_sent (cs_client st1) = bn_sent (cs_client st) @ bs" "cs_running st1 = (\<not> is_exit ev)" by auto
  show ?case
  proof (cases "is_exit ev")
    case True
    then have "calls_of ev = []" by (cases ev) simp_all
    moreover have "cli_loop digest batch_size verbose evs st1 = Some ([], st1)" using s(4) True by (cases evs) simp_all
    ultimately show ?thesis using s True Cons.prems(3) by simp
  next
    case False
    have w: "buffer_well batch_size (client_buffer st1)"
      using wb.run_conserves [OF Cons.prems(1), of digest "calls_of ev"] s(2) by auto
    have more: "list_all read_ends evs" "cs_running st1" using Cons.prems(2) s(4) False by simp_all
    from Cons.IH [OF w more] obtain outs st2 cs us where
      "cli_loop digest batch_size verbose evs st1 = Some (outs, st2)"
      "batcher_run (buffer_step digest batch_size) (accepted digest) (client_buffer st1) (session_calls evs) =
        Some (cs, us, client_buffer st2)"
      "bn_sent (cs_client st2) = bn_sent (cs_client st1) @ cs" "cs_running st2 = (\<forall>ev \<in> set evs. \<not> is_exit ev)" by blast
    then show ?thesis using s False Cons.prems(3) by (simp add: batcher_run_append)
  qed
qed simp

section \<open>Reading words back\<close>

lemma split_ws_space: "\<forall>c \<in> set s. py_space c \<Longrightarrow> split_ws (s @ t) = split_ws t"
  by (induction s) simp_all

text \<open>A word, and text that begins with a space or is empty.\<close>

definition plain_word :: "ptext \<Rightarrow> bool" where
  "plain_word w \<longleftrightarrow> w \<noteq> [] \<and> (\<forall>c \<in> set w. \<not> py_space c)"

definition gap :: "ptext \<Rightarrow> bool" where
  "gap s \<longleftrightarrow> s \<noteq> [] \<and> (\<forall>c \<in> set s. py_space c)"

lemma split_ws_word:
  assumes "plain_word w" and "t = [] \<or> py_space (hd t)"
  shows "split_ws (w @ t) = w # split_ws t"
proof -
  obtain c cs where w: "w = c # cs" "\<not> py_space c" "\<forall>c \<in> set cs. \<not> py_space c"
    using assms(1) by (cases w) (auto simp: plain_word_def)
  have "takeWhile (Not \<circ> py_space) (cs @ t) = cs" "dropWhile (Not \<circ> py_space) (cs @ t) = t"
    using w(3) assms(2) by (cases t; simp add: takeWhile_append2 dropWhile_append2)+
  then show ?thesis using w(1,2) by simp
qed

lemma split_ws_words:
  assumes "list_all (\<lambda>(s, w). gap s \<and> plain_word w) ps" and "\<forall>c \<in> set tail. py_space c"
  shows "split_ws (concat (map (\<lambda>(s, w). s @ w) ps) @ tail) = map snd ps"
  using assms(1)
proof (induction ps)
  case Nil
  then show ?case using split_ws_space [OF assms(2), of "[]"] by simp
next
  case (Cons p ps)
  obtain s w where p: "p = (s, w)" "gap s" "plain_word w" using Cons.prems by (cases p) auto
  let ?rest = "concat (map (\<lambda>(s, w). s @ w) ps) @ tail"
  have "?rest = [] \<or> py_space (hd ?rest)"
    using Cons.prems assms(2) by (cases ps; cases tail) (auto simp: gap_def split: prod.splits)
  then have "split_ws (w @ ?rest) = w # map snd ps" using split_ws_word [OF p(3)] Cons by simp
  then show ?case using split_ws_space [of s "w @ ?rest"] p by (simp add: gap_def)
qed

lemma int_word: "plain_word (lit (show_int i))"
proof -
  have "\<not> py_space c" if "c \<in> set (lit (digits_of n))" for c n
    using digits_of_digit [OF that] digit_not_space by blast
  moreover have "\<not> py_space 45" by (simp add: py_space_def)
  moreover have "lit (digits_of n) \<noteq> []" for n using digits_of_nonempty by (simp add: lit_def)
  ultimately show ?thesis by (auto simp: plain_word_def show_int_def lit_def)
qed

lemma py_int_show: "py_int (lit (show_int i)) = Inr i"
proof (cases "i < 0")
  case True
  have "strip (lit (show_int i)) = lit (show_int i)"
    using int_word [of i] strip_word by (simp add: plain_word_def)
  moreover have "lit (show_int i) = 45 # lit (digits_of (nat (- i)))"
    using True by (simp add: show_int_def lit_def)
  moreover have "digits_val (lit (digits_of (nat (- i)))) 0 True = Some (- i)"
    using digits_val_append [of "nat (- i)" "[]"] True by simp
  ultimately show ?thesis by (simp add: py_int_def)
next
  case False
  then show ?thesis using py_int_digits [of "nat i"] by (simp add: show_int_def)
qed

lemma strip_body:
  assumes "b \<noteq> []" and "\<not> py_space (hd b)" and "\<not> py_space (last b)"
    and "\<forall>c \<in> set lead. py_space c" and "\<forall>c \<in> set trail. py_space c"
  shows "strip (lead @ b @ trail) = b"
proof -
  have "lstrip (lead @ b @ trail) = b @ trail"
    using assms(1,2,4) by (cases b) (simp_all add: lstrip_def dropWhile_append2)
  moreover have "rstrip trail = []" using assms(5) by (simp add: rstrip_def)
  moreover have "rstrip b = b" using rstrip_snoc_keep [OF assms(3), of "butlast b"] assms(1) by simp
  ultimately show ?thesis by (simp add: strip_def rstrip_append)
qed

text \<open>Upper case keeps the spaces of a word.\<close>

lemma upper_plain:
  assumes "plain_word (upper w)"
  shows "plain_word w"
proof -
  have "upper_char c = [c]" if "py_space c" for c
    using that unfolding py_space_def upper_char_def by (elim disjE conjE) simp_all
  then show ?thesis using assms by (fastforce simp: plain_word_def upper_def)
qed

text \<open>A line of a word and arguments, with any spaces around and between them.\<close>

lemma parse_words:
  assumes "plain_word w" and "list_all (\<lambda>(s, v). gap s \<and> plain_word v) ps"
    and "\<forall>c \<in> set lead. py_space c" and "\<forall>c \<in> set trail. py_space c"
  defines "b \<equiv> w @ concat (map (\<lambda>(s, v). s @ v) ps)"
  shows "strip (lead @ b @ trail) = b" and "b \<noteq> []" and "split_ws b = w # map snd ps"
proof -
  show ne: "b \<noteq> []" using assms(1) by (simp add: b_def plain_word_def)
  have l: "\<not> py_space (last (w @ concat (map (\<lambda>(s, v). s @ v) ps)))"
    using assms(2)
  proof (induction ps rule: rev_induct)
    case Nil
    then show ?case using assms(1) by (simp add: plain_word_def)
  next
    case (snoc p ps)
    then show ?case by (cases p) (auto simp: plain_word_def)
  qed
  have h: "\<not> py_space (hd b)" using assms(1) by (simp add: b_def plain_word_def)
  show "strip (lead @ b @ trail) = b" by (rule strip_body [OF ne h l [folded b_def] assms(3,4)])
  have "concat (map (\<lambda>(s, v). s @ v) ps) = [] \<or> py_space (hd (concat (map (\<lambda>(s, v). s @ v) ps)))"
    using assms(2) by (cases ps) (auto simp: gap_def)
  then show "split_ws b = w # map snd ps"
    unfolding b_def using split_ws_word [OF assms(1)] split_ws_words [OF assms(2), of "[]"] by simp
qed

lemma lit_neq:
  "lit ''INSERT'' \<noteq> lit ''GENERATE''" "lit ''QUERY'' \<noteq> lit ''GENERATE''" "lit ''QUERY'' \<noteq> lit ''INSERT''"
  by (simp_all add: lit_def)

lemma parse_insert:
  assumes "strip line = b" and "b \<noteq> []" and "split_ws b = [w, x, y, z]" and "upper w = lit ''INSERT''"
  shows "parse_command line = bind_res (py_int x) (\<lambda>key. bind_res (py_int y) (\<lambda>ts.
    bind_res (py_int z) (\<lambda>c. Inr (Insert key ts c))))"
  using assms by (simp add: parse_command_def py_index_def lit_neq Let_def)

lemma parse_query:
  assumes "strip line = b" and "b \<noteq> []" and "split_ws b = [w, x, y, z, v]" and "upper w = lit ''QUERY''"
  shows "parse_command line = bind_res (py_int x) (\<lambda>k. bind_res (py_int y) (\<lambda>t.
    bind_res (py_int z) (\<lambda>l. bind_res (py_int v) (\<lambda>u. Inr (Query k t l u)))))"
  using assms by (simp add: parse_command_def py_index_def lit_neq Let_def)

section \<open>Properties\<close>


definition calm_line :: line_env where
  "calm_line = \<lparr>le_now_ms = 7, le_draws = (\<lambda>_. 0), le_acks = [], le_flush = [], le_req_id = 1, le_pages = [(0, Inl TimeoutError)]\<rparr>"


text \<open>
  C35. A command line reads back, whatever spaces surround and separate its words and in whatever case
  the command is written: the decimal texts of any integers, negative ones included, give an \<open>INSERT\<close> of
  just these values, and likewise a \<open>QUERY\<close>.
\<close>

theorem typed_command_reads_back:
  assumes "\<forall>c \<in> set lead. py_space c" and "\<forall>c \<in> set trail. py_space c"
    and "gap s1" and "gap s2" and "gap s3" and "gap s4"
  shows "(upper w = lit ''INSERT'' \<longrightarrow>
      parse_command (lead @ (w @ s1 @ lit (show_int k) @ s2 @ lit (show_int t) @ s3 @ lit (show_int c)) @ trail) =
      Inr (Insert k t c)) \<and>
    (upper w = lit ''QUERY'' \<longrightarrow>
      parse_command (lead @ (w @ s1 @ lit (show_int k) @ s2 @ lit (show_int t) @ s3 @ lit (show_int l) @
        s4 @ lit (show_int u)) @ trail) = Inr (Query k t l u))"
proof (intro conjI impI)
  have three: "list_all (\<lambda>(s, v). gap s \<and> plain_word v) [(s1, lit (show_int k)), (s2, lit (show_int t)), (s3, lit (show_int c))]"
    using assms(3-5) by (simp add: int_word)
  assume u: "upper w = lit ''INSERT''"
  have "plain_word (upper w)" unfolding u by (simp add: plain_word_def lit_def py_space_def)
  note words = parse_words [OF upper_plain [OF this] three assms(1,2)]
  show "parse_command (lead @ (w @ s1 @ lit (show_int k) @ s2 @ lit (show_int t) @ s3 @ lit (show_int c)) @ trail) =
      Inr (Insert k t c)"
    using parse_insert [OF _ words(2) _ u, of _ "lit (show_int k)" "lit (show_int t)" "lit (show_int c)"] words(1,3)
    by (simp add: py_int_show)
next
  have four: "list_all (\<lambda>(s, v). gap s \<and> plain_word v)
      [(s1, lit (show_int k)), (s2, lit (show_int t)), (s3, lit (show_int l)), (s4, lit (show_int u))]"
    using assms(3-6) by (simp add: int_word)
  assume q: "upper w = lit ''QUERY''"
  have "plain_word (upper w)" unfolding q by (simp add: plain_word_def lit_def py_space_def)
  note words = parse_words [OF upper_plain [OF this] four assms(1,2)]
  show "parse_command (lead @ (w @ s1 @ lit (show_int k) @ s2 @ lit (show_int t) @ s3 @ lit (show_int l) @
        s4 @ lit (show_int u)) @ trail) = Inr (Query k t l u)"
    using parse_query [OF _ words(2) _ q, of _ "lit (show_int k)" "lit (show_int t)" "lit (show_int l)" "lit (show_int u)"]
      words(1,3) by (simp add: py_int_show)
qed

theorem typed_command_reads_back_witness:
  "parse_command (lit ''insert -4 0  9 '') = Inr (Insert (- 4) 0 9)"
proof -
  have "upper (lit ''insert'') = lit ''INSERT''" by (simp add: upper_def upper_char_def lit_def)
  moreover have "gap [32]" "gap [32, 32]" "\<forall>c \<in> set [32]. py_space c" by (simp_all add: gap_def py_space_def)
  moreover have "lit ''insert -4 0  9 '' = [] @ (lit ''insert'' @ [32] @ lit (show_int (- 4)) @ [32] @
      lit (show_int 0) @ [32, 32] @ lit (show_int 9)) @ [32]"
    by (simp add: lit_def show_int_def digits_of.simps)
  ultimately show ?thesis
    using typed_command_reads_back [of "[]" "[32]" "[32]" "[32]" "[32, 32]" "[32]" "lit ''insert''" "- 4" 0 9 0 0] by simp
qed

text \<open>
  At the end of the input the loop does not stop: it prints the same error for every further
  attempt to read, for ever, and never disconnects.
\<close>

theorem end_of_input_never_stops:
  assumes "cs_running st"
  shows "cli_loop digest batch_size verbose (replicate n EndOfInput) st = Some (replicate n (ErrorLine EOFError), st)"
  using assms by (induction n) simp_all

theorem end_of_input_never_stops_witness:
  "cli_loop (\<lambda>_. []) 2 False (replicate 3 EndOfInput)
      \<lparr>cs_client = \<lparr>bn_sent = [], bn_router = demo_router, bn_buffer = []\<rparr>, cs_net = empty_net, cs_metrics = [],
       cs_running = True\<rparr> =
    Some (replicate 3 (ErrorLine EOFError),
      \<lparr>cs_client = \<lparr>bn_sent = [], bn_router = demo_router, bn_buffer = []\<rparr>, cs_net = empty_net, cs_metrics = [],
       cs_running = True\<rparr>)"
  by (rule end_of_input_never_stops) simp

text \<open>
  C36. A record that was inserted and acknowledged as queued is lost by \<open>EXIT\<close>: with room in the batch of
  its node, the line is answered with the record queued, and after the disconnection no batch was handed
  out and the record still waits in the buffer of a client that is gone.
\<close>

theorem exit_loses_queued_records:
  assumes "parse_command l1 = Inr (Insert k t c)" and "parse_command l2 = Inr Exit"
    and "routable rt" and "strategy_accepts (strategy rt) \<lparr>key_id = k, timestamp = t, content = CInt c\<rparr>"
    and "1 < batch_size"
  shows "\<exists>st' n. cli_loop digest batch_size verbose (Typed l1 e1 # Typed l2 e2 # evs)
      \<lparr>cs_client = \<lparr>bn_sent = [], bn_router = rt, bn_buffer = []\<rparr>, cs_net = net, cs_metrics = [], cs_running = True\<rparr> =
      Some ([QueuedLine k t c, Disconnecting, Goodbye], st') \<and>
    bn_sent (cs_client st') = [] \<and> \<not> cs_running st' \<and>
    pending (bn_buffer (cs_client st')) (Some n) = [\<lparr>key_id = k, timestamp = t, content = CInt c\<rparr>]"
proof -
  let ?r = "\<lparr>key_id = k, timestamp = t, content = CInt c\<rparr>"
  have "list_all (strategy_accepts (strategy rt)) [?r]" using assms(4) by simp
  from route_trace_total [OF assms(3) this, of digest] obtain u rt' where
    u: "route_trace digest rt [?r] = (Inr u, rt')" "\<forall>p \<in> set u. fst p \<noteq> None" by blast
  from route_trace_records [OF u(1)] u(2) obtain n where n: "u = [(Some n, ?r)]" by auto
  have pos: "0 < batch_size" using assms(5) by simp
  from write_records_spec [OF pos u(1), of "[]"] obtain buffer bs where
    w: "write_records digest batch_size [?r] rt [] = Some (Inr bs, rt', buffer)"
    and c: "\<forall>j. batches_of bs j @ pending buffer j = routed_to u j"
    and l: "\<forall>b \<in> set bs. int (length (snd b)) = batch_size" by auto
  have "bs = []"
  proof (rule ccontr)
    assume "bs \<noteq> []"
    then obtain b where b: "b \<in> set bs" by (cases bs) auto
    then have "length (snd b) \<le> length (batches_of bs (fst b))"
      by (induction bs) auto
    also have "\<dots> \<le> length (routed_to u (fst b))" using c by (metis length_append le_add1)
    also have "\<dots> \<le> 1" by (simp add: n)
    finally show False using l b assms(5) by auto
  qed
  moreover from this c have "pending buffer (Some n) = [?r]" by (simp add: n)
  moreover have "cli_loop digest batch_size verbose evs
      \<lparr>cs_client = cl, cs_net = net', cs_metrics = ms, cs_running = False\<rparr> =
      Some ([], \<lparr>cs_client = cl, cs_net = net', cs_metrics = ms, cs_running = False\<rparr>)" for cl net' ms
    by (cases evs) simp_all
  ultimately show ?thesis using assms(1,2) w
    by (simp add: run_command_def client_write_def print_error_def) (rule exI [of _ n], simp)
qed

theorem exit_loses_queued_records_witness:
  "\<exists>st'. cli_loop (\<lambda>_. []) 2 False [Typed (lit ''insert 4 0 9'') calm_line, Typed (lit ''exit'') calm_line]
      \<lparr>cs_client = \<lparr>bn_sent = [], bn_router = demo_router, bn_buffer = []\<rparr>, cs_net = empty_net, cs_metrics = [],
       cs_running = True\<rparr> = Some ([QueuedLine 4 0 9, Disconnecting, Goodbye], st') \<and> bn_sent (cs_client st') = []"
proof -
  have p: "parse_command (lit ''insert 4 0 9'') = Inr (Insert 4 0 9)" "parse_command (lit ''exit'') = Inr Exit"
    by (simp_all add: parse_eval)
  have a: "strategy_accepts (strategy demo_router) \<lparr>key_id = 4, timestamp = 0, content = CInt 9\<rparr>"
    by (simp add: demo_router_def update_topology_def new_router_def)
  have "(1 :: int) < 2" by simp
  from exit_loses_queued_records [OF p demo_router_routable a this] show ?thesis by blast
qed

end
