(* ===== verification/Bench_Metrics.thy ===== *)
theory Bench_Metrics
  imports Db_Datatypes
begin

text \<open>
  The metrics the write benchmark keeps of acknowledged batches (\<open>write_batch_cb\<close> of
  \<open>write-bench.py\<close>), and the window of time from the first request to the last answer, which the
  read benchmark keeps the same way. A callback runs under a lock, so that callbacks happen one after
  the other, in any order.
\<close>

section \<open>The window of time\<close>

text \<open>A first time of 0 stands for none yet.\<close>

definition earlier :: "'a::{zero, linorder} \<Rightarrow> 'a \<Rightarrow> 'a" where
  "earlier first_time t = (if first_time = 0 \<or> t < first_time then t else first_time)"

definition later :: "'a::linorder \<Rightarrow> 'a \<Rightarrow> 'a" where
  "later last_time t = (if last_time < t then t else last_time)"

lemma earlier_fold:
  assumes "\<forall>t \<in> set ts. 0 < t" and "0 \<le> (a :: 'a::{zero, linorder})"
  shows "foldl earlier a ts = (if set ts = {} then a else if a = 0 then Min (set ts) else Min (insert a (set ts)))"
  using assms
proof (induction ts arbitrary: a)
  case (Cons t ts)
  have e: "earlier a t = (if a = 0 then t else min a t)" by (auto simp: earlier_def min_def)
  have "0 < earlier a t" using Cons.prems by (auto simp: e)
  then have "foldl earlier (earlier a t) ts = (if ts = [] then earlier a t else Min (insert (earlier a t) (set ts)))"
    using Cons.IH [of "earlier a t"] Cons.prems by auto
  then show ?case by (cases "ts = []") (simp_all add: e min.assoc)
qed simp

lemma later_fold: "foldl later (a :: 'a::linorder) ts = Max (insert a (set ts))"
proof (induction ts arbitrary: a)
  case (Cons t ts)
  have "later a t = max a t" by (auto simp: later_def max_def)
  then show ?case using Cons.IH [of "later a t"] by (cases "ts = []") (simp_all add: max.assoc)
qed simp

text \<open>Over times past 0, what is left is the first and the last time.\<close>

lemma earlier_fold_Min:
  "\<forall>t \<in> set ts. 0 < t \<Longrightarrow> ts \<noteq> [] \<Longrightarrow> foldl earlier (0 :: 'a::{zero, linorder}) ts = Min (set ts)"
  using earlier_fold [of ts 0] by simp

lemma later_fold_Max:
  assumes "\<forall>t \<in> set ts. 0 < t" and "ts \<noteq> []"
  shows "foldl later (0 :: 'a::{zero, linorder}) ts = Max (set ts)"
proof -
  obtain t where "t \<in> set ts" using assms(2) by (cases ts) auto
  then have "0 < t" "t \<le> Max (set ts)" using assms(1) by auto
  then have "0 \<le> Max (set ts)" by (metis less_le_trans less_imp_le)
  then show ?thesis using assms(2) by (simp add: later_fold max_def)
qed

section \<open>The callback of the write benchmark\<close>

record write_totals =
  wt_records :: int
  wt_bytes :: int
  wt_first :: int
  wt_last :: int

definition new_write_totals :: write_totals where
  "new_write_totals = \<lparr>wt_records = 0, wt_bytes = 0, wt_first = 0, wt_last = 0\<rparr>"

definition write_batch_cb :: "write_totals \<Rightarrow> batch_metrics \<Rightarrow> write_totals" where
  "write_batch_cb t m =
     \<lparr>wt_records = wt_records t + bm_record_count m, wt_bytes = wt_bytes t + bm_batch_bytes m,
      wt_first = earlier (wt_first t) (bm_send_time_ms m), wt_last = later (wt_last t) (bm_ack_recv_time_ms m)\<rparr>"

lemma write_totals_fields:
  "foldl write_batch_cb t ms =
     \<lparr>wt_records = wt_records t + (\<Sum>m \<leftarrow> ms. bm_record_count m), wt_bytes = wt_bytes t + (\<Sum>m \<leftarrow> ms. bm_batch_bytes m),
      wt_first = foldl earlier (wt_first t) (map bm_send_time_ms ms),
      wt_last = foldl later (wt_last t) (map bm_ack_recv_time_ms ms)\<rparr>"
  by (induction ms arbitrary: t) (simp_all add: write_batch_cb_def)

text \<open>
  Whatever the order in which batches are acknowledged, the write benchmark counts the same: the
  sums of their records and bytes, and the window from the first transmission to the last
  acknowledgement, as long as the clock is past 0.
\<close>

theorem write_totals_ignore_order:
  assumes "mset ms = mset ms'" and "ms \<noteq> []"
    and "\<forall>m \<in> set ms. 0 < bm_send_time_ms m \<and> 0 < bm_ack_recv_time_ms m"
  shows "foldl write_batch_cb new_write_totals ms' =
    \<lparr>wt_records = (\<Sum>m \<leftarrow> ms. bm_record_count m), wt_bytes = (\<Sum>m \<leftarrow> ms. bm_batch_bytes m),
     wt_first = Min (bm_send_time_ms ` set ms), wt_last = Max (bm_ack_recv_time_ms ` set ms)\<rparr>"
proof -
  have s: "set ms' = set ms" using assms(1) by (metis set_mset_mset)
  have ne: "ms' \<noteq> []" using assms(1,2) by auto
  have sums: "sum_list (map f ms') = sum_list (map f ms)" for f :: "_ \<Rightarrow> int"
    using assms(1) by (metis mset_map sum_mset_sum_list)
  have "foldl earlier 0 (map bm_send_time_ms ms') = Min (bm_send_time_ms ` set ms)"
    using earlier_fold_Min [of "map bm_send_time_ms ms'"] ne assms(3) s by simp
  moreover have "foldl later 0 (map bm_ack_recv_time_ms ms') = Max (bm_ack_recv_time_ms ` set ms)"
    using later_fold_Max [of "map bm_ack_recv_time_ms ms'"] ne assms(3) s by simp
  ultimately show ?thesis by (simp add: write_totals_fields new_write_totals_def sums)
qed

theorem write_totals_ignore_order_witness:
  "foldl write_batch_cb new_write_totals
     [\<lparr>bm_send_time_ms = 7, bm_ack_recv_time_ms = 9, bm_record_count = 2, bm_batch_bytes = 58\<rparr>,
      \<lparr>bm_send_time_ms = 5, bm_ack_recv_time_ms = 8, bm_record_count = 3, bm_batch_bytes = 87\<rparr>] =
   \<lparr>wt_records = 5, wt_bytes = 145, wt_first = 5, wt_last = 9\<rparr>"
  using write_totals_ignore_order
    [of "[\<lparr>bm_send_time_ms = 5, bm_ack_recv_time_ms = 8, bm_record_count = 3, bm_batch_bytes = 87\<rparr>,
          \<lparr>bm_send_time_ms = 7, bm_ack_recv_time_ms = 9, bm_record_count = 2, bm_batch_bytes = 58\<rparr>]"
        "[\<lparr>bm_send_time_ms = 7, bm_ack_recv_time_ms = 9, bm_record_count = 2, bm_batch_bytes = 58\<rparr>,
          \<lparr>bm_send_time_ms = 5, bm_ack_recv_time_ms = 8, bm_record_count = 3, bm_batch_bytes = 87\<rparr>]"]
  by (simp add: add_mset_commute)

end
