(* ===== verification/Read_Bench.thy ===== *)
theory Read_Bench
  imports Read_Batch Streams Bench_Metrics
begin

text \<open>
  \<open>read_benchmark.py\<close>: the loop that sends a stream of queries in batches, the callback that adds up the
  metrics of completed batches under a lock, and the latency statistics of the end. Every
  floating-point operation is rounded with \<open>rnd\<close>; what is printed and dumped is in Bench_Output.
\<close>

section \<open>Percentiles\<close>

definition calculate_percentile :: "rat list \<Rightarrow> rat \<Rightarrow> rat res" where
  "calculate_percentile sorted_samples percentile =
     (let cnt = length sorted_samples in
      if cnt = 0 then Inr 0
      else if 100 \<le> percentile then py_index sorted_samples (- 1)
      else if percentile \<le> 0 then py_index sorted_samples 0
      else
        let index = rnd (rnd (percentile / 100) * rnd (of_int (int cnt - 1)));
            lower = \<lfloor>index\<rfloor>;
            upper = (if int cnt \<le> lower + 1 then lower else lower + 1);
            weight = rnd (index - of_int lower)
        in bind_res (py_index sorted_samples lower) (\<lambda>a. bind_res (py_index sorted_samples upper) (\<lambda>b.
             Inr (rnd (rnd (rnd (1 - weight) * a) + rnd (weight * b))))))"

section \<open>Metrics of completed batches\<close>

text \<open>The global counters, guarded by one lock.\<close>

record read_totals =
  rd_queries :: int
  rd_records :: int
  rd_bytes :: int
  rd_first :: rat
  rd_last :: rat
  rd_requests :: "read_request_metrics list"

definition new_read_totals :: read_totals where
  "new_read_totals = \<lparr>rd_queries = 0, rd_records = 0, rd_bytes = 0, rd_first = 0, rd_last = 0, rd_requests = []\<rparr>"

definition unique_id :: "int \<Rightarrow> int \<Rightarrow> int" where
  "unique_id pid i = pid * 100000000 + i"

definition count_request :: "int \<Rightarrow> read_totals \<Rightarrow> read_request_metrics \<Rightarrow> read_totals" where
  "count_request pid t m =
     t\<lparr>rd_requests := rd_requests t @ [m\<lparr>rm_query_id := unique_id pid (rm_query_id m),
                                         rm_req_id := unique_id pid (rm_req_id m)\<rparr>],
       rd_records := rd_records t + rm_record_count m,
       rd_bytes := rd_bytes t + rm_records_bytes m,
       rd_first := earlier (rd_first t) (rm_send_time_ms m),
       rd_last := later (rd_last t) (rm_recv_time_ms m)\<rparr>"

text \<open>The callback of one future: its result, or the exception it raised, which is only printed.\<close>

definition update_read_metrics ::
  "int \<Rightarrow> read_totals \<Rightarrow> int \<times> read_request_metrics list res \<Rightarrow> read_totals" where
  "update_read_metrics pid t ev = (case ev of (num_queries, outcome) \<Rightarrow>
     case outcome of
       Inl e \<Rightarrow> t
     | Inr req_metrics \<Rightarrow>
         foldl (count_request pid) (t\<lparr>rd_queries := rd_queries t + num_queries\<rparr>) req_metrics)"

section \<open>The loop of the benchmark\<close>

text \<open>The batches handed to \<open>read_batch\<close>: a full buffer is sent and replaced, the rest is sent at the
  end.\<close>

fun feed_queries :: "int \<Rightarrow> query_request list \<Rightarrow> query_request list \<Rightarrow> query_request list list" where
  "feed_queries batch_size batch_buffer [] = (if batch_buffer = [] then [] else [batch_buffer])"
| "feed_queries batch_size batch_buffer (query # stream) =
     (let batch_buffer = batch_buffer @ [query] in
      if batch_size \<le> int (length batch_buffer)
      then batch_buffer # feed_queries batch_size [] stream
      else feed_queries batch_size batch_buffer stream)"

section \<open>Latency per query\<close>

text \<open>The requests filed by query and then by request, each key in the order of its first request.\<close>

definition file_request ::
  "(int, (int, read_request_metrics list) dict) dict \<Rightarrow> read_request_metrics \<Rightarrow>
     (int, (int, read_request_metrics list) dict) dict" where
  "file_request d req =
     (let by_rid = dict_get_default d (rm_query_id req) [];
          reqs = dict_get_default by_rid (rm_req_id req) []
      in AList.update (rm_query_id req) (AList.update (rm_req_id req) (reqs @ [req]) by_rid) d)"

definition group_requests :: "read_request_metrics list \<Rightarrow> (int, (int, read_request_metrics list) dict) dict" where
  "group_requests reqs = foldl file_request [] reqs"

definition request_latency :: "read_request_metrics \<Rightarrow> rat" where
  "request_latency req = rnd (rm_recv_time_ms req - rm_send_time_ms req)"

text \<open>A request seen several times counts with its slowest answer; the requests of a query are its
  pages, one after the other.\<close>

definition query_latency :: "(int, read_request_metrics list) dict \<Rightarrow> rat" where
  "query_latency by_rid =
     foldl (\<lambda>l (r_id, req_list). rnd (l + Max (set (map request_latency req_list)))) 0 by_rid"

definition query_latencies :: "read_request_metrics list \<Rightarrow> rat list" where
  "query_latencies reqs = sort (map (query_latency \<circ> snd) (group_requests reqs))"

definition total_time_sec :: "read_totals \<Rightarrow> rat" where
  "total_time_sec t = (if rd_first t < rd_last t then rnd (rnd (rd_last t - rd_first t) / 1000) else 0)"

text \<open>The statistics printed at the end, when the window of time is not empty.\<close>

record read_summary =
  rs_total_time_sec :: rat
  rs_distinct_queries :: nat
  rs_distinct_requests :: nat
  rs_requests_sent :: nat
  rs_records_read :: int
  rs_qps :: rat
  rs_p50 :: rat
  rs_p95 :: rat

definition read_summary_of :: "read_totals \<Rightarrow> read_summary option res" where
  "read_summary_of t =
     (if 0 < total_time_sec t
      then let reqs = rd_requests t;
               latencies = query_latencies reqs
        in bind_res (if latencies = [] then Inr 0 else calculate_percentile latencies 50) (\<lambda>p50_l.
           bind_res (if latencies = [] then Inr 0 else calculate_percentile latencies 95) (\<lambda>p95_l.
             Inr (Some \<lparr>rs_total_time_sec = total_time_sec t,
               rs_distinct_queries = card (set (map rm_query_id reqs)),
               rs_distinct_requests = card (set (map rm_req_id reqs)),
               rs_requests_sent = length reqs, rs_records_read = rd_records t,
               rs_qps = rnd (rnd (of_int (rd_queries t)) / total_time_sec t),
               rs_p50 = p50_l, rs_p95 = p95_l\<rparr>)))
      else Inr None)"

section \<open>What callbacks add up\<close>

text \<open>What a sequence of callbacks leaves, field by field.\<close>

definition completed_requests :: "(int \<times> read_request_metrics list res) list \<Rightarrow> read_request_metrics list" where
  "completed_requests evs = concat (map (\<lambda>(k, out). case out of Inl e \<Rightarrow> [] | Inr ms \<Rightarrow> ms) evs)"

definition completed_queries :: "(int \<times> read_request_metrics list res) list \<Rightarrow> int" where
  "completed_queries evs = sum_list (map (\<lambda>(k, out). case out of Inl e \<Rightarrow> 0 | Inr ms \<Rightarrow> k) evs)"

definition rename_request :: "int \<Rightarrow> read_request_metrics \<Rightarrow> read_request_metrics" where
  "rename_request pid m = m\<lparr>rm_query_id := unique_id pid (rm_query_id m), rm_req_id := unique_id pid (rm_req_id m)\<rparr>"

lemma count_requests_fields:
  "rd_requests (foldl (count_request pid) t ms) = rd_requests t @ map (rename_request pid) ms \<and>
   rd_records (foldl (count_request pid) t ms) = rd_records t + sum_list (map rm_record_count ms) \<and>
   rd_bytes (foldl (count_request pid) t ms) = rd_bytes t + sum_list (map rm_records_bytes ms) \<and>
   rd_first (foldl (count_request pid) t ms) = foldl earlier (rd_first t) (map rm_send_time_ms ms) \<and>
   rd_last (foldl (count_request pid) t ms) = foldl later (rd_last t) (map rm_recv_time_ms ms) \<and>
   rd_queries (foldl (count_request pid) t ms) = rd_queries t"
  by (induction ms arbitrary: t) (simp_all add: count_request_def rename_request_def)

lemma update_metrics_fields:
  "rd_requests (foldl (update_read_metrics pid) t evs) = rd_requests t @ map (rename_request pid) (completed_requests evs) \<and>
   rd_records (foldl (update_read_metrics pid) t evs) = rd_records t + sum_list (map rm_record_count (completed_requests evs)) \<and>
   rd_bytes (foldl (update_read_metrics pid) t evs) = rd_bytes t + sum_list (map rm_records_bytes (completed_requests evs)) \<and>
   rd_first (foldl (update_read_metrics pid) t evs) = foldl earlier (rd_first t) (map rm_send_time_ms (completed_requests evs)) \<and>
   rd_last (foldl (update_read_metrics pid) t evs) = foldl later (rd_last t) (map rm_recv_time_ms (completed_requests evs)) \<and>
   rd_queries (foldl (update_read_metrics pid) t evs) = rd_queries t + completed_queries evs"
proof (induction evs arbitrary: t)
  case (Cons ev evs)
  obtain k out where ev: "ev = (k, out)" by (cases ev)
  show ?case using Cons.IH [of "update_read_metrics pid t ev"]
    by (cases out) (simp_all add: ev update_read_metrics_def count_requests_fields completed_requests_def
        completed_queries_def)
qed (simp add: completed_requests_def completed_queries_def)

section \<open>Properties\<close>

lemma feed_queries_cut:
  "concat (feed_queries batch_size buf stream) = buf @ stream \<and>
   (int (length buf) < max 1 batch_size \<longrightarrow>
     (\<forall>b \<in> set (feed_queries batch_size buf stream). b \<noteq> [] \<and> int (length b) \<le> max 1 batch_size) \<and>
     (\<forall>b \<in> set (butlast (feed_queries batch_size buf stream)). int (length b) = max 1 batch_size))"
proof (induction batch_size buf stream rule: feed_queries.induct)
  case (2 batch_size buf q stream)
  show ?case
  proof (cases "batch_size \<le> int (length (buf @ [q]))")
    case True
    then show ?thesis using "2.IH"(1) [OF refl True] by (auto simp: Let_def)
  next
    case False
    then show ?thesis using "2.IH"(2) [OF refl False] by (auto simp: Let_def)
  qed
qed auto

text \<open>
  The batches of the read benchmark, for any batch size, are the stream of queries cut in order:
  each has exactly \<open>batch_size\<close> queries (one when the size is not positive), the last one at most that
  many and at least one.
\<close>

theorem query_batches_cut_stream:
  "concat (feed_queries batch_size [] stream) = stream \<and>
   list_all (\<lambda>b. b \<noteq> [] \<and> int (length b) \<le> max 1 batch_size) (feed_queries batch_size [] stream) \<and>
   list_all (\<lambda>b. int (length b) = max 1 batch_size) (butlast (feed_queries batch_size [] stream))"
  using feed_queries_cut [of batch_size "[]" stream] by (simp add: list_all_iff)


definition demo_request :: "int \<Rightarrow> int \<Rightarrow> rat \<Rightarrow> rat \<Rightarrow> read_request_metrics" where
  "demo_request q r s e = \<lparr>rm_query_id = q, rm_req_id = r, rm_send_time_ms = s, rm_recv_time_ms = e,
     rm_record_count = 3, rm_records_bytes = 87\<rparr>"


lemma percentile_index:
  assumes "0 < p" and "p < 100" and "0 < n" and "n \<le> 2 ^ 53"
  defines "index \<equiv> rnd (rnd (p / 100) * rnd (of_int (n - 1)))"
  shows "0 \<le> index \<and> index \<le> of_int (n - 1)"
proof -
  have n: "rnd (of_int (n - 1)) = of_int (n - 1)" using assms(3,4) by (intro rnd_int) linarith+
  have "of_int 0 \<le> p / 100" "p / 100 \<le> of_int 1" using assms(1,2) by simp_all
  from rnd_between [OF this] have r: "0 \<le> rnd (p / 100)" "rnd (p / 100) \<le> 1" by simp_all
  have n0: "(0 :: rat) \<le> of_int (n - 1)" using assms(3) by (simp only: of_int_0_le_iff)
  have "of_int 0 \<le> rnd (p / 100) * of_int (n - 1)" using r n0 by (simp only: of_int_0 mult_nonneg_nonneg)
  moreover have "rnd (p / 100) * of_int (n - 1) \<le> of_int (n - 1)"
    using mult_right_mono [OF r(2) n0] by (simp only: mult_1)
  ultimately show ?thesis unfolding index_def n
    using rnd_between [of 0 "rnd (p / 100) * of_int (n - 1)" "n - 1"] assms(4) by simp
qed

lemma rnd_half: "rnd (1 / 2) = 1 / 2"
  by code_simp

text \<open>The percentile strictly between 0 and 100 of a list that is not empty, step by step.\<close>

lemma percentile_steps:
  fixes samples :: "rat list"
  assumes "0 < p" and "p < 100" and "samples \<noteq> []" and "length samples \<le> 2 ^ 53"
  defines "index \<equiv> rnd (rnd (p / 100) * rnd (of_int (int (length samples) - 1)))"
  defines "lo \<equiv> \<lfloor>index\<rfloor>"
  defines "up \<equiv> (if int (length samples) \<le> lo + 1 then lo else lo + 1)"
  defines "w \<equiv> rnd (index - of_int lo)"
  shows "calculate_percentile samples p =
      Inr (rnd (rnd (rnd (1 - w) * samples ! nat lo) + rnd (w * samples ! nat up)))"
    and "0 \<le> lo" and "lo < int (length samples)" and "0 \<le> up" and "up < int (length samples)"
    and "up = lo + 1 \<or> up = lo" and "0 \<le> w" and "w \<le> 1"
proof -
  let ?n = "int (length samples)"
  have n: "0 < ?n" using assms(3) by simp
  have n53: "?n \<le> 2 ^ 53" using assms(4) by simp
  have i: "0 \<le> index" "index \<le> of_int (?n - 1)"
    using percentile_index [OF assms(1,2) n n53] by (simp_all only: index_def)
  show lo: "0 \<le> lo" "lo < ?n" using i by (simp_all add: lo_def, linarith)
  show up: "0 \<le> up" "up < ?n" "up = lo + 1 \<or> up = lo" using lo by (auto simp: up_def)
  have "of_int 0 \<le> index - of_int lo" "index - of_int lo \<le> of_int 1" by (simp_all add: lo_def, linarith)
  from rnd_between [OF this] show w: "0 \<le> w" "w \<le> 1" by (simp_all add: w_def)
  show "calculate_percentile samples p =
      Inr (rnd (rnd (rnd (1 - w) * samples ! nat lo) + rnd (w * samples ! nat up)))"
    using assms(1-3) lo up(1,2)
    unfolding calculate_percentile_def Let_def index_def [symmetric] lo_def [symmetric] up_def [symmetric] w_def [symmetric]
    by (simp add: py_index_in_range)
qed

text \<open>
  A percentile strictly between 0 and 100 of at most \<open>2 ^ 53\<close> samples never raises, whatever the
  rounding does: it is the rounded interpolation between two neighbouring samples, or the last sample
  and itself, with a weight from 0 to 1; a single sample is every percentile of itself, and the
  50th percentile of an odd number of samples is the one in the middle.
\<close>

theorem percentile_interpolates:
  assumes "0 < p" and "p < 100" and "samples \<noteq> []" and "length samples \<le> 2 ^ 53"
  shows "\<exists>l u w. l < length samples \<and> u < length samples \<and> (u = l + 1 \<or> u = l) \<and> 0 \<le> w \<and> w \<le> 1 \<and>
      calculate_percentile samples p = Inr (rnd (rnd (rnd (1 - w) * samples ! l) + rnd (w * samples ! u))) \<and>
      (p = 50 \<and> odd (length samples) \<longrightarrow> l = length samples div 2 \<and> w = 0)"
proof -
  let ?n = "int (length samples)"
  define index where "index = rnd (rnd (p / 100) * rnd (of_int (?n - 1)))"
  define lo where "lo = \<lfloor>index\<rfloor>"
  define up where "up = (if ?n \<le> lo + 1 then lo else lo + 1)"
  define w where "w = rnd (index - of_int lo)"
  note steps = percentile_steps [OF assms, folded index_def, folded lo_def, folded up_def w_def]
  have "nat lo = length samples div 2 \<and> w = 0" if "p = 50" "odd (length samples)"
  proof -
    obtain k where k: "length samples = Suc (2 * k)" using \<open>odd (length samples)\<close> by (metis oddE Suc_eq_plus1)
    have n: "0 \<le> ?n - 1" "?n - 1 < 2 ^ 53" using assms(3,4) k by simp_all
    then have "rnd (of_int (?n - 1)) = of_int (?n - 1)" by (rule rnd_int)
    moreover have "rnd (p / 100) = 1 / 2" using that(1) rnd_half by simp
    ultimately have "index = rnd (1 / 2 * of_int (?n - 1))" by (simp only: index_def)
    also have "1 / 2 * of_int (?n - 1) = (of_int (int k) :: rat)" by (simp add: k)
    finally have "index = rnd (of_int (int k))" .
    also have "\<dots> = of_int (int k)" using k n by (intro rnd_int) linarith+
    finally show ?thesis using k by (simp add: lo_def w_def)
  qed
  then show ?thesis using steps
    by (intro exI [of _ "nat lo"] exI [of _ "nat up"] exI [of _ w]) (auto simp: nat_less_iff)
qed

theorem percentile_interpolates_witness:
  "calculate_percentile [4, 6, 11] 50 = Inr (rnd (rnd (rnd 1 * 6)))"
  using percentile_interpolates [of 50 "[4, 6, 11]"] by auto

text \<open>The keys of a list in the order in which they first appear.\<close>

definition first_seen :: "'a list \<Rightarrow> 'a list" where
  "first_seen xs = foldl (\<lambda>ys x. if x \<in> set ys then ys else ys @ [x]) [] xs"

lemma first_seen_snoc:
  "first_seen (xs @ [x]) = (if x \<in> set (first_seen xs) then first_seen xs else first_seen xs @ [x])"
  by (simp add: first_seen_def)

lemma set_first_seen [simp]: "set (first_seen xs) = set xs"
  by (induction xs rule: rev_induct) (auto simp: first_seen_snoc, simp add: first_seen_def)

lemma distinct_first_seen [simp]: "distinct (first_seen xs)"
  by (induction xs rule: rev_induct) (auto simp: first_seen_snoc, simp add: first_seen_def)

text \<open>A dictionary built over the first appearances of keys, updated at one key.\<close>

lemma update_first_seen:
  "AList.update (h x) v (map (\<lambda>k. (k, F k)) (first_seen (map h xs))) =
     map (\<lambda>k. (k, if k = h x then v else F k)) (first_seen (map h (xs @ [x])))"
proof -
  have "AList.update k v (map (\<lambda>k. (k, F k)) ks) =
      (if k \<in> set ks then map (\<lambda>j. (j, if j = k then v else F j)) ks
       else map (\<lambda>j. (j, F j)) ks @ [(k, v)])" if "distinct ks" for k ks
    using that by (induction ks) auto
  from this [OF distinct_first_seen, of "h x" "map h xs"] show ?thesis
    by (cases "h x \<in> h ` set xs") (auto simp: first_seen_snoc image_iff)
qed

lemma dict_get_first_seen:
  "dict_get_default (map (\<lambda>k. (k, F k)) ks) k d = (if k \<in> set ks then F k else d)"
  by (auto simp: dict_get_default_def map_of_map_restrict restrict_map_def)

text \<open>
  The latency statistics file every request exactly once, under its query and its request id, in the
  order of arrival: the nested dictionary is the one that lists, for every query in the order of first
  appearance and every of its request ids likewise, the requests that carry both.
\<close>

theorem group_requests_reference:
  "group_requests reqs =
     map (\<lambda>q. (q, map (\<lambda>i. (i, filter (\<lambda>m. rm_query_id m = q \<and> rm_req_id m = i) reqs))
                   (first_seen (map rm_req_id (filter (\<lambda>m. rm_query_id m = q) reqs)))))
       (first_seen (map rm_query_id reqs))"
proof (induction reqs rule: rev_induct)
  case Nil
  then show ?case by (simp add: group_requests_def first_seen_def)
next
  case (snoc x reqs)
  let ?q = "rm_query_id x"
  define G where "G = (\<lambda>(xs :: read_request_metrics list) q. map (\<lambda>i. (i, filter (\<lambda>m. rm_query_id m = q \<and> rm_req_id m = i) xs))
      (first_seen (map rm_req_id (filter (\<lambda>m. rm_query_id m = q) xs))))"
  have g0: "G reqs ?q = []" if "?q \<notin> rm_query_id ` set reqs"
  proof -
    have "filter (\<lambda>m. rm_query_id m = ?q) reqs = []" using that by (auto simp: filter_empty_conv image_iff)
    then show ?thesis by (simp add: G_def first_seen_def)
  qed
  have d: "dict_get_default (map (\<lambda>q. (q, G reqs q)) (first_seen (map rm_query_id reqs))) ?q [] = G reqs ?q"
    using g0 by (auto simp: dict_get_first_seen)
  have r: "dict_get_default (G reqs ?q) (rm_req_id x) [] =
      filter (\<lambda>m. rm_query_id m = ?q \<and> rm_req_id m = rm_req_id x) reqs"
    by (auto simp: G_def dict_get_first_seen image_iff intro!: filter_False [symmetric])
  have u: "AList.update (rm_req_id x) (filter (\<lambda>m. rm_query_id m = ?q \<and> rm_req_id m = rm_req_id x) reqs @ [x]) (G reqs ?q)
      = G (reqs @ [x]) ?q"
    unfolding G_def update_first_seen [where h = rm_req_id] by (auto intro!: map_cong)
  have other: "G (reqs @ [x]) q = G reqs q" if "q \<noteq> ?q" for q using that by (auto simp: G_def)
  have IH: "group_requests reqs = map (\<lambda>q. (q, G reqs q)) (first_seen (map rm_query_id reqs))"
    using snoc.IH by (simp only: G_def)
  have "group_requests (reqs @ [x]) = file_request (group_requests reqs) x" by (simp add: group_requests_def)
  also have "\<dots> = AList.update ?q (G (reqs @ [x]) ?q) (map (\<lambda>q. (q, G reqs q)) (first_seen (map rm_query_id reqs)))"
    unfolding IH by (simp only: file_request_def Let_def d r u)
  also have "\<dots> = map (\<lambda>q. (q, G (reqs @ [x]) q)) (first_seen (map rm_query_id (reqs @ [x])))"
    unfolding update_first_seen [where h = rm_query_id] by (rule map_cong) (auto simp: other)
  finally show ?case by (simp only: G_def)
qed

lemma query_latencies_length: "length (query_latencies reqs) = card (set (map rm_query_id reqs))"
proof -
  have "map fst (group_requests reqs) = first_seen (map rm_query_id reqs)"
  proof (induction reqs rule: rev_induct)
    case (snoc x reqs)
    then have "set (map fst (group_requests reqs)) = set (map rm_query_id reqs)" by (simp only: set_first_seen)
    moreover have "group_requests (reqs @ [x]) = file_request (group_requests reqs) x"
      by (simp add: group_requests_def)
    ultimately show ?case using snoc
      by (simp add: file_request_def Let_def update_keys first_seen_snoc del: set_map)
  qed (simp add: group_requests_def first_seen_def)
  then have "length (group_requests reqs) = length (first_seen (map rm_query_id reqs))" by (metis length_map)
  also have "\<dots> = card (set (map rm_query_id reqs))"
    by (metis distinct_card distinct_first_seen set_first_seen)
  finally show ?thesis by (simp add: query_latencies_def)
qed

text \<open>
  The statistics of a run that read for some time never fail, and have one latency for every query
  that was answered: as many as the distinct queries they report, which is at least one and at most the
  number of requests sent; the percentiles are those of the latencies.
\<close>

theorem read_summary_is_consistent:
  assumes "0 < total_time_sec t" and "rd_requests t \<noteq> []" and "length (rd_requests t) \<le> 2 ^ 53"
  shows "\<exists>s. read_summary_of t = Inr (Some s) \<and>
    rs_distinct_queries s = length (query_latencies (rd_requests t)) \<and> 1 \<le> rs_distinct_queries s \<and>
    rs_distinct_queries s \<le> rs_requests_sent s \<and> 1 \<le> rs_distinct_requests s \<and>
    rs_distinct_requests s \<le> rs_requests_sent s \<and>
    calculate_percentile (query_latencies (rd_requests t)) 50 = Inr (rs_p50 s) \<and>
    calculate_percentile (query_latencies (rd_requests t)) 95 = Inr (rs_p95 s)"
proof -
  let ?reqs = "rd_requests t" and ?l = "query_latencies (rd_requests t)"
  have len: "length ?l = card (rm_query_id ` set ?reqs)" by (simp add: query_latencies_length)
  have card: "1 \<le> card (f ` set ?reqs) \<and> card (f ` set ?reqs) \<le> length ?reqs" for f :: "_ \<Rightarrow> int"
  proof -
    have "0 < card (f ` set ?reqs)" using assms(2) by (simp add: card_gt_0_iff)
    moreover have "card (f ` set ?reqs) \<le> length ?reqs"
      using card_image_le [of "set ?reqs" f] card_length [of ?reqs] by simp
    ultimately show ?thesis by simp
  qed
  have ne: "?l \<noteq> []" using len card [of rm_query_id] by auto
  have small: "length ?l \<le> 2 ^ 53" using len card [of rm_query_id] assms(3) by linarith
  have "\<exists>x. calculate_percentile ?l p = Inr x" if "0 < p" "p < 100" for p
    using percentile_steps(1) [OF that ne small] by blast
  then obtain x y where "calculate_percentile ?l 50 = Inr x" "calculate_percentile ?l 95 = Inr y" by force
  then show ?thesis using assms(1) ne len card by (simp add: read_summary_of_def Let_def)
qed

definition demo_totals :: read_totals where
  "demo_totals = \<lparr>rd_queries = 2, rd_records = 6, rd_bytes = 174, rd_first = 4, rd_last = 2052,
     rd_requests = [demo_request 0 1 4 9, demo_request 1 2 5 2052]\<rparr>"

lemma rnd_small_ints: "0 \<le> k \<Longrightarrow> k < 2 ^ 53 \<Longrightarrow> x = of_int k \<Longrightarrow> rnd x = of_int k"
  by (simp add: rnd_int)

theorem read_summary_is_consistent_witness:
  "\<exists>s. read_summary_of demo_totals = Inr (Some s) \<and> rs_distinct_queries s = 2 \<and> rs_requests_sent s = 2"
proof -
  have "rnd (rd_last demo_totals - rd_first demo_totals) = of_int 2048"
    by (rule rnd_small_ints) (simp_all add: demo_totals_def)
  moreover have "of_int 2 \<le> (2048 / 1000 :: rat)" "(2048 / 1000 :: rat) \<le> of_int 3" by simp_all
  then have "of_int 2 \<le> rnd (2048 / 1000)" by (rule rnd_between) simp_all
  ultimately have t: "0 < total_time_sec demo_totals" by (simp add: total_time_sec_def demo_totals_def)
  have "query_latencies (rd_requests demo_totals) \<noteq> []" "length (query_latencies (rd_requests demo_totals)) = 2"
    using query_latencies_length [of "rd_requests demo_totals"] by (auto simp: demo_totals_def demo_request_def)
  moreover have "rd_requests demo_totals \<noteq> []" "length (rd_requests demo_totals) \<le> 2 ^ 53"
    by (simp_all add: demo_totals_def)
  from read_summary_is_consistent [OF t this] obtain s where
    "read_summary_of demo_totals = Inr (Some s)"
    "rs_distinct_queries s = length (query_latencies (rd_requests demo_totals))" by blast
  moreover have "rs_requests_sent s = 2"
    using \<open>read_summary_of demo_totals = Inr (Some s)\<close>
    by (auto simp: read_summary_of_def Let_def res_simps demo_totals_def split: if_splits)
  ultimately show ?thesis by simp
qed

end
