(* ===== verification/Programs.thy ===== *)
theory Programs
  imports Cli Read_Bench
begin

text \<open>
  The three programs, from their options and the configuration file to the work they give the client:
  \<open>main\<close> of \<open>write-bench.py\<close>, \<open>read_benchmark.py\<close> and \<open>cli.py\<close>, with the sizes of pools and batches each
  passes. An exception of the preparation leaves the program; one of the work is printed.
\<close>

section \<open>\<open>main\<close>\<close>

definition fresh_state :: "client \<Rightarrow> bench_state" where
  "fresh_state cl = \<lparr>bn_sent = [], bn_router = cl_router cl, bn_buffer = []\<rparr>"

record run_env =
  re_sockets :: sock_env
  re_now_ms :: int
  re_draws :: "nat \<Rightarrow> int"
  re_outcomes :: "unit res list"

definition write_bench_main ::
  "(byte list \<Rightarrow> byte list) \<Rightarrow> string \<Rightarrow> string \<Rightarrow> bench_args \<Rightarrow> int \<Rightarrow> (string, node_entry list) dict \<Rightarrow> run_env \<Rightarrow>
     (unit res \<times> bench_state) option res" where
  "write_bench_main digest strategy_name data_dist args worker_id config_data env =
     (case write_bench_keys args of (key_start, key_end, max_key) \<Rightarrow>
        bind_res (start_client WriteBench strategy_name max_key 3 config_data (re_sockets env)) (\<lambda>cl.
          Inr (write_bench digest 8192 8192
                 (record_stream (ba_requests args) data_dist key_start key_end
                    (worker_base_ts (re_now_ms env) worker_id) (re_draws env))
                 (re_outcomes env) (fresh_state cl))))"

text \<open>The batches of queries the read benchmark hands to \<open>read_batch\<close>.\<close>

definition read_bench_main ::
  "string \<Rightarrow> string \<Rightarrow> bench_args \<Rightarrow> int \<Rightarrow> int \<Rightarrow> int \<Rightarrow> (string, node_entry list) dict \<Rightarrow> run_env \<Rightarrow>
     (client \<times> query_request list list res) res" where
  "read_bench_main strategy_name data_dist args range_size pool_size batch_size config_data env =
     (case read_bench_keys args of (key_start, key_end, max_key) \<Rightarrow>
        bind_res (start_client ReadBench strategy_name max_key pool_size config_data (re_sockets env)) (\<lambda>cl.
          Inr (cl, bind_res (query_stream (ba_requests args) data_dist range_size key_start key_end (re_draws env))
                 (\<lambda>stream. Inr (feed_queries batch_size [] stream)))))"

definition cli_main ::
  "(byte list \<Rightarrow> byte list) \<Rightarrow> string \<Rightarrow> int \<Rightarrow> bool \<Rightarrow> (string, node_entry list) dict \<Rightarrow> sock_env \<Rightarrow> cli_event list \<Rightarrow>
     (cli_output list \<times> cli_state) option res" where
  "cli_main digest strategy_name max_key verbose config_data env evs =
     bind_res (start_client Cli strategy_name max_key 32 config_data env) (\<lambda>cl.
       Inr (cli_loop digest 8192 verbose evs
              \<lparr>cs_client = fresh_state cl, cs_net = cl_net cl, cs_metrics = [], cs_running = True\<rparr>))"

section \<open>A prepared client can route\<close>

definition full_config :: "(string, node_entry list) dict \<Rightarrow> bool" where
  "full_config cfg \<longleftrightarrow> dict_ok cfg \<and> cfg \<noteq> [] \<and>
     (\<forall>(c, es) \<in> set cfg. es \<noteq> [] \<and> (\<forall>e \<in> set es. ne_id e \<noteq> None \<and> ne_host e \<noteq> None \<and> ne_tcp_port e \<noteq> None))"

lemma load_node_total:
  "ne_id e \<noteq> None \<Longrightarrow> ne_host e \<noteq> None \<Longrightarrow> ne_tcp_port e \<noteq> None \<Longrightarrow> \<exists>n. load_node c e = Inr n"
  by (auto simp: load_node_def json_item_def)

lemma map_res_ex: "(\<And>x. x \<in> set xs \<Longrightarrow> \<exists>y. f x = Inr y) \<Longrightarrow> \<exists>ys. map_res f xs = Inr ys"
proof (induction xs)
  case (Cons x xs)
  then obtain y ys where "f x = Inr y" "map_res f xs = Inr ys" by (meson list.set_intros)
  then show ?case by simp
qed simp

lemma load_clusters_total:
  "(\<And>c es e. (c, es) \<in> set cfg \<Longrightarrow> e \<in> set es \<Longrightarrow> \<exists>n. load_node c e = Inr n) \<Longrightarrow> \<exists>cs'. load_clusters cfg cs = Inr cs'"
proof (induction cfg cs rule: load_clusters.induct)
  case (2 c es cfg cs)
  have "\<exists>ns. map_res (load_node c) es = Inr ns" by (rule map_res_ex) (use "2.prems" in auto)
  then obtain ns where "map_res (load_node c) es = Inr ns" by blast
  moreover have "\<exists>cs'. load_clusters cfg (AList.update c ns cs) = Inr cs'" by (rule "2.IH") (use "2.prems" in auto)
  ultimately show ?case by auto
qed simp

lemma started_client_routable:
  assumes "full_config cfg" and "name \<in> set (dict_keys (strategy_map t max_key))" and "2 \<le> pool_size"
    and "0 < max_key" and "max_key < 2 ^ 53"
  shows "\<exists>cl. start_client t name max_key pool_size cfg env = Inr cl \<and> routable (cl_router cl) \<and>
    (\<forall>r. key_u64 r \<longrightarrow> strategy_accepts (strategy (cl_router cl)) r)"
proof -
  have ok: "dict_ok cfg" and entries: "\<And>c es. (c, es) \<in> set cfg \<Longrightarrow> es \<noteq> [] \<and>
      (\<forall>e \<in> set es. ne_id e \<noteq> None \<and> ne_host e \<noteq> None \<and> ne_tcp_port e \<noteq> None)" and ne: "cfg \<noteq> []"
    using assms(1) by (auto simp: full_config_def)
  have "\<exists>n. load_node c e = Inr n" if "(c, es) \<in> set cfg" "e \<in> set es" for c es e
    using entries [OF that(1)] that(2) load_node_total by blast
  then obtain cs where cs: "load_clusters cfg [] = Inr cs" using load_clusters_total by blast
  note top = load_clusters_topology [OF cs ok]
  have "topology_ok cs"
  proof -
    have "cs \<noteq> []" using top(2) ne by auto
    moreover have "ns \<noteq> []" if "(c, ns) \<in> set cs" for c ns
    proof -
      have "length ns \<in> set (map (length \<circ> snd) cs)" using that by force
      then have "length ns \<in> set (map (length \<circ> snd) cfg)" using top(3) by simp
      then show ?thesis using entries by fastforce
    qed
    ultimately show ?thesis using top(1) by (auto simp: topology_ok_def)
  qed
  moreover obtain s where s: "dict_index (strategy_map t max_key) name = Inr s" "strategy_ok s"
    "\<forall>r. key_u64 r \<longrightarrow> strategy_accepts s r"
    using assms(2,4,5) by (cases t) (auto simp: strategy_map_def dict_index_def range_ok_def new_range_def)
  moreover obtain cl0 where "new_client pool_size (update_topology (new_router s) cs) = Inr cl0"
  proof -
    have "0 < pool_size div 2" "0 < pool_size" using assms(3) by (simp_all add: pos_imp_zdiv_pos_iff)
    then show ?thesis using that by (simp add: new_client_def executor_workers_def)
  qed
  ultimately obtain cl where cl: "start_client t name max_key pool_size cfg env = Inr cl"
    using cs by (simp add: start_client_def)
  from start_client_parts [OF this] obtain cs' s' net reg where
    "load_clusters cfg [] = Inr cs'" "dict_index (strategy_map t max_key) name = Inr s'"
    "cl_router cl = \<lparr>strategy = s', topology = cs', leaders = reg\<rparr>" by metis
  then show ?thesis using cl cs s \<open>topology_ok cs\<close> by (auto simp: routable_def)
qed

section \<open>Streams that the strategies accept\<close>

lemma record_stream_total:
  assumes "data_dist \<in> {''sequential'', ''uniform'', ''zipfian''}" and "key_start \<le> key_end"
  shows "\<exists>rs. record_stream amount data_dist key_start key_end ts draws = Inr rs"
proof -
  have "\<exists>ks. map_res (\<lambda>i. randint key_start key_end (draws i)) [0..<nat amount] = Inr ks"
    by (rule map_res_ex) (use assms(2) in \<open>simp add: randint_def\<close>)
  then show ?thesis using assms(1) by (auto simp: record_stream_def stream_keys_def Let_def)
qed

lemma record_stream_u64:
  assumes "record_stream amount data_dist key_start key_end ts draws = Inr rs" and "r \<in> set rs"
    and "0 \<le> key_start" and "key_start \<le> key_end" and "key_end < 2 ^ 64" and "key_start + amount \<le> 2 ^ 64"
    and "0 \<le> ts" and "ts + 100 * amount \<le> 2 ^ 64"
  shows "key_u64 r"
proof -
  obtain i where i: "i < length rs" "r = rs ! i" using assms(2) by (metis in_set_conv_nth)
  note spec = record_stream_spec [OF assms(1)]
  have a: "int i < amount" using spec i(1) by auto
  have t: "timestamp r = ts + 100 * int i" and k: "if data_dist = ''sequential'' then key_id r = key_start + int i
      else key_start \<le> key_id r \<and> key_id r \<le> key_end"
    using spec i assms(4) by auto
  have "0 \<le> key_id r \<and> key_id r < 2 ^ 64" using k a assms(3,5,6) by (auto split: if_splits)
  moreover have "0 \<le> timestamp r \<and> timestamp r < 2 ^ 64" using t a assms(7,8) by simp
  ultimately show ?thesis by (simp add: key_u64_def is_u64_def)
qed

section \<open>Properties\<close>


definition demo_args :: bench_args where
  "demo_args = \<lparr>ba_requests = 5, ba_key_start = 1, ba_key_end = None, ba_max_key = None\<rparr>"

definition demo_run :: run_env where
  "demo_run = \<lparr>re_sockets = calm_env, re_now_ms = 1000, re_draws = int, re_outcomes = [Inr ()]\<rparr>"


lemma query_starts_total:
  assumes "data_dist \<in> {''sequential'', ''uniform'', ''zipfian''}" and "key_start \<le> key_end"
  shows "\<exists>starts. query_starts amount data_dist range_size key_start key_end draws = Inr starts"
proof -
  have "\<exists>ks. map_res (\<lambda>i. bind_res (py_mod (int i * range_size) (key_end - key_start + 1))
      (\<lambda>off. Inr (key_start + off))) [0..<nat amount] = Inr ks"
    by (rule map_res_ex) (use assms(2) in simp)
  moreover have "\<exists>ks. map_res (\<lambda>i. randint key_start key_end (draws i)) [0..<nat amount] = Inr ks"
    by (rule map_res_ex) (use assms(2) in \<open>simp add: randint_def\<close>)
  ultimately show ?thesis using assms(1) by (auto simp: query_starts_def Let_def)
qed

text \<open>A sequential stream that is long enough asks for every key of its range.\<close>

lemma sequential_queries_cover:
  assumes "query_stream amount ''sequential'' range_size key_start key_end draws = Inr qs"
    and "key_start \<le> k" and "k \<le> key_end" and "0 < range_size" and "key_end - key_start + 1 \<le> amount * range_size"
  shows "\<exists>q \<in> set qs. min_id q \<le> k \<and> k \<le> max_id q"
proof -
  let ?d = "k - key_start" and ?w = "key_end - key_start + 1"
  let ?i = "nat (?d div range_size)"
  have d: "0 \<le> ?d" "?d < ?w" using assms(2,3) by simp_all
  have i: "int ?i = ?d div range_size" using d assms(4) by (simp add: pos_imp_zdiv_nonneg_iff)
  have e: "?d div range_size * range_size = ?d - ?d mod range_size" by (simp only: minus_mod_eq_div_mult)
  have m: "0 \<le> ?d mod range_size" "?d mod range_size < range_size"
    using pos_mod_sign [OF assms(4)] pos_mod_bound [OF assms(4)] by blast+
  have "(?d div range_size + 1) * range_size = ?d div range_size * range_size + range_size"
    by (simp add: distrib_right)
  then have le: "?d div range_size * range_size \<le> ?d" "?d < (?d div range_size + 1) * range_size"
    using e m by linarith+
  have "?d div range_size * range_size < amount * range_size" using le(1) d(2) assms(5) by linarith
  then have "?d div range_size < amount" using assms(4) by (simp add: mult_less_cancel_right)
  then have n: "?i < nat amount" using i d assms(4) by linarith
  from assms(1) obtain starts where s: "map_res (\<lambda>i. bind_res (py_mod (int i * range_size) ?w)
      (\<lambda>off. Inr (key_start + off))) [0..<nat amount] = Inr starts"
    and qs: "qs = map (\<lambda>(i, start_id). \<lparr>min_id = start_id, min_ts = 0, max_id = start_id + range_size - 1,
      max_ts = 2 ^ 64 - 1, query_id = int i\<rparr>) (enumerate 0 starts)"
    by (auto simp: query_stream_def query_starts_def res_simps)
  have len: "length starts = nat amount" using map_res_length [OF s] by simp
  have "starts ! ?i = key_start + (int ?i * range_size) mod ?w"
    using map_res_nth [OF s, of ?i] n d by simp
  also have "(int ?i * range_size) mod ?w = ?d div range_size * range_size"
    using i le(1) d assms(4) by (simp add: mod_pos_pos_trivial pos_imp_zdiv_nonneg_iff)
  finally have v: "starts ! ?i = key_start + ?d div range_size * range_size" .
  have "length qs = length starts" by (simp add: qs)
  then have "qs ! ?i \<in> set qs" using n len by (intro nth_mem) simp
  moreover have "min_id (qs ! ?i) = starts ! ?i" "max_id (qs ! ?i) = starts ! ?i + range_size - 1"
    using n len by (simp_all add: qs nth_enumerate_eq)
  moreover have "(?d div range_size + 1) * range_size = ?d div range_size * range_size + range_size"
    by (simp add: distrib_right)
  ultimately show ?thesis using v le by (intro bexI [of _ "qs ! ?i"]) linarith+
qed



end
