(* ===== verification/Write_Workers.thy ===== *)
theory Write_Workers
  imports Send_Props Write_Buffer Routing_Props
begin

text \<open>
  The write side of \<open>client/dbclient.py\<close> while its threads run: calls of \<open>write\<close> and \<open>flush\<close> submit
  batches to the io pool, idle workers take them in the order of submission, and every worker runs
  the loop of \<open>_send_batch\<close> on the registry and the sockets it shares with the others. An iteration is
  two steps, the choice of the node and the attempt, so that what a worker chose may be out of
  date when it sends. A step that is not enabled leaves the system as it is.
\<close>

section \<open>State\<close>

text \<open>A job is one call of \<open>_send_batch\<close>; \<open>jb_current\<close> is \<open>current_node\<close> between the choice and the
  attempt. \<open>jb_sends\<close> is a history: how often the job has handed its payload to a socket.\<close>

record write_job =
  jb_node :: node
  jb_batch :: "db_record list"
  jb_time :: int
  jb_retries :: nat
  jb_current :: "node option"
  jb_sends :: nat

text \<open>The registry of \<open>ws_send\<close> is the router's. \<open>ws_accepted\<close> is a history: the records the calls
  accepted, with the nodes they were routed to.\<close>

record write_system =
  ws_router :: router
  ws_buffer :: write_buffer
  ws_queue :: "batch list"
  ws_workers :: "write_job option list"
  ws_send :: send_state
  ws_done :: "(batch \<times> db_record list res) list"
  ws_accepted :: "routed list"

datatype write_event = Call buffer_event | Take nat int | Choose nat | Attempt nat send_env

definition new_system :: "nat \<Rightarrow> router \<Rightarrow> net \<Rightarrow> write_system" where
  "new_system pool_size rt net = \<lparr>ws_router = rt, ws_buffer = [], ws_queue = [],
     ws_workers = replicate pool_size None,
     ws_send = \<lparr>ss_reg = leaders rt, ss_net = net, ss_sent = [], ss_metrics = [], ss_delays = []\<rparr>,
     ws_done = [], ws_accepted = []\<rparr>"

section \<open>Steps\<close>

definition worker_job :: "nat \<Rightarrow> write_system \<Rightarrow> write_job option" where
  "worker_job w s = (if w < length (ws_workers s) then ws_workers s ! w else None)"

definition set_worker :: "nat \<Rightarrow> write_job option \<Rightarrow> write_system \<Rightarrow> write_system" where
  "set_worker w j s = s\<lparr>ws_workers := (ws_workers s)[w := j]\<rparr>"

text \<open>The future of the batch a worker runs gets its result, and the worker is idle.\<close>

definition finish :: "nat \<Rightarrow> write_job \<Rightarrow> db_record list res \<Rightarrow> write_system \<Rightarrow> write_system" where
  "finish w j r s = set_worker w None (s\<lparr>ws_done := ws_done s @ [((Some (jb_node j), jb_batch j), r)]\<rparr>)"

text \<open>\<open>_flush_batch\<close>: an empty batch is done at once, any other is submitted.\<close>

definition submit_batches :: "batch list \<Rightarrow> write_system \<Rightarrow> write_system" where
  "submit_batches bs s = s\<lparr>ws_queue := ws_queue s @ filter (\<lambda>b. snd b \<noteq> []) bs,
     ws_done := ws_done s @ map (\<lambda>b. (b, Inr [])) (filter (\<lambda>b. snd b = []) bs)\<rparr>"

definition call_step ::
  "(byte list \<Rightarrow> byte list) \<Rightarrow> client_config \<Rightarrow> buffer_event \<Rightarrow> write_system \<Rightarrow> write_system option" where
  "call_step digest cfg ev s =
     (case buffer_step digest (cf_batch_size cfg) (ws_router s, ws_buffer s) ev of
        None \<Rightarrow> None
      | Some (bs, rt, buffer) \<Rightarrow>
          Some (submit_batches bs (s\<lparr>ws_router := rt, ws_buffer := buffer,
            ws_accepted := ws_accepted s @ accepted digest (ws_router s, ws_buffer s) ev\<rparr>)))"

text \<open>A worker takes the first batch and enters \<open>_send_batch\<close>, which reads \<open>node.cluster_name\<close> first.\<close>

definition take_step :: "nat \<Rightarrow> int \<Rightarrow> write_system \<Rightarrow> write_system" where
  "take_step w t s =
     (if w < length (ws_workers s) \<and> ws_workers s ! w = None
      then case ws_queue s of
             [] \<Rightarrow> s
           | (node, batch) # queue \<Rightarrow>
               let s = s\<lparr>ws_queue := queue\<rparr> in
               (case node of
                  None \<Rightarrow> s\<lparr>ws_done := ws_done s @ [((None, batch), Inl AttributeError)]\<rparr>
                | Some n \<Rightarrow> set_worker w (Some \<lparr>jb_node = n, jb_batch = batch, jb_time = t,
                    jb_retries = 0, jb_current = None, jb_sends = 0\<rparr>) s)
      else s)"

text \<open>The head of the loop: the test of the retries and the choice of the node.\<close>

definition choose_step :: "client_config \<Rightarrow> clusters \<Rightarrow> nat \<Rightarrow> write_system \<Rightarrow> write_system" where
  "choose_step cfg cs w s =
     (case worker_job w s of
        None \<Rightarrow> s
      | Some j \<Rightarrow>
          if jb_current j \<noteq> None then s
          else if \<not> int (jb_retries j) < cf_max_retries cfg then finish w j (Inl RuntimeError) s
          else case choose_node (leaders (ws_router s)) (cluster_name (jb_node j))
                 (dict_get_default cs (cluster_name (jb_node j)) []) (jb_retries j) of
                 Inl e \<Rightarrow> finish w j (Inl e) s
               | Inr n \<Rightarrow> set_worker w (Some (j\<lparr>jb_current := Some n\<rparr>)) s)"

definition send_view :: "write_system \<Rightarrow> send_state" where
  "send_view s = (ws_send s)\<lparr>ss_reg := leaders (ws_router s)\<rparr>"

definition put_send :: "send_state \<Rightarrow> write_system \<Rightarrow> write_system" where
  "put_send st s = s\<lparr>ws_send := st, ws_router := (ws_router s)\<lparr>leaders := ss_reg st\<rparr>\<rparr>"

text \<open>The rest of the iteration: the body of the \<open>try\<close> and its handler.\<close>

definition attempt_step :: "client_config \<Rightarrow> clusters \<Rightarrow> nat \<Rightarrow> send_env \<Rightarrow> write_system \<Rightarrow> write_system" where
  "attempt_step cfg cs w env s =
     (case worker_job w s of
        None \<Rightarrow> s
      | Some j \<Rightarrow>
          (case jb_current j of
             None \<Rightarrow> s
           | Some n \<Rightarrow>
               (case send_attempt cfg (dict_get_default cs (cluster_name (jb_node j)) []) (jb_batch j)
                       (jb_time j) n env (send_view s) of
                  (Acked, st) \<Rightarrow> finish w j (Inr (jb_batch j)) (put_send st s)
                | (Redirected, st) \<Rightarrow>
                    set_worker w (Some (j\<lparr>jb_current := None, jb_sends := Suc (jb_sends j)\<rparr>)) (put_send st s)
                | (Failed e sock, st) \<Rightarrow>
                    let sends = jb_sends j + length (ss_sent st) - length (ss_sent (send_view s));
                        st = after_failure n sock st;
                        j = j\<lparr>jb_retries := Suc (jb_retries j), jb_current := None, jb_sends := sends\<rparr> in
                    (case backoff_delay (jb_retries j) of
                       Inl e \<Rightarrow> finish w j (Inl e) (put_send st s)
                     | Inr d \<Rightarrow> set_worker w (Some j)
                         (put_send (st\<lparr>ss_delays := ss_delays st @ [d]\<rparr>) s)))))"

fun write_step ::
  "(byte list \<Rightarrow> byte list) \<Rightarrow> client_config \<Rightarrow> clusters \<Rightarrow> write_system \<Rightarrow> write_event \<Rightarrow> write_system option" where
  "write_step digest cfg cs s (Call ev) = call_step digest cfg ev s"
| "write_step digest cfg cs s (Take w t) = Some (take_step w t s)"
| "write_step digest cfg cs s (Choose w) = Some (choose_step cfg cs w s)"
| "write_step digest cfg cs s (Attempt w env) = Some (attempt_step cfg cs w env s)"

fun write_run ::
  "(byte list \<Rightarrow> byte list) \<Rightarrow> client_config \<Rightarrow> clusters \<Rightarrow> write_event list \<Rightarrow> write_system \<Rightarrow> write_system option" where
  "write_run digest cfg cs [] s = Some s"
| "write_run digest cfg cs (ev # evs) s =
     (case write_step digest cfg cs s ev of None \<Rightarrow> None | Some s' \<Rightarrow> write_run digest cfg cs evs s')"

section \<open>Every batch is somewhere\<close>

definition opt_bag :: "write_job option \<Rightarrow> batch multiset" where
  "opt_bag j = (case j of None \<Rightarrow> {#} | Some j \<Rightarrow> {#(Some (jb_node j), jb_batch j)#})"

text \<open>The batches whose future is done, those a worker runs, and those that wait.\<close>

definition in_flight :: "write_system \<Rightarrow> batch multiset" where
  "in_flight s = mset (map fst (ws_done s)) + (\<Sum>j\<in>#mset (ws_workers s). opt_bag j) + mset (ws_queue s)"

definition bag_for :: "node option \<Rightarrow> batch multiset \<Rightarrow> db_record multiset" where
  "bag_for k M = (\<Sum>b\<in>#M. if fst b = k then mset (snd b) else {#})"

lemma bag_for_simps [simp]:
  "bag_for k {#} = {#}"
  "bag_for k (M + N) = bag_for k M + bag_for k N"
  "bag_for k (add_mset b M) = (if fst b = k then mset (snd b) else {#}) + bag_for k M"
  by (simp_all add: bag_for_def)

lemma bag_for_mset: "bag_for k (mset bs) = mset (batches_of bs k)"
  by (induction bs) simp_all

lemma opt_bag_simps [simp]:
  "opt_bag None = {#}" "opt_bag (Some j) = {#(Some (jb_node j), jb_batch j)#}"
  by (simp_all add: opt_bag_def)

lemma workers_update:
  assumes "w < length ws"
  shows "(\<Sum>j\<in>#mset (ws[w := x]). opt_bag j) + opt_bag (ws ! w) = (\<Sum>j\<in>#mset ws. opt_bag j) + opt_bag x"
proof -
  have "mset (ws[w := x]) + {#ws ! w#} = mset ws + {#x#}"
    using assms by (simp add: mset_update)
  then have "(\<Sum>j\<in>#mset (ws[w := x]) + {#ws ! w#}. opt_bag j) = (\<Sum>j\<in>#mset ws + {#x#}. opt_bag j)" by simp
  then show ?thesis by (simp add: add.commute)
qed

lemma worker_jobD: "worker_job w s = Some j \<Longrightarrow> w < length (ws_workers s) \<and> ws_workers s ! w = Some j"
  by (simp add: worker_job_def split: if_splits)

lemma put_send_simps [simp]:
  "ws_workers (put_send st s) = ws_workers s" "ws_queue (put_send st s) = ws_queue s"
  "ws_done (put_send st s) = ws_done s" "ws_accepted (put_send st s) = ws_accepted s"
  "ws_buffer (put_send st s) = ws_buffer s" "ws_send (put_send st s) = st"
  "leaders (ws_router (put_send st s)) = ss_reg st" "topology (ws_router (put_send st s)) = topology (ws_router s)"
  "strategy (ws_router (put_send st s)) = strategy (ws_router s)"
  by (simp_all add: put_send_def)

lemma set_worker_simps [simp]:
  "ws_workers (set_worker w j s) = (ws_workers s)[w := j]" "ws_queue (set_worker w j s) = ws_queue s"
  "ws_done (set_worker w j s) = ws_done s" "ws_accepted (set_worker w j s) = ws_accepted s"
  "ws_buffer (set_worker w j s) = ws_buffer s" "ws_send (set_worker w j s) = ws_send s"
  "ws_router (set_worker w j s) = ws_router s"
  by (simp_all add: set_worker_def)

lemma finish_simps [simp]:
  "ws_workers (finish w j r s) = (ws_workers s)[w := None]" "ws_queue (finish w j r s) = ws_queue s"
  "ws_done (finish w j r s) = ws_done s @ [((Some (jb_node j), jb_batch j), r)]"
  "ws_accepted (finish w j r s) = ws_accepted s" "ws_buffer (finish w j r s) = ws_buffer s"
  "ws_send (finish w j r s) = ws_send s" "ws_router (finish w j r s) = ws_router s"
  by (simp_all add: finish_def)

lemma in_flight_put [simp]: "in_flight (put_send st s) = in_flight s"
  by (simp add: in_flight_def)

lemma in_flight_finish:
  assumes "worker_job w s = Some j" and "jb_node j' = jb_node j" and "jb_batch j' = jb_batch j"
  shows "in_flight (finish w j' r s) = in_flight s"
  using workers_update [of w "ws_workers s" None] worker_jobD [OF assms(1)] assms(2,3)
  by (simp add: in_flight_def)

lemma in_flight_set:
  assumes "worker_job w s = Some j" and "jb_node j' = jb_node j" and "jb_batch j' = jb_batch j"
  shows "in_flight (set_worker w (Some j') s) = in_flight s"
  using workers_update [of w "ws_workers s" "Some j'"] worker_jobD [OF assms(1)] assms(2,3)
  by (simp add: in_flight_def)

lemma worker_job_put [simp]: "worker_job w (put_send st s) = worker_job w s"
  by (simp add: worker_job_def)

lemma in_flight_steps:
  shows "in_flight (take_step w t s) = in_flight s"
    and "in_flight (choose_step cfg cs w s) = in_flight s"
    and "in_flight (attempt_step cfg cs w env s) = in_flight s"
proof -
  have "in_flight (set_worker w (Some j) (s\<lparr>ws_queue := queue\<rparr>)) = in_flight s"
    if "w < length (ws_workers s)" "ws_workers s ! w = None" "ws_queue s = (Some (jb_node j), jb_batch j) # queue" for j queue
    using workers_update [of w "ws_workers s" "Some j"] that by (simp add: in_flight_def)
  then show "in_flight (take_step w t s) = in_flight s"
    by (auto simp: take_step_def Let_def split: list.splits option.splits) (simp add: in_flight_def)
  show "in_flight (choose_step cfg cs w s) = in_flight s"
    by (auto simp: choose_step_def in_flight_finish in_flight_set split: option.splits sum.splits)
  show "in_flight (attempt_step cfg cs w env s) = in_flight s"
    by (auto simp: attempt_step_def Let_def in_flight_finish in_flight_set
        split: option.splits sum.splits prod.splits attempt.splits)
qed

lemma steps_keep_calls:
  "ws_buffer (take_step w t s) = ws_buffer s" "ws_accepted (take_step w t s) = ws_accepted s"
  "ws_buffer (choose_step cfg cs w s) = ws_buffer s" "ws_accepted (choose_step cfg cs w s) = ws_accepted s"
  "ws_buffer (attempt_step cfg cs w env s) = ws_buffer s" "ws_accepted (attempt_step cfg cs w env s) = ws_accepted s"
  by (auto simp: take_step_def choose_step_def attempt_step_def Let_def
      split: list.splits option.splits sum.splits prod.splits attempt.splits)

definition conserved :: "int \<Rightarrow> write_system \<Rightarrow> bool" where
  "conserved batch_size s \<longleftrightarrow> buffer_well batch_size (ws_router s, ws_buffer s) \<and>
     (\<forall>k. bag_for k (in_flight s) + mset (pending (ws_buffer s) k) = mset (routed_to (ws_accepted s) k))"

lemma in_flight_submit: "in_flight (submit_batches bs s) = in_flight s + mset bs"
proof -
  have "mset bs = filter_mset (\<lambda>b. snd b = []) (mset bs) + filter_mset (\<lambda>b. snd b \<noteq> []) (mset bs)"
    by (simp flip: multiset_partition)
  then show ?thesis by (simp add: in_flight_def submit_batches_def comp_def)
qed

lemma write_step_conserved:
  assumes "conserved (cf_batch_size cfg) s"
  shows "\<exists>s'. write_step digest cfg cs s ev = Some s' \<and> conserved (cf_batch_size cfg) s'"
proof (cases ev)
  case (Call ev)
  let ?b = "cf_batch_size cfg"
  have w: "buffer_well ?b (ws_router s, ws_buffer s)" using assms by (simp add: conserved_def)
  obtain bs rt buffer where b: "buffer_step digest ?b (ws_router s, ws_buffer s) ev = Some (bs, rt, buffer)"
    "buffer_well ?b (rt, buffer)"
    "\<forall>k. batches_of bs k @ pending buffer k =
       pending (ws_buffer s) k @ routed_to (accepted digest (ws_router s, ws_buffer s) ev) k"
    using buffer_step_spec [OF w, of digest ev] by auto
  have "bag_for k (in_flight s + mset bs) + mset (pending buffer k) =
      mset (routed_to (ws_accepted s @ accepted digest (ws_router s, ws_buffer s) ev) k)" for k
  proof -
    have "mset (batches_of bs k) + mset (pending buffer k) = mset (pending (ws_buffer s) k) +
        mset (routed_to (accepted digest (ws_router s, ws_buffer s) ev) k)"
      using b(3) by (metis mset_append)
    then show ?thesis using assms by (simp add: conserved_def bag_for_mset) (metis add.assoc)
  qed
  then show ?thesis using b(1,2) Call
    by (simp add: call_step_def conserved_def in_flight_submit)
       (simp add: in_flight_def submit_batches_def)
qed (use assms in \<open>simp_all add: conserved_def in_flight_steps steps_keep_calls buffer_well_def\<close>)

lemma write_run_conserved:
  "conserved (cf_batch_size cfg) s \<Longrightarrow>
   \<exists>s'. write_run digest cfg cs evs s = Some s' \<and> conserved (cf_batch_size cfg) s'"
proof (induction evs arbitrary: s)
  case (Cons ev evs)
  obtain s1 where "write_step digest cfg cs s ev = Some s1" "conserved (cf_batch_size cfg) s1"
    using write_step_conserved [OF Cons.prems] by blast
  then show ?case using Cons.IH by simp
qed simp

lemma in_flight_new: "in_flight (new_system pool_size rt net) = {#}"
  by (induction pool_size) (simp_all add: in_flight_def new_system_def)

lemma conserved_new: "0 < batch_size \<Longrightarrow> conserved batch_size (new_system pool_size rt net)"
  by (simp add: conserved_def in_flight_new) (simp add: new_system_def buffer_well_def)

section \<open>Clusters of mock servers\<close>

text \<open>What an attempt meets at a node: a leader of the mock server acknowledges the payload, in
  whatever pieces it and its answer arrive; any other server names the leader.\<close>

definition served_by :: "client_config \<Rightarrow> mock_server \<Rightarrow> byte list \<Rightarrow> send_env \<Rightarrow> bool" where
  "served_by cfg srv payload env \<longleftrightarrow> (\<forall>a. se_connect (sv_sock env) a = None) \<and> sv_sendall env = None \<and>
     callback_ok cfg env \<and>
     (if ms_is_leader srv
      then \<exists>chunks. concat chunks = payload \<and> [] \<notin> set chunks \<and>
             handle_write srv chunks = Some (stream_bytes (sv_events env))
      else \<exists>answer. handle_write srv [] = Some answer \<and> sv_events env = [Chunk answer])"

text \<open>Every cluster has one leader, which its other servers name by its id.\<close>

definition cluster_led :: "clusters \<Rightarrow> (node \<Rightarrow> mock_server) \<Rightarrow> (string \<Rightarrow> node) \<Rightarrow> string \<Rightarrow> bool" where
  "cluster_led cs srv lead c \<longleftrightarrow> (let ns = dict_get_default cs c []; l = lead c in
     l \<in> set ns \<and> ms_is_leader (srv l) \<and> 0 < node_id l \<and>
     (\<forall>n \<in> set ns. n \<noteq> l \<longrightarrow> \<not> ms_is_leader (srv n) \<and> ms_leader_id (srv n) = node_id l \<and>
        node_id n \<noteq> node_id l \<and> length (redirect_msg (srv n)) \<le> 256))"

lemma cluster_led_find:
  assumes "cluster_led cs srv lead c"
  shows "find (\<lambda>n. node_id n = node_id (lead c)) (dict_get_default cs c []) = Some (lead c)"
proof -
  have "find (\<lambda>n. node_id n = node_id l) ns = Some l" if "l \<in> set ns" "\<forall>n \<in> set ns. n \<noteq> l \<longrightarrow> node_id n \<noteq> node_id l"
    for l :: node and ns
    using that by (induction ns) auto
  then show ?thesis using assms by (simp add: cluster_led_def Let_def)
qed

text \<open>An attempt at a follower and one at the leader.\<close>

lemma attempt_at_follower:
  assumes ok: "net_ok (ss_net st)" and ser: "serialize_batch batch = Inr p" and srv: "served_by cfg (srv n) p env"
    and led: "cluster_led cs srv lead c" and n: "n \<in> set (dict_get_default cs c [])" "n \<noteq> lead c"
  shows "\<exists>net. send_attempt cfg (dict_get_default cs c []) batch t n env st =
      (Redirected, st\<lparr>ss_net := net, ss_sent := ss_sent st @ [(n, p)], ss_reg := set_leader (ss_reg st) (lead c)\<rparr>) \<and>
    net_ok net"
proof -
  let ?msg = "redirect_msg (srv n)"
  have f: "\<not> ms_is_leader (srv n)" "ms_leader_id (srv n) = node_id (lead c)" "length ?msg \<le> 256" "0 < node_id (lead c)"
    using led n by (simp_all add: cluster_led_def Let_def)
  have env: "\<And>a. se_connect (sv_sock env) a = None" "sv_sendall env = None" "sv_events env = [Chunk ?msg]"
    using srv f(1) by (simp_all add: served_by_def handle_write_def del: split_paired_All)
  obtain s net where g: "get_socket (sv_sock env) n False (ss_net st) = (Inr s, net)" "net_ok net"
    using get_socket_connects [OF ok env(1)] by fastforce
  have "follow_redirect (dict_get_default cs c []) (tl ?msg) = Inr (lead c)"
    using follow_mock_redirect [of "srv n"] f(2,4) cluster_led_find [OF led] by (simp add: redirect_leader_def)
  moreover have "sv_events env = [Chunk (82 # tl ?msg)]" using env(3) redirect_msg_split [of "srv n"] by simp
  moreover have "length (tl ?msg) \<le> 255" "0 < length (tl ?msg)"
    using f(3) by (auto simp: redirect_msg_def ascii_def)
  ultimately have "send_attempt cfg (dict_get_default cs c []) batch t n env st = (Redirected,
      st\<lparr>ss_net := close_sock s net, ss_sent := ss_sent st @ [(n, p)], ss_reg := set_leader (ss_reg st) (lead c)\<rparr>)"
    using g(1) ser env(2) by (intro send_attempt_redirects) simp_all
  moreover have "net_ok (close_sock s net)"
    using get_socket_ok(2) [OF ok g(1)] g(2) by (intro close_sock_ok(1)) simp_all
  ultimately show ?thesis by blast
qed

lemma attempt_at_leader:
  assumes ok: "net_ok (ss_net st)" and enc: "list_all encodable batch" "batch \<noteq> []"
    and srv: "served_by cfg m (concat (map write_frame batch)) env" and n: "ms_is_leader m"
  shows "\<exists>st'. send_attempt cfg nodes batch t n env st = (Acked, st') \<and> net_ok (ss_net st') \<and>
    ss_sent st' = ss_sent st @ [(n, concat (map write_frame batch))] \<and> ss_reg st' = set_leader (ss_reg st) n"
proof -
  let ?p = "concat (map write_frame batch)"
  have ser: "serialize_batch batch = Inr ?p" using enc(1) by (simp add: serialize_batch_eq list_all_iff)
  obtain chunks where env: "\<And>a. se_connect (sv_sock env) a = None" "sv_sendall env = None" "callback_ok cfg env"
    "concat chunks = ?p" "[] \<notin> set chunks" "handle_write m chunks = Some (stream_bytes (sv_events env))"
    using srv n by (auto simp: served_by_def simp del: split_paired_All)
  obtain s net where g: "get_socket (sv_sock env) n False (ss_net st) = (Inr s, net)"
    using get_socket_connects [OF ok env(1)] by fastforce
  have "serve_writes [] chunks [] = Some ([] @ replicate (length (map write_frame batch)) 0)"
    using env(4,5) write_frame_message by (intro serve_writes_acks) (auto simp: message_cut_def)
  then have "stream_bytes (sv_events env) = replicate (length batch) 0" using n env(6) by (simp add: handle_write_def)
  then have acks: "answers_acks (length batch) env" using enc(2) by (auto simp: answers_acks_def)
  have send: "sv_sendall env \<in> {None, Some BrokenPipeError, Some ConnectionResetError}" using env(2) by simp
  obtain st' where a: "send_attempt cfg nodes batch t n env st = (Acked, st')"
    "ss_sent st' = ss_sent st @ [(n, ?p)]" "ss_reg st' = set_leader (ss_reg st) n"
    using send_attempt_succeeds [OF g ser send acks env(3), of nodes t] by blast
  moreover have "net_ok (ss_net st')" by (rule send_attempt_net(1) [OF ok env(3) a(1)])
  ultimately show ?thesis by blast
qed

section \<open>One worker on its own\<close>

text \<open>The schedule in which a worker makes one attempt after the other and nobody else moves.\<close>

definition alone :: "nat \<Rightarrow> send_env list \<Rightarrow> write_event list" where
  "alone w envs = concat (map (\<lambda>env. [Choose w, Attempt w env]) envs) @ [Choose w]"

lemma alone_simps [simp]:
  "alone w [] = [Choose w]" "alone w (env # envs) = Choose w # Attempt w env # alone w envs"
  by (simp_all add: alone_def)

lemma send_view_simps [simp]:
  "send_view (put_send st s) = st" "send_view (set_worker w jo s) = send_view s"
  "send_view (finish w j r s) = send_view s" "ss_reg (send_view s) = leaders (ws_router s)"
  by (simp_all add: send_view_def put_send_def set_worker_def finish_def)

lemma worker_job_simps [simp]:
  "w < length (ws_workers s) \<Longrightarrow> worker_job w (set_worker w j s) = j"
  "worker_job w (finish w x r s) = None"
  by (auto simp: worker_job_def)

lemma idle_alone: "worker_job w s = None \<Longrightarrow> write_run digest cfg cs (alone w envs) s = Some s"
  by (induction envs) (simp_all add: choose_step_def attempt_step_def)

lemma worker_alone:
  assumes "worker_job w s = Some j" and "jb_current j = None" and "\<forall>env \<in> set envs. sv_ops env = []"
    and "send_loop cfg (cluster_name (jb_node j)) (dict_get_default cs (cluster_name (jb_node j)) []) (jb_batch j)
      (jb_time j) (jb_retries j) envs (send_view s) = (Some res, st')"
  shows "\<exists>s'. write_run digest cfg cs (alone w envs) s = Some s' \<and>
    ws_done s' = ws_done s @ [((Some (jb_node j), jb_batch j), res)] \<and> send_view s' = st'"
  using assms
proof (induction envs arbitrary: s j)
  case Nil
  then show ?case by (auto simp: choose_step_def split: if_splits)
next
  case (Cons env envs)
  let ?c = "cluster_name (jb_node j)"
  let ?ns = "dict_get_default cs ?c []"
  note w = worker_jobD [OF Cons.prems(1)]
  have ops: "at_env env (send_view s) = send_view s" using Cons.prems(3) by (simp add: at_env_def)
  let ?chosen = "\<lambda>n. set_worker w (Some (j\<lparr>jb_current := Some n\<rparr>)) s"
  from Cons.prems(4) show ?case
  proof (cases rule: send_loop_cases)
    case gives_up
    then have "choose_step cfg cs w s = finish w j (Inl RuntimeError) s" using Cons.prems(1,2) by (simp add: choose_step_def)
    then show ?thesis using gives_up by (simp add: idle_alone attempt_step_def)
  next
    case (no_node e)
    then have "choose_step cfg cs w s = finish w j (Inl e) s" using Cons.prems(1,2) ops by (simp add: choose_step_def)
    then show ?thesis using no_node ops by (simp add: idle_alone attempt_step_def)
  next
    case (acked n)
    then have "choose_step cfg cs w s = ?chosen n" using Cons.prems(1,2) ops by (simp add: choose_step_def)
    then show ?thesis using acked ops w by (simp add: idle_alone attempt_step_def)
  next
    case (redirected n st1)
    let ?j = "j\<lparr>jb_current := None, jb_sends := Suc (jb_sends j)\<rparr>"
    let ?s = "set_worker w (Some ?j) (put_send st1 (?chosen n))"
    have c: "choose_step cfg cs w s = ?chosen n" using redirected Cons.prems(1,2) ops by (simp add: choose_step_def)
    have a: "attempt_step cfg cs w env (?chosen n) = ?s" using redirected ops w by (simp add: attempt_step_def)
    have "worker_job w ?s = Some ?j" using w by simp
    from Cons.IH [OF this] show ?thesis using redirected(4) Cons.prems(3) c a by simp
  next
    case (overflow n e sock st1 e')
    then have "choose_step cfg cs w s = ?chosen n" using Cons.prems(1,2) ops by (simp add: choose_step_def)
    then show ?thesis using overflow ops w by (simp add: idle_alone attempt_step_def Let_def)
  next
    case (failed n e sock st1 d)
    let ?j = "j\<lparr>jb_retries := Suc (jb_retries j), jb_current := None,
      jb_sends := jb_sends j + length (ss_sent st1) - length (ss_sent (send_view s))\<rparr>"
    let ?s = "set_worker w (Some ?j) (put_send (slept d (after_failure n sock st1)) (?chosen n))"
    have c: "choose_step cfg cs w s = ?chosen n" using failed Cons.prems(1,2) ops by (simp add: choose_step_def)
    have a: "attempt_step cfg cs w env (?chosen n) = ?s"
      using failed ops w by (simp add: attempt_step_def Let_def slept_def)
    have "worker_job w ?s = Some ?j" using w by simp
    from Cons.IH [OF this] show ?thesis using failed(5) Cons.prems(3) c a by simp
  qed
qed

end
