(* ===== verification/Write_Session.thy ===== *)
theory Write_Session
  imports Write_Workers Write_Bench
begin

text \<open>
  The write side from end to end against clusters of mock servers: whatever the order in which the
  calls, the workers' steps and the leader changes of other threads happen, every batch is
  acknowledged by the leader of its cluster, which receives each record exactly once.
\<close>

section \<open>Runs whose attempts are served\<close>

fun op_known :: "clusters \<Rightarrow> registry_op \<Rightarrow> bool" where
  "op_known cs (SetLeader n) = (n \<in> set (dict_get_default cs (cluster_name n) []))"
| "op_known cs op = True"

fun call_fits :: "clusters \<Rightarrow> buffer_event \<Rightarrow> bool" where
  "call_fits cs (WriteCall records) = list_all encodable records"
| "call_fits cs (LeaderOp op) = op_known cs op"
| "call_fits cs (NewTopology cs') = False"
| "call_fits cs ev = True"

fun event_served ::
  "client_config \<Rightarrow> clusters \<Rightarrow> (node \<Rightarrow> mock_server) \<Rightarrow> write_system \<Rightarrow> write_event \<Rightarrow> bool" where
  "event_served cfg cs srv s (Call ev) = call_fits cs ev"
| "event_served cfg cs srv s (Attempt w env) =
     (case worker_job w s of
        None \<Rightarrow> True
      | Some j \<Rightarrow>
          (case jb_current j of
             None \<Rightarrow> True
           | Some n \<Rightarrow> served_by cfg (srv n) (concat (map write_frame (jb_batch j))) env))"
| "event_served cfg cs srv s ev = True"

fun run_served ::
  "(byte list \<Rightarrow> byte list) \<Rightarrow> client_config \<Rightarrow> clusters \<Rightarrow> (node \<Rightarrow> mock_server) \<Rightarrow> write_event list \<Rightarrow>
     write_system \<Rightarrow> bool" where
  "run_served digest cfg cs srv [] s = True"
| "run_served digest cfg cs srv (ev # evs) s =
     (event_served cfg cs srv s ev \<and>
      (case write_step digest cfg cs s ev of None \<Rightarrow> True | Some s' \<Rightarrow> run_served digest cfg cs srv evs s'))"

section \<open>What the leaders received\<close>

fun written_by :: "write_event \<Rightarrow> db_record list" where
  "written_by (Call (WriteCall records)) = records"
| "written_by ev = []"

definition batch_cluster :: "batch \<Rightarrow> string option" where
  "batch_cluster b = map_option cluster_name (fst b)"

text \<open>The records of the batches of a cluster whose future is done, in the order of completion, and
  the bytes handed to its leader.\<close>

definition done_records :: "string \<Rightarrow> write_system \<Rightarrow> db_record list" where
  "done_records c s = concat (map (snd \<circ> fst) (filter (\<lambda>d. batch_cluster (fst d) = Some c) (ws_done s)))"

definition leader_bytes :: "(string \<Rightarrow> node) \<Rightarrow> string \<Rightarrow> write_system \<Rightarrow> byte list" where
  "leader_bytes lead c s = concat (map snd (filter (\<lambda>e. fst e = lead c) (ss_sent (ws_send s))))"

definition idle :: "write_system \<Rightarrow> bool" where
  "idle s \<longleftrightarrow> ws_queue s = [] \<and> (\<forall>j \<in> set (ws_workers s). j = None)"

section \<open>Routing under a known topology\<close>

definition router_set :: "clusters \<Rightarrow> router \<Rightarrow> bool" where
  "router_set cs rt \<longleftrightarrow> topology rt = cs \<and> topology_ok cs \<and> strategy_ok (strategy rt) \<and> leaders_known cs (leaders rt)"

lemma router_set_ok: "router_set cs rt \<Longrightarrow> registry_ok (leaders rt) \<and> clusters_ok cs"
  using leaders_known_ok by (auto simp: router_set_def topology_ok_def)

lemma encodable_accepts: "encodable r \<Longrightarrow> strategy_accepts s r"
  by (cases s) (simp_all add: encodable_def key_u64_def)

lemma router_insert_known:
  assumes "router_set cs rt" and "encodable r"
  shows "\<exists>n rt'. router_insert digest rt r = (Inr (Some n), rt') \<and> router_set cs rt' \<and> leaders rt' = leaders rt \<and>
    cluster_name n \<in> set (dict_keys cs)"
proof -
  have "routable rt" using assms(1) by (simp add: router_set_def routable_def)
  from router_insert_total [OF this encodable_accepts [OF assms(2)], of digest] obtain n rt' where
    i: "router_insert digest rt r = (Inr (Some n), rt')" "routable rt'" by blast
  then have g: "fst (get_node_insert digest (strategy rt) r (leaders rt) (topology rt)) = Inr (Some n)"
    and rt': "topology rt' = topology rt" "leaders rt' = leaders rt"
    by (auto simp: router_insert_def split: prod.splits)
  have "\<exists>ns. (cluster_name n, ns) \<in> set (topology rt)"
    using router_rc.ins_leader [OF _ _ _ g] assms(1) router_set_ok [OF assms(1)] by (auto simp: router_set_def)
  then have "cluster_name n \<in> set (dict_keys cs)" using assms(1) by (force simp: router_set_def)
  then show ?thesis using i rt' assms(1) by (auto simp: router_set_def routable_def)
qed

lemma route_trace_known:
  "router_set cs rt \<Longrightarrow> list_all encodable rs \<Longrightarrow>
   \<exists>t rt'. route_trace digest rt rs = (Inr t, rt') \<and> router_set cs rt' \<and> leaders rt' = leaders rt \<and> map snd t = rs \<and>
     (\<forall>p \<in> set t. \<exists>n. fst p = Some n \<and> cluster_name n \<in> set (dict_keys cs))"
proof (induction rs arbitrary: rt)
  case (Cons r rs)
  obtain n rt1 where i: "router_insert digest rt r = (Inr (Some n), rt1)" "router_set cs rt1" "leaders rt1 = leaders rt"
    "cluster_name n \<in> set (dict_keys cs)"
    using router_insert_known [of cs rt r digest] Cons.prems by auto
  then show ?case using Cons.IH [of rt1] Cons.prems(2) by fastforce
qed simp

lemma router_query_known: "router_set cs rt \<Longrightarrow> router_set cs (snd (router_query rt q)) \<and> leaders (snd (router_query rt q)) = leaders rt"
  using router_rc.qry_keeps [of "strategy rt" q "leaders rt" "topology rt"]
  by (auto simp: router_set_def router_query_def split: prod.splits)

lemma leader_op_known: "router_set cs rt \<Longrightarrow> op_known cs op \<Longrightarrow> router_set cs (rt\<lparr>leaders := registry_step (leaders rt) op\<rparr>)"
  by (cases op) (auto simp: router_set_def leaders_known_def)

lemma buffer_step_known:
  assumes "router_set cs rt" and "call_fits cs ev" and "0 < batch_size"
    and "buffer_step digest batch_size (rt, buffer) ev = Some (bs, rt', buffer')"
  shows "router_set cs rt' \<and> map snd (accepted digest (rt, buffer) ev) = written_by (Call ev) \<and>
    ((\<forall>op. ev \<noteq> LeaderOp op) \<longrightarrow> leaders rt' = leaders rt) \<and>
    (\<forall>p \<in> set (accepted digest (rt, buffer) ev). \<exists>n. fst p = Some n \<and> cluster_name n \<in> set (dict_keys cs) \<and> encodable (snd p))"
proof (cases ev)
  case (WriteCall rs)
  then have enc: "list_all encodable rs" using assms(2) by simp
  from route_trace_known [OF assms(1) this, of digest] obtain t rt1 where
    t: "route_trace digest rt rs = (Inr t, rt1)" "router_set cs rt1" "leaders rt1 = leaders rt" "map snd t = rs"
    "\<forall>p \<in> set t. \<exists>n. fst p = Some n \<and> cluster_name n \<in> set (dict_keys cs)" by blast
  obtain buffer1 bs1 where "write_records digest batch_size rs rt buffer = Some (Inr bs1, rt1, buffer1)"
    using write_records_spec [OF assms(3) t(1), of buffer] by blast
  moreover have "encodable (snd p)" if "p \<in> set t" for p
  proof -
    have "snd p \<in> set (map snd t)" using that by simp
    then show ?thesis unfolding t(4) using enc by (simp add: list_all_iff)
  qed
  ultimately show ?thesis using t WriteCall assms(4) by auto
next
  case (LeaderOp op)
  then show ?thesis using assms leader_op_known by auto
next
  case (QueryCall q)
  then show ?thesis using assms router_query_known [OF assms(1), of q] by auto
qed (use assms in \<open>auto split: prod.splits\<close>)

section \<open>The invariant of a served run\<close>

definition job_known :: "clusters \<Rightarrow> write_job \<Rightarrow> bool" where
  "job_known cs j \<longleftrightarrow> jb_batch j \<noteq> [] \<and> jb_retries j = 0 \<and>
     (\<forall>n. jb_current j = Some n \<longrightarrow> n \<in> set (dict_get_default cs (cluster_name (jb_node j)) []))"

text \<open>What is accepted can be sent; what is done was returned, and is what the leaders received.\<close>

definition delivery_inv :: "client_config \<Rightarrow> clusters \<Rightarrow> (string \<Rightarrow> node) \<Rightarrow> write_system \<Rightarrow> bool" where
  "delivery_inv cfg cs lead s \<longleftrightarrow> conserved (cf_batch_size cfg) s \<and> router_set cs (ws_router s) \<and>
     net_ok (ss_net (ws_send s)) \<and>
     (\<forall>p \<in> set (ws_accepted s). \<exists>n. fst p = Some n \<and> cluster_name n \<in> set (dict_keys cs) \<and> encodable (snd p)) \<and>
     (\<forall>b \<in> set (ws_queue s). snd b \<noteq> []) \<and> (\<forall>j. Some j \<in> set (ws_workers s) \<longrightarrow> job_known cs j) \<and>
     (\<forall>d \<in> set (ws_done s). snd d = Inr (snd (fst d))) \<and>
     (\<forall>c \<in> set (dict_keys cs). leader_bytes lead c s = concat (map write_frame (done_records c s)))"

lemma accepted_batch:
  assumes "conserved b s" and "batch \<in># in_flight s" and "r \<in> set (snd batch)"
  shows "(fst batch, r) \<in> set (ws_accepted s)"
proof -
  obtain M where M: "in_flight s = add_mset batch M" using assms(2) by (metis multi_member_split)
  have "bag_for (fst batch) (in_flight s) \<subseteq># mset (routed_to (ws_accepted s) (fst batch))"
    using assms(1) unfolding conserved_def by (metis mset_subset_eq_add_left)
  then have "mset (snd batch) \<subseteq># mset (routed_to (ws_accepted s) (fst batch))"
    unfolding M by simp (meson mset_subset_eq_add_left subset_mset.order_trans)
  then have "r \<in> set (routed_to (ws_accepted s) (fst batch))"
    using assms(3) by (metis mset_subset_eqD set_mset_mset)
  then show ?thesis by (auto simp: routed_to_def)
qed

lemma opt_bag_sum: "b \<in># (\<Sum>j\<in>#mset ws. opt_bag j) \<longleftrightarrow> (\<exists>j. Some j \<in> set ws \<and> b = (Some (jb_node j), jb_batch j))"
  by (induction ws) (auto simp: opt_bag_def split: option.splits)

lemma in_flight_mem:
  "b \<in> set (ws_queue s) \<Longrightarrow> b \<in># in_flight s"
  "Some j \<in> set (ws_workers s) \<Longrightarrow> (Some (jb_node j), jb_batch j) \<in># in_flight s"
  "d \<in> set (ws_done s) \<Longrightarrow> fst d \<in># in_flight s"
  unfolding in_flight_def union_iff opt_bag_sum by auto

text \<open>A batch on its way is for a cluster of the topology and can be serialized.\<close>

lemma batch_sendable:
  assumes "delivery_inv cfg cs lead s" and "b \<in># in_flight s" and "snd b \<noteq> []"
  shows "\<exists>n. fst b = Some n \<and> cluster_name n \<in> set (dict_keys cs) \<and> list_all encodable (snd b)"
proof -
  have c: "conserved (cf_batch_size cfg) s"
    and a: "\<forall>p \<in> set (ws_accepted s). \<exists>n. fst p = Some n \<and> cluster_name n \<in> set (dict_keys cs) \<and> encodable (snd p)"
    using assms(1) by (simp_all add: delivery_inv_def)
  have "\<exists>n. fst b = Some n \<and> cluster_name n \<in> set (dict_keys cs) \<and> encodable r" if "r \<in> set (snd b)" for r
    using a accepted_batch [OF c assms(2) that] by fastforce
  then show ?thesis using assms(3) by (metis list.set_intros(1) list_all_iff neq_Nil_conv)
qed

lemma leader_cluster:
  assumes "clusters_ok cs" and "cluster_led cs srv lead c"
  shows "cluster_name (lead c) = c"
  using assms(2) by (intro cluster_member [OF assms(1)]) (simp add: cluster_led_def Let_def)

lemma done_records_finish:
  assumes "ws_done s' = ws_done s @ [((Some n, batch), r)]"
  shows "done_records c s' = done_records c s @ (if cluster_name n = c then batch else [])"
  by (simp add: done_records_def assms batch_cluster_def)

lemma leader_bytes_snoc:
  assumes "ss_sent (ws_send s') = ss_sent (ws_send s) @ [(n, p)]"
  shows "leader_bytes lead c s' = leader_bytes lead c s @ (if n = lead c then p else [])"
  by (simp add: leader_bytes_def assms)

lemma set_update_workers: "Some j \<in> set (ws[w := x]) \<Longrightarrow> Some j = x \<or> Some j \<in> set ws"
  by (metis insertE set_update_subset_insert subsetD)

lemma choose_node_member:
  assumes "choose_node reg c (dict_get_default cs c []) r = Inr n" and "leaders_known cs reg"
  shows "n \<in> set (dict_get_default cs c [])"
  using assms by (auto simp: choose_node_def leaders_known_def res_simps split: option.splits dest: py_index_set)

lemma session_choose:
  assumes inv: "delivery_inv cfg cs lead s" and led: "\<forall>c \<in> set (dict_keys cs). cluster_led cs srv lead c"
    and retries: "0 < cf_max_retries cfg"
  shows "delivery_inv cfg cs lead (choose_step cfg cs w s)"
proof (cases "worker_job w s")
  case None
  then show ?thesis using inv by (simp add: choose_step_def)
next
  case (Some j)
  note w = worker_jobD [OF Some]
  let ?c = "cluster_name (jb_node j)"
  have known: "job_known cs j" using inv w unfolding delivery_inv_def by (metis nth_mem)
  show ?thesis
  proof (cases "jb_current j")
    case c: None
    have mem: "Some j \<in> set (ws_workers s)" using w by (metis nth_mem)
    have "?c \<in> set (dict_keys cs)"
      using batch_sendable [OF inv in_flight_mem(2) [OF mem]] known by (auto simp: job_known_def)
    then have "dict_get_default cs ?c [] \<noteq> []" using led by (auto simp: cluster_led_def Let_def)
    then obtain n where n: "choose_node (leaders (ws_router s)) ?c (dict_get_default cs ?c []) 0 = Inr n"
      using choose_node_some by blast
    then have "n \<in> set (dict_get_default cs ?c [])"
      using choose_node_member inv by (auto simp: delivery_inv_def router_set_def)
    then have j: "job_known cs (j\<lparr>jb_current := Some n\<rparr>)" using known by (simp add: job_known_def)
    let ?s = "set_worker w (Some (j\<lparr>jb_current := Some n\<rparr>)) s"
    have step: "choose_step cfg cs w s = ?s"
      using Some c known n retries by (simp add: choose_step_def job_known_def)
    have "conserved (cf_batch_size cfg) ?s"
      using write_step_conserved [of cfg s undefined cs "Choose w"] inv step by (simp add: delivery_inv_def)
    then show ?thesis using inv j unfolding step delivery_inv_def
      by (auto simp: leader_bytes_def done_records_def dest!: set_update_workers)
  qed (use Some inv in \<open>simp add: choose_step_def\<close>)
qed

lemma session_take:
  assumes inv: "delivery_inv cfg cs lead s"
  shows "delivery_inv cfg cs lead (take_step w t s)"
proof (cases "w < length (ws_workers s) \<and> ws_workers s ! w = None \<and> ws_queue s \<noteq> []")
  case True
  then obtain b queue where q: "ws_queue s = b # queue" by (cases "ws_queue s") auto
  have "b \<in> set (ws_queue s)" "snd b \<noteq> []" using q inv by (simp_all add: delivery_inv_def)
  then obtain n where n: "fst b = Some n" using batch_sendable [OF inv in_flight_mem(1)] by blast
  let ?j = "\<lparr>jb_node = n, jb_batch = snd b, jb_time = t, jb_retries = 0, jb_current = None, jb_sends = 0\<rparr>"
  let ?s = "set_worker w (Some ?j) (s\<lparr>ws_queue := queue\<rparr>)"
  have step: "take_step w t s = ?s" using True q n by (cases b) (simp add: take_step_def)
  have "conserved (cf_batch_size cfg) ?s"
    using write_step_conserved [of cfg s undefined cs "Take w t"] inv step by (simp add: delivery_inv_def)
  moreover have "job_known cs ?j" using \<open>snd b \<noteq> []\<close> by (simp add: job_known_def)
  ultimately show ?thesis using inv q unfolding step delivery_inv_def
    by (auto simp: leader_bytes_def done_records_def dest!: set_update_workers)
qed (use inv in \<open>auto simp: take_step_def split: list.splits\<close>)

text \<open>The two outcomes of a served attempt: at the leader the batch is done, at a follower the leader
  becomes known and the worker chooses again.\<close>

lemma attempt_served:
  assumes inv: "delivery_inv cfg cs lead s" and led: "\<forall>c \<in> set (dict_keys cs). cluster_led cs srv lead c"
    and j: "worker_job w s = Some j" "jb_current j = Some n" and ev: "event_served cfg cs srv s (Attempt w env)"
  defines "c \<equiv> cluster_name (jb_node j)" and "p \<equiv> concat (map write_frame (jb_batch j))"
  obtains st where "n = lead c" "attempt_step cfg cs w env s = finish w j (Inr (jb_batch j)) (put_send st s)"
      "net_ok (ss_net st)" "ss_sent st = ss_sent (ws_send s) @ [(n, p)]"
      "ss_reg st = set_leader (leaders (ws_router s)) (lead c)"
    | st where "n \<noteq> lead c" "n \<in> set (dict_get_default cs c [])"
      "attempt_step cfg cs w env s =
         set_worker w (Some (j\<lparr>jb_current := None, jb_sends := Suc (jb_sends j)\<rparr>)) (put_send st s)"
      "net_ok (ss_net st)" "ss_sent st = ss_sent (ws_send s) @ [(n, p)]"
      "ss_reg st = set_leader (leaders (ws_router s)) (lead c)"
proof -
  have mem: "Some j \<in> set (ws_workers s)" using worker_jobD [OF j(1)] by (metis nth_mem)
  then have known: "job_known cs j" using inv by (simp add: delivery_inv_def)
  then have n: "n \<in> set (dict_get_default cs c [])" and ne: "jb_batch j \<noteq> []"
    using j(2) by (simp_all add: job_known_def c_def)
  have b: "c \<in> set (dict_keys cs)" "list_all encodable (jb_batch j)"
    using batch_sendable [OF inv in_flight_mem(2) [OF mem]] ne by (auto simp: c_def)
  have lc: "cluster_led cs srv lead c" using led b(1) by blast
  have env: "served_by cfg (srv n) p env" using ev j by (simp add: p_def)
  have ok: "net_ok (ss_net (send_view s))" using inv by (simp add: delivery_inv_def send_view_def)
  have ser: "serialize_batch (jb_batch j) = Inr p" using b(2) by (simp add: serialize_batch_eq list_all_iff p_def)
  show thesis
  proof (cases "n = lead c")
    case True
    then have "ms_is_leader (srv n)" using lc by (simp add: cluster_led_def Let_def)
    from attempt_at_leader [OF ok b(2) ne env [unfolded p_def] this, of "dict_get_default cs c []" "jb_time j"]
    obtain st where "send_attempt cfg (dict_get_default cs c []) (jb_batch j) (jb_time j) n env (send_view s) = (Acked, st)"
      "net_ok (ss_net st)" "ss_sent st = ss_sent (send_view s) @ [(n, p)]" "ss_reg st = set_leader (ss_reg (send_view s)) n"
      by (auto simp: p_def)
    then show thesis using that(1) [OF True, of st] j True
      by (simp add: attempt_step_def send_view_def flip: c_def)
  next
    case False
    from attempt_at_follower [OF ok ser env lc n False, of "jb_time j"] obtain net where
      "send_attempt cfg (dict_get_default cs c []) (jb_batch j) (jb_time j) n env (send_view s) =
        (Redirected, (send_view s)\<lparr>ss_net := net, ss_sent := ss_sent (send_view s) @ [(n, p)],
           ss_reg := set_leader (ss_reg (send_view s)) (lead c)\<rparr>)" "net_ok net" by blast
    then show thesis using that(2) [OF False n] j by (simp add: attempt_step_def send_view_def flip: c_def)
  qed
qed

lemma router_set_leader:
  assumes "router_set cs (ws_router s)" and "clusters_ok cs" and "cluster_led cs srv lead c"
    and "ss_reg st = set_leader (leaders (ws_router s)) (lead c)"
  shows "router_set cs (ws_router (put_send st s))"
proof -
  have "lead c \<in> set (dict_get_default cs c [])" using assms(3) by (simp add: cluster_led_def Let_def)
  then have "leaders_known cs (ss_reg st)"
    using assms(1) leader_cluster [OF assms(2,3)] by (auto simp: leaders_known_def router_set_def assms(4))
  then show ?thesis using assms(1) by (simp add: router_set_def)
qed

lemma session_attempt:
  assumes inv: "delivery_inv cfg cs lead s" and led: "\<forall>c \<in> set (dict_keys cs). cluster_led cs srv lead c"
    and ev: "event_served cfg cs srv s (Attempt w env)"
  shows "delivery_inv cfg cs lead (attempt_step cfg cs w env s)"
proof (cases "\<exists>j n. worker_job w s = Some j \<and> jb_current j = Some n")
  case False
  then have "attempt_step cfg cs w env s = s" by (auto simp: attempt_step_def split: option.splits)
  then show ?thesis using inv by simp
next
  case True
  then obtain j n where j: "worker_job w s = Some j" "jb_current j = Some n" by blast
  let ?c = "cluster_name (jb_node j)"
  have mem: "Some j \<in> set (ws_workers s)" using worker_jobD [OF j(1)] by (metis nth_mem)
  then have known: "job_known cs j" using inv by (simp add: delivery_inv_def)
  have c: "?c \<in> set (dict_keys cs)"
    using batch_sendable [OF inv in_flight_mem(2) [OF mem]] known by (auto simp: job_known_def)
  have cs: "clusters_ok cs" using inv router_set_ok by (auto simp: delivery_inv_def)
  have router: "router_set cs (ws_router s)" using inv by (simp add: delivery_inv_def)
  have lc: "cluster_led cs srv lead ?c" using led c by blast
  have lead: "cluster_name (lead d) = d" if "d \<in> set (dict_keys cs)" for d
    using leader_cluster [OF cs] led that by blast
  have con: "conserved (cf_batch_size cfg) (attempt_step cfg cs w env s)"
    using write_step_conserved [of cfg s undefined cs "Attempt w env"] inv by (simp add: delivery_inv_def)
  have before: "leader_bytes lead d s = concat (map write_frame (done_records d s))" if "d \<in> set (dict_keys cs)" for d
    using inv that unfolding delivery_inv_def by blast
  from inv led j ev show ?thesis
  proof (cases rule: attempt_served)
    case (1 st)
    let ?s = "finish w j (Inr (jb_batch j)) (put_send st s)"
    have "leader_bytes lead d ?s = concat (map write_frame (done_records d ?s))" if "d \<in> set (dict_keys cs)" for d
    proof -
      have "lead ?c = lead d \<longleftrightarrow> ?c = d" using lead c that by metis
      moreover have "leader_bytes lead d ?s = leader_bytes lead d s @
          (if n = lead d then concat (map write_frame (jb_batch j)) else [])"
        by (rule leader_bytes_snoc) (use 1(4) in simp)
      moreover have "done_records d ?s = done_records d s @ (if ?c = d then jb_batch j else [])"
        by (rule done_records_finish) simp
      ultimately show ?thesis using before [OF that] 1(1) by simp
    qed
    moreover have "router_set cs (ws_router (put_send st s))"
      by (rule router_set_leader [where lead = lead and c = ?c, OF router cs lc 1(5)])
    ultimately show ?thesis using inv con 1(3) unfolding 1(2) delivery_inv_def
      by (auto dest!: set_update_workers)
  next
    case (2 st)
    let ?j = "j\<lparr>jb_current := None, jb_sends := Suc (jb_sends j)\<rparr>"
    let ?s = "set_worker w (Some ?j) (put_send st s)"
    have "leader_bytes lead d ?s = concat (map write_frame (done_records d ?s))" if "d \<in> set (dict_keys cs)" for d
    proof -
      have "n \<noteq> lead d" using 2(1) cluster_member [OF cs 2(2)] lead [OF that] by auto
      moreover have "leader_bytes lead d ?s = leader_bytes lead d s @
          (if n = lead d then concat (map write_frame (jb_batch j)) else [])"
        by (rule leader_bytes_snoc) (use 2(5) in simp)
      ultimately show ?thesis using before [OF that] by (simp add: done_records_def)
    qed
    moreover have "router_set cs (ws_router (put_send st s))"
      by (rule router_set_leader [where lead = lead and c = ?c, OF router cs lc 2(6)])
    moreover have "job_known cs ?j" using known by (simp add: job_known_def)
    ultimately show ?thesis using inv con 2(4) unfolding 2(3) delivery_inv_def
      by (auto dest!: set_update_workers)
  qed
qed

lemma done_records_submit [simp]: "done_records c (submit_batches bs s) = done_records c s"
proof -
  have "concat (map (snd \<circ> fst) (filter P (map (\<lambda>b. (b, Inr [])) (filter (\<lambda>b. snd b = []) bs)))) = []"
    for P :: "batch \<times> db_record list res \<Rightarrow> bool"
    unfolding concat_eq_Nil_conv by force
  then show ?thesis by (simp add: done_records_def submit_batches_def del: filter_map concat_eq_Nil_conv)
qed

lemma session_call:
  assumes inv: "delivery_inv cfg cs lead s" and ev: "call_fits cs ev"
    and step: "write_step digest cfg cs s (Call ev) = Some s'"
  shows "delivery_inv cfg cs lead s' \<and> map snd (ws_accepted s') = map snd (ws_accepted s) @ written_by (Call ev)"
proof -
  let ?b = "cf_batch_size cfg"
  have c: "conserved ?b s" using inv by (simp add: delivery_inv_def)
  then have "0 < ?b" by (simp add: conserved_def buffer_well_def)
  obtain bs rt buffer where b: "buffer_step digest ?b (ws_router s, ws_buffer s) ev = Some (bs, rt, buffer)"
    and s': "s' = submit_batches bs (s\<lparr>ws_router := rt, ws_buffer := buffer,
      ws_accepted := ws_accepted s @ accepted digest (ws_router s, ws_buffer s) ev\<rparr>)"
    using step by (auto simp: call_step_def split: option.splits)
  have "router_set cs (ws_router s)" using inv by (simp add: delivery_inv_def)
  note k = buffer_step_known [OF this ev \<open>0 < ?b\<close> b]
  have "conserved ?b s'" using write_step_conserved [OF c, of digest cs "Call ev"] step by auto
  moreover have "leader_bytes lead d s' = leader_bytes lead d s" "done_records d s' = done_records d s" for d
    by (simp_all add: s' leader_bytes_def submit_batches_def) (simp_all add: done_records_def filter_map comp_def)
  moreover have "ws_router s' = rt" "ws_send s' = ws_send s" "ws_workers s' = ws_workers s"
    "ws_accepted s' = ws_accepted s @ accepted digest (ws_router s, ws_buffer s) ev"
    "ws_queue s' = ws_queue s @ filter (\<lambda>b. snd b \<noteq> []) bs"
    "ws_done s' = ws_done s @ map (\<lambda>b. (b, Inr [])) (filter (\<lambda>b. snd b = []) bs)"
    by (simp_all add: s' submit_batches_def)
  ultimately show ?thesis using inv k unfolding delivery_inv_def by auto
qed

lemma steps_accept_nothing:
  "ws_accepted (take_step w t s) = ws_accepted s" "ws_accepted (choose_step cfg cs w s) = ws_accepted s"
  "ws_accepted (attempt_step cfg cs w env s) = ws_accepted s"
  by (rule steps_keep_calls)+

lemma session_step:
  assumes inv: "delivery_inv cfg cs lead s" and led: "\<forall>c \<in> set (dict_keys cs). cluster_led cs srv lead c"
    and retries: "0 < cf_max_retries cfg" and ev: "event_served cfg cs srv s ev"
  shows "\<exists>s'. write_step digest cfg cs s ev = Some s' \<and> delivery_inv cfg cs lead s' \<and>
    map snd (ws_accepted s') = map snd (ws_accepted s) @ written_by ev"
proof (cases ev)
  case (Call e)
  have "conserved (cf_batch_size cfg) s" using inv by (simp add: delivery_inv_def)
  from write_step_conserved [OF this, of digest cs ev] obtain s' where "write_step digest cfg cs s ev = Some s'" by blast
  then show ?thesis using session_call [OF inv, of e digest s'] ev Call by auto
next
  case (Attempt w env)
  then show ?thesis using session_attempt [OF inv led] ev steps_accept_nothing by simp
qed (use session_take [OF inv] session_choose [OF inv led retries] steps_accept_nothing in simp_all)

lemma session_run:
  assumes "\<forall>c \<in> set (dict_keys cs). cluster_led cs srv lead c" and "0 < cf_max_retries cfg"
  shows "delivery_inv cfg cs lead s \<Longrightarrow> run_served digest cfg cs srv evs s \<Longrightarrow>
    \<exists>s'. write_run digest cfg cs evs s = Some s' \<and> delivery_inv cfg cs lead s' \<and>
      map snd (ws_accepted s') = map snd (ws_accepted s) @ concat (map written_by evs)"
proof (induction evs arbitrary: s)
  case (Cons ev evs)
  obtain s1 where "write_step digest cfg cs s ev = Some s1" "delivery_inv cfg cs lead s1"
    "map snd (ws_accepted s1) = map snd (ws_accepted s) @ written_by ev"
    using session_step [OF Cons.prems(1) assms, of ev digest] Cons.prems(2) by auto
  then show ?case using Cons.IH [of s1] Cons.prems(2) by auto
qed simp

section \<open>Everything that was written\<close>

lemma count_routed: "count (mset (routed_to t k)) r = count (mset t) (k, r)"
  by (induction t) auto

lemma bag_for_idle:
  assumes "idle s"
  shows "in_flight s = mset (map fst (ws_done s))"
  using assms by (auto simp: idle_def in_flight_def)

text \<open>When nothing waits, the records of the batches that are done are those accepted.\<close>

lemma idle_done:
  assumes "conserved b s" and "idle s" and "\<forall>k. pending (ws_buffer s) k = []"
  shows "mset (concat (map (\<lambda>d. snd (fst d)) (ws_done s))) = mset (map snd (ws_accepted s))"
proof -
  define pairs where "pairs = concat (map (\<lambda>d. map (Pair (fst (fst d))) (snd (fst d))) (ws_done s))"
  have routed: "routed_to pairs k = batches_of (map fst (ws_done s)) k" for k
  proof -
    have "map snd (filter (\<lambda>p. fst p = k) (map (Pair n) rs)) = (if n = k then rs else [])" for n :: "node option" and rs :: "db_record list"
      by (induction rs) auto
    then have "routed_to (concat (map (\<lambda>d. map (Pair (fst (fst d))) (snd (fst d))) ds)) k = batches_of (map fst ds) k"
      for ds :: "(batch \<times> db_record list res) list"
      by (induction ds) (auto simp: routed_to_def)
    then show ?thesis by (simp add: pairs_def)
  qed
  have "mset (batches_of (map fst (ws_done s)) k) = mset (routed_to (ws_accepted s) k)" for k
  proof -
    have "bag_for k (in_flight s) + mset (pending (ws_buffer s) k) = mset (routed_to (ws_accepted s) k)"
      using assms(1) by (simp add: conserved_def)
    then show ?thesis unfolding bag_for_idle [OF assms(2)] bag_for_mset assms(3) [rule_format] by simp
  qed
  then have "count (mset pairs) (k, r) = count (mset (ws_accepted s)) (k, r)" for k r
    unfolding count_routed [symmetric] routed by simp
  then have "mset pairs = mset (ws_accepted s)" by (intro multiset_eqI) (metis prod.collapse)
  then have "mset (map snd pairs) = mset (map snd (ws_accepted s))" by (metis mset_map)
  moreover have "map snd pairs = concat (map (\<lambda>d. snd (fst d)) (ws_done s))"
    by (simp add: pairs_def map_concat comp_def)
  ultimately show ?thesis by simp
qed

section \<open>Progress\<close>

text \<open>What a mock server answers when the whole payload arrives at once.\<close>

definition answer_env :: "mock_server \<Rightarrow> byte list \<Rightarrow> send_env" where
  "answer_env m payload = \<lparr>sv_ops = [], sv_sock = calm_env, sv_sendall = None,
     sv_events = [Chunk (case handle_write m (if ms_is_leader m then [payload] else []) of None \<Rightarrow> [] | Some ans \<Rightarrow> ans)],
     sv_ack_time = 0, sv_write_cb = None\<rparr>"

lemma mock_leader_answer:
  assumes "batch \<noteq> []" and "ms_is_leader m"
  defines "p \<equiv> concat (map write_frame batch)"
  shows "p \<noteq> []" and "handle_write m [p] = Some (replicate (length batch) 0)"
    and "stream_bytes (sv_events (answer_env m p)) = replicate (length batch) 0"
proof -
  have "length p = 33 * length batch" by (simp add: length_concat_frames p_def)
  then show ne: "p \<noteq> []" using assms(1) by (metis length_0_conv mult_eq_0_iff zero_neq_numeral)
  then have "serve_writes [] [p] [] = Some ([] @ replicate (length (map write_frame batch)) 0)"
    using write_frame_message unfolding p_def by (intro serve_writes_acks) (auto simp: message_cut_def)
  then show ans: "handle_write m [p] = Some (replicate (length batch) 0)"
    using assms(2) by (simp add: handle_write_def del: serve_writes.simps)
  show "stream_bytes (sv_events (answer_env m p)) = replicate (length batch) 0"
    using ans assms(1,2) by (simp add: answer_env_def)
qed

lemma answer_env_serves:
  assumes "batch \<noteq> []"
  shows "served_by cfg m (concat (map write_frame batch)) (answer_env m (concat (map write_frame batch)))"
proof (cases "ms_is_leader m")
  case False
  then show ?thesis by (simp add: served_by_def answer_env_def handle_write_def callback_ok_def calm_env_def)
next
  case True
  let ?p = "concat (map write_frame batch)"
  have "se_connect (sv_sock (answer_env m ?p)) a = None" "sv_sendall (answer_env m ?p) = None"
    "callback_ok cfg (answer_env m ?p)" for a
    by (simp_all add: answer_env_def callback_ok_def calm_env_def)
  then show ?thesis using mock_leader_answer [OF assms True] True
    unfolding served_by_def by (simp only: if_True) (intro conjI allI exI [of _ "[?p]"], simp_all)
qed

text \<open>Steps of the workers only: the calls, the buffer and the queue stay.\<close>

definition works ::
  "client_config \<Rightarrow> clusters \<Rightarrow> (node \<Rightarrow> mock_server) \<Rightarrow> (string \<Rightarrow> node) \<Rightarrow> write_system \<Rightarrow> write_system \<Rightarrow> bool" where
  "works cfg cs srv lead s s' \<longleftrightarrow> (\<exists>evs. (\<forall>digest. run_served digest cfg cs srv evs s \<and> write_run digest cfg cs evs s = Some s') \<and>
     concat (map written_by evs) = []) \<and> delivery_inv cfg cs lead s' \<and> ws_buffer s' = ws_buffer s"

lemma run_served_append:
  "write_run digest cfg cs evs s = Some s1 \<Longrightarrow> run_served digest cfg cs srv (evs @ evs') s \<longleftrightarrow>
     run_served digest cfg cs srv evs s \<and> run_served digest cfg cs srv evs' s1"
  by (induction evs arbitrary: s) (auto split: option.splits)

lemma write_run_append:
  "write_run digest cfg cs (evs @ evs') s =
     (case write_run digest cfg cs evs s of None \<Rightarrow> None | Some s1 \<Rightarrow> write_run digest cfg cs evs' s1)"
  by (induction evs arbitrary: s) (auto split: option.splits)

lemma works_trans: "works cfg cs srv lead s s1 \<Longrightarrow> works cfg cs srv lead s1 s2 \<Longrightarrow> works cfg cs srv lead s s2"
proof -
  assume a: "works cfg cs srv lead s s1" and b: "works cfg cs srv lead s1 s2"
  obtain evs where e: "\<And>digest. run_served digest cfg cs srv evs s \<and> write_run digest cfg cs evs s = Some s1"
    "concat (map written_by evs) = []" using a unfolding works_def by blast
  obtain evs' where e': "\<And>digest. run_served digest cfg cs srv evs' s1 \<and> write_run digest cfg cs evs' s1 = Some s2"
    "concat (map written_by evs') = []" using b unfolding works_def by blast
  have "run_served digest cfg cs srv (evs @ evs') s \<and> write_run digest cfg cs (evs @ evs') s = Some s2" for digest
    using e(1) e'(1) by (simp add: run_served_append write_run_append)
  then show ?thesis using a b e(2) e'(2) unfolding works_def by (intro conjI exI [of _ "evs @ evs'"]) auto
qed

lemma works_step:
  assumes "delivery_inv cfg cs lead s" and "\<forall>c \<in> set (dict_keys cs). cluster_led cs srv lead c" and "0 < cf_max_retries cfg"
    and "event_served cfg cs srv s ev" and "\<And>digest. write_step digest cfg cs s ev = Some s'"
    and "written_by ev = []" and "ws_buffer s' = ws_buffer s"
  shows "works cfg cs srv lead s s'"
proof -
  have "delivery_inv cfg cs lead s'" using session_step [OF assms(1-4)] assms(5) by fastforce
  then show ?thesis using assms(4-7) unfolding works_def by (intro conjI exI [of _ "[ev]"]) auto
qed

text \<open>A worker about to choose, and one that has chosen.\<close>

lemma works_choose:
  assumes inv: "delivery_inv cfg cs lead s" and led: "\<forall>c \<in> set (dict_keys cs). cluster_led cs srv lead c"
    and retries: "0 < cf_max_retries cfg" and j: "worker_job w s = Some j" "jb_current j = None"
  defines "c \<equiv> cluster_name (jb_node j)"
  shows "\<exists>n. works cfg cs srv lead s (set_worker w (Some (j\<lparr>jb_current := Some n\<rparr>)) s) \<and>
    (get_leader (leaders (ws_router s)) c = Some (lead c) \<longrightarrow> n = lead c)"
proof -
  have mem: "Some j \<in> set (ws_workers s)" using worker_jobD [OF j(1)] by (metis nth_mem)
  then have known: "job_known cs j" using inv by (simp add: delivery_inv_def)
  then have "c \<in> set (dict_keys cs)"
    using batch_sendable [OF inv in_flight_mem(2) [OF mem]] by (auto simp: job_known_def c_def)
  then have "dict_get_default cs c [] \<noteq> []" using led by (auto simp: cluster_led_def Let_def)
  then obtain n where n: "choose_node (leaders (ws_router s)) c (dict_get_default cs c []) 0 = Inr n"
    using choose_node_some by blast
  have step: "choose_step cfg cs w s = set_worker w (Some (j\<lparr>jb_current := Some n\<rparr>)) s"
    using j known n retries by (simp add: choose_step_def job_known_def c_def)
  have "works cfg cs srv lead s (set_worker w (Some (j\<lparr>jb_current := Some n\<rparr>)) s)"
    by (rule works_step [where ev = "Choose w", OF inv led retries]) (simp_all add: step)
  then show ?thesis using n by (intro exI [of _ n]) (auto simp: choose_node_def)
qed

lemma works_attempt:
  assumes inv: "delivery_inv cfg cs lead s" and led: "\<forall>c \<in> set (dict_keys cs). cluster_led cs srv lead c"
    and retries: "0 < cf_max_retries cfg" and j: "worker_job w s = Some j" "jb_current j = Some n"
  defines "c \<equiv> cluster_name (jb_node j)"
  shows "\<exists>s'. works cfg cs srv lead s s' \<and> ws_queue s' = ws_queue s \<and>
    (if n = lead c then ws_workers s' = (ws_workers s)[w := None]
     else get_leader (leaders (ws_router s')) c = Some (lead c) \<and>
       ws_workers s' = (ws_workers s)[w := Some (j\<lparr>jb_current := None, jb_sends := Suc (jb_sends j)\<rparr>)])"
proof -
  let ?env = "answer_env (srv n) (concat (map write_frame (jb_batch j)))"
  have mem: "Some j \<in> set (ws_workers s)" using worker_jobD [OF j(1)] by (metis nth_mem)
  then have known: "job_known cs j" using inv by (simp add: delivery_inv_def)
  then have c: "c \<in> set (dict_keys cs)"
    using batch_sendable [OF inv in_flight_mem(2) [OF mem]] by (auto simp: job_known_def c_def)
  have cs: "clusters_ok cs" using inv router_set_ok by (auto simp: delivery_inv_def)
  have lead: "cluster_name (lead c) = c" using leader_cluster [OF cs] led c by blast
  have ev: "event_served cfg cs srv s (Attempt w ?env)"
    using answer_env_serves [of "jb_batch j" cfg "srv n"] known j by (simp add: job_known_def)
  have works: "works cfg cs srv lead s (attempt_step cfg cs w ?env s)"
    by (rule works_step [where ev = "Attempt w ?env", OF inv led retries ev]) (simp_all add: steps_keep_calls)
  from inv led j ev show ?thesis
  proof (cases rule: attempt_served)
    case (1 st)
    then show ?thesis using works by (intro exI [of _ "attempt_step cfg cs w ?env s"]) (simp add: c_def)
  next
    case (2 st)
    then show ?thesis using works lead by (intro exI [of _ "attempt_step cfg cs w ?env s"]) (simp add: c_def)
  qed
qed

text \<open>So a worker can always finish its job, in at most two attempts.\<close>

lemma works_inv: "works cfg cs srv lead s s' \<Longrightarrow> delivery_inv cfg cs lead s'"
  by (simp add: works_def)

definition frees :: "client_config \<Rightarrow> clusters \<Rightarrow> (node \<Rightarrow> mock_server) \<Rightarrow> (string \<Rightarrow> node) \<Rightarrow> nat \<Rightarrow> write_system \<Rightarrow> bool" where
  "frees cfg cs srv lead w s \<longleftrightarrow> (\<exists>s'. works cfg cs srv lead s s' \<and> ws_queue s' = ws_queue s \<and>
     ws_workers s' = (ws_workers s)[w := None])"

lemma frees_trans:
  assumes "works cfg cs srv lead s s1" and "ws_queue s1 = ws_queue s" and "ws_workers s1 = (ws_workers s)[w := j]"
    and "frees cfg cs srv lead w s1"
  shows "frees cfg cs srv lead w s"
  using assms works_trans unfolding frees_def by (metis list_update_overwrite)

lemma frees_job:
  assumes inv: "delivery_inv cfg cs lead s" and led: "\<forall>c \<in> set (dict_keys cs). cluster_led cs srv lead c"
    and retries: "0 < cf_max_retries cfg" and j: "worker_job w s = Some j"
  shows "frees cfg cs srv lead w s"
proof -
  note w = worker_jobD [OF j]
  have at_leader: "frees cfg cs srv lead w s"
    if "delivery_inv cfg cs lead s" "worker_job w s = Some j" "jb_current j = Some (lead (cluster_name (jb_node j)))" for s j
    using works_attempt [OF that(1) led retries that(2,3)] by (auto simp: frees_def)
  have chooses_leader: "frees cfg cs srv lead w s"
    if i: "delivery_inv cfg cs lead s" and x: "worker_job w s = Some x" "jb_current x = None"
      "get_leader (leaders (ws_router s)) (cluster_name (jb_node x)) = Some (lead (cluster_name (jb_node x)))" for s x
  proof -
    let ?x = "x\<lparr>jb_current := Some (lead (cluster_name (jb_node x)))\<rparr>"
    let ?s = "set_worker w (Some ?x) s"
    have wk: "works cfg cs srv lead s ?s" using works_choose [OF i led retries x(1,2)] x(3) by auto
    have "worker_job w ?s = Some ?x" using worker_jobD [OF x(1)] by (simp add: worker_job_def)
    then have "frees cfg cs srv lead w ?s" using at_leader [OF works_inv [OF wk]] by simp
    then show ?thesis by (rule frees_trans [OF wk, rotated 2]) simp_all
  qed
  have chosen: "frees cfg cs srv lead w s"
    if i: "delivery_inv cfg cs lead s" and x: "worker_job w s = Some x" "jb_current x = Some n" for s x n
  proof (cases "n = lead (cluster_name (jb_node x))")
    case False
    let ?x = "x\<lparr>jb_current := None, jb_sends := Suc (jb_sends x)\<rparr>"
    obtain s1 where s1: "works cfg cs srv lead s s1" "ws_queue s1 = ws_queue s"
      "get_leader (leaders (ws_router s1)) (cluster_name (jb_node x)) = Some (lead (cluster_name (jb_node x)))"
      "ws_workers s1 = (ws_workers s)[w := Some ?x]"
      using works_attempt [OF i led retries x] False by auto
    have "worker_job w s1 = Some ?x" using worker_jobD [OF x(1)] s1(4) by (simp add: worker_job_def)
    then have "frees cfg cs srv lead w s1" using chooses_leader [OF works_inv [OF s1(1)]] s1(3) by simp
    then show ?thesis by (rule frees_trans [OF s1(1,2,4)])
  qed (use at_leader [OF i x(1)] x(2) in simp)
  show ?thesis
  proof (cases "jb_current j")
    case None
    obtain n where wk: "works cfg cs srv lead s (set_worker w (Some (j\<lparr>jb_current := Some n\<rparr>)) s)"
      using works_choose [OF inv led retries j None] by blast
    have "worker_job w (set_worker w (Some (j\<lparr>jb_current := Some n\<rparr>)) s) = Some (j\<lparr>jb_current := Some n\<rparr>)"
      using w by (simp add: worker_job_def)
    then have "frees cfg cs srv lead w (set_worker w (Some (j\<lparr>jb_current := Some n\<rparr>)) s)"
      using chosen [OF works_inv [OF wk]] by simp
    then show ?thesis by (rule frees_trans [OF wk, rotated 2]) simp_all
  qed (use chosen [OF inv j] in blast)
qed

definition busy :: "write_system \<Rightarrow> nat" where
  "busy s = length (ws_queue s) + length (filter (\<lambda>j. j \<noteq> None) (ws_workers s))"

lemma filter_update:
  assumes "w < length xs"
  shows "length (filter P (xs[w := x])) + (if P (xs ! w) then 1 else 0) =
     length (filter P xs) + (if P x then 1 else 0)"
proof -
  let ?pre = "take w xs" and ?post = "drop (Suc w) xs"
  have cnt: "length (filter P (?pre @ y # ?post)) = length (filter P (?pre @ ?post)) + (if P y then 1 else 0)" for y
    by simp
  show ?thesis
    using cnt [of "xs ! w", folded id_take_nth_drop [OF assms]] cnt [of x, folded upd_conv_take_nth_drop [OF assms]]
    by simp
qed

lemma works_to_idle:
  assumes led: "\<forall>c \<in> set (dict_keys cs). cluster_led cs srv lead c" and retries: "0 < cf_max_retries cfg"
  shows "delivery_inv cfg cs lead s \<Longrightarrow> ws_workers s \<noteq> [] \<Longrightarrow> \<exists>s'. works cfg cs srv lead s s' \<and> idle s'"
proof (induction "busy s" arbitrary: s rule: less_induct)
  case less
  have goes_on: ?case if "works cfg cs srv lead s s1" "busy s1 < busy s" "ws_workers s1 \<noteq> []" for s1
    using less.hyps [OF that(2) works_inv [OF that(1)] that(3)] works_trans [OF that(1)] by blast
  show ?case
  proof (cases "\<exists>w j. worker_job w s = Some j")
    case True
    then obtain w j where j: "worker_job w s = Some j" by blast
    obtain s1 where s1: "works cfg cs srv lead s s1" "ws_queue s1 = ws_queue s" "ws_workers s1 = (ws_workers s)[w := None]"
      using frees_job [OF less.prems(1) led retries j] by (auto simp: frees_def)
    have "busy s1 < busy s"
      using filter_update [of w "ws_workers s" "\<lambda>j. j \<noteq> None" None] worker_jobD [OF j] s1(2,3) by (simp add: busy_def)
    then show ?thesis using goes_on [OF s1(1)] less.prems(2) s1(3) by simp
  next
    case False
    then have none: "\<forall>j \<in> set (ws_workers s). j = None"
      by (metis in_set_conv_nth not_None_eq worker_job_def)
    show ?thesis
    proof (cases "ws_queue s")
      case Nil
      then have "idle s" using none by (simp add: idle_def)
      moreover have "works cfg cs srv lead s s"
        using less.prems(1) unfolding works_def by (intro conjI exI [of _ "[]"]) simp_all
      ultimately show ?thesis by blast
    next
      case (Cons b queue)
      have w: "0 < length (ws_workers s)" "ws_workers s ! 0 = None" using less.prems(2) none by simp_all
      have "b \<in> set (ws_queue s)" "snd b \<noteq> []" using Cons less.prems(1) by (simp_all add: delivery_inv_def)
      then obtain n where n: "fst b = Some n"
        using batch_sendable [OF less.prems(1) in_flight_mem(1)] by blast
      let ?j = "\<lparr>jb_node = n, jb_batch = snd b, jb_time = 0, jb_retries = 0, jb_current = None, jb_sends = 0\<rparr>"
      let ?s = "set_worker 0 (Some ?j) (s\<lparr>ws_queue := queue\<rparr>)"
      have step: "take_step 0 0 s = ?s" using w Cons n by (cases b) (simp add: take_step_def)
      have wk: "works cfg cs srv lead s ?s"
        by (rule works_step [where ev = "Take 0 0", OF less.prems(1) led retries]) (simp_all add: step)
      have "worker_job 0 ?s = Some ?j" using w by (simp add: worker_job_def)
      from frees_job [OF works_inv [OF wk] led retries this] obtain s1 where
        s1: "works cfg cs srv lead ?s s1" "ws_queue s1 = queue" "ws_workers s1 = (ws_workers s)[0 := None]"
        by (auto simp: frees_def)
      have "busy s1 < busy s"
        using filter_update [of 0 "ws_workers s" "\<lambda>j. j \<noteq> None" None] w s1(2,3) Cons by (simp add: busy_def)
      then show ?thesis using goes_on [OF works_trans [OF wk s1(1)]] less.prems(2) s1(3) by simp
    qed
  qed
qed

lemma write_run_workers:
  "write_run digest cfg cs evs s = Some s' \<Longrightarrow> length (ws_workers s') = length (ws_workers s)"
proof (induction evs arbitrary: s)
  case (Cons ev evs)
  obtain s1 where s1: "write_step digest cfg cs s ev = Some s1" "write_run digest cfg cs evs s1 = Some s'"
    using Cons.prems by (auto split: option.splits)
  have "length (ws_workers s1) = length (ws_workers s)"
    using s1(1) by (cases ev) (auto simp: call_step_def submit_batches_def take_step_def choose_step_def
        attempt_step_def Let_def split: option.splits list.splits sum.splits prod.splits attempt.splits)
  then show ?case using Cons.IH [OF s1(2)] by simp
qed simp

section \<open>How often a batch is sent\<close>

text \<open>While no other thread touches the registry, a job that was redirected goes to the leader next.\<close>

definition job_sends :: "write_job option \<Rightarrow> nat" where
  "job_sends j = (case j of None \<Rightarrow> 0 | Some j \<Rightarrow> jb_sends j)"

definition job_settled :: "(string \<Rightarrow> node) \<Rightarrow> registry \<Rightarrow> write_job \<Rightarrow> bool" where
  "job_settled lead reg j \<longleftrightarrow> jb_sends j = 0 \<or>
     jb_sends j = 1 \<and> get_leader reg (cluster_name (jb_node j)) = Some (lead (cluster_name (jb_node j))) \<and>
     (\<forall>n. jb_current j = Some n \<longrightarrow> n = lead (cluster_name (jb_node j)))"

definition sends_inv :: "(string \<Rightarrow> node) \<Rightarrow> write_system \<Rightarrow> bool" where
  "sends_inv lead s \<longleftrightarrow> (\<forall>j. Some j \<in> set (ws_workers s) \<longrightarrow> job_settled lead (leaders (ws_router s)) j) \<and>
     length (ss_sent (ws_send s)) \<le> 2 * length (ws_done s) + sum_list (map job_sends (ws_workers s))"

lemma sends_update:
  assumes "w < length ws"
  shows "sum_list (map job_sends (ws[w := x])) + job_sends (ws ! w) = sum_list (map job_sends ws) + job_sends x"
proof -
  have w: "w < length (map job_sends ws)" using assms by simp
  have "job_sends (ws ! w) \<le> sum_list (map job_sends ws)"
    using elem_le_sum_list [OF w] assms by simp
  then show ?thesis using sum_list_update [OF w, of "job_sends x"] assms by (simp add: map_update)
qed

lemma settled_set_leader:
  assumes "job_settled lead reg j" and "cluster_name (lead c) = c"
  shows "job_settled lead (set_leader reg (lead c)) j"
  using assms by (auto simp: job_settled_def)

definition no_leader_op :: "write_event \<Rightarrow> bool" where
  "no_leader_op ev = (case ev of Call (LeaderOp op) \<Rightarrow> False | _ \<Rightarrow> True)"

lemma sends_attempt:
  assumes inv: "delivery_inv cfg cs lead s" and led: "\<forall>c \<in> set (dict_keys cs). cluster_led cs srv lead c"
    and ev: "event_served cfg cs srv s (Attempt w env)" and sends: "sends_inv lead s"
  shows "sends_inv lead (attempt_step cfg cs w env s)"
proof (cases "\<exists>j n. worker_job w s = Some j \<and> jb_current j = Some n")
  case False
  then have "attempt_step cfg cs w env s = s" by (auto simp: attempt_step_def split: option.splits)
  then show ?thesis using sends by simp
next
  case True
  then obtain j n where j: "worker_job w s = Some j" "jb_current j = Some n" by blast
  let ?c = "cluster_name (jb_node j)"
  note w = worker_jobD [OF j(1)]
  have mem: "Some j \<in> set (ws_workers s)" using w by (metis nth_mem)
  then have known: "job_known cs j" using inv by (simp add: delivery_inv_def)
  have c: "?c \<in> set (dict_keys cs)"
    using batch_sendable [OF inv in_flight_mem(2) [OF mem]] known by (auto simp: job_known_def)
  have cs: "clusters_ok cs" using inv router_set_ok by (auto simp: delivery_inv_def)
  have lead: "cluster_name (lead ?c) = ?c" using leader_cluster [OF cs] led c by blast
  have set: "\<forall>j. Some j \<in> set (ws_workers s) \<longrightarrow> job_settled lead (leaders (ws_router s)) j"
    and len: "length (ss_sent (ws_send s)) \<le> 2 * length (ws_done s) + sum_list (map job_sends (ws_workers s))"
    using sends by (simp_all add: sends_inv_def)
  have set': "job_settled lead (set_leader (leaders (ws_router s)) (lead ?c)) x" if "Some x \<in> set (ws_workers s)" for x
    using settled_set_leader [where lead = lead and c = ?c, OF _ lead] set that by blast
  have jset: "job_settled lead (leaders (ws_router s)) j" using set mem by blast
  from inv led j ev show ?thesis
  proof (cases rule: attempt_served)
    case (1 st)
    have "job_sends (Some j) \<le> 1" using jset by (auto simp: job_settled_def job_sends_def)
    then show ?thesis using sends_update [of w "ws_workers s" None] w len 1(4) set' unfolding 1(2) sends_inv_def 
      by (auto simp: 1(5) job_sends_def dest!: set_update_workers)
  next
    case (2 st)
    let ?j = "j\<lparr>jb_current := None, jb_sends := Suc (jb_sends j)\<rparr>"
    have zero: "jb_sends j = 0" using jset j(2) 2(1) by (auto simp: job_settled_def)
    then have "job_settled lead (set_leader (leaders (ws_router s)) (lead ?c)) ?j"
      using lead by (simp add: job_settled_def)
    then show ?thesis using sends_update [of w "ws_workers s" "Some ?j"] w len 2(5) set' zero unfolding 2(3) sends_inv_def
      by (auto simp: 2(6) job_sends_def dest!: set_update_workers)
  qed
qed

lemma sends_step:
  assumes inv: "delivery_inv cfg cs lead s" and led: "\<forall>c \<in> set (dict_keys cs). cluster_led cs srv lead c"
    and retries: "0 < cf_max_retries cfg" and ev: "event_served cfg cs srv s ev" "no_leader_op ev"
    and sends: "sends_inv lead s" and step: "write_step digest cfg cs s ev = Some s'"
  shows "sends_inv lead s'"
proof (cases ev)
  case (Call e)
  have "0 < cf_batch_size cfg" using inv by (simp add: delivery_inv_def conserved_def buffer_well_def)
  obtain bs rt buffer where b: "buffer_step digest (cf_batch_size cfg) (ws_router s, ws_buffer s) e = Some (bs, rt, buffer)"
    and s': "s' = submit_batches bs (s\<lparr>ws_router := rt, ws_buffer := buffer,
      ws_accepted := ws_accepted s @ accepted digest (ws_router s, ws_buffer s) e\<rparr>)"
    using step Call by (auto simp: call_step_def split: option.splits)
  have "router_set cs (ws_router s)" using inv by (simp add: delivery_inv_def)
  from buffer_step_known [OF this _ \<open>0 < cf_batch_size cfg\<close> b] have "leaders rt = leaders (ws_router s)"
    using ev Call by (auto simp: no_leader_op_def split: buffer_event.splits)
  then show ?thesis using sends by (simp add: s' sends_inv_def submit_batches_def)
next
  case (Take w t)
  then have s': "s' = take_step w t s" using step by simp
  have new: "job_settled lead reg \<lparr>jb_node = n, jb_batch = b, jb_time = t, jb_retries = 0, jb_current = None, jb_sends = 0\<rparr>"
    for reg n b by (simp add: job_settled_def)
  have "sends_inv lead (set_worker w (Some \<lparr>jb_node = n, jb_batch = b, jb_time = t, jb_retries = 0, jb_current = None,
      jb_sends = 0\<rparr>) (s\<lparr>ws_queue := q\<rparr>))" if "w < length (ws_workers s)" "ws_workers s ! w = None" for n b q
    using sends_update [OF that(1), of "Some \<lparr>jb_node = n, jb_batch = b, jb_time = t, jb_retries = 0,
        jb_current = None, jb_sends = 0\<rparr>"] that(2) sends new
    by (auto simp: sends_inv_def job_sends_def dest!: set_update_workers)
  moreover have "sends_inv lead (s\<lparr>ws_queue := q, ws_done := ws_done s @ [d]\<rparr>)" for q d
    using sends by (simp add: sends_inv_def)
  ultimately show ?thesis using sends unfolding s' by (auto simp: take_step_def Let_def split: list.splits option.splits)
next
  case (Choose w)
  then have s': "s' = choose_step cfg cs w s" using step by simp
  show ?thesis
  proof (cases "\<exists>j. worker_job w s = Some j \<and> jb_current j = None")
    case False
    then show ?thesis using sends by (auto simp: s' choose_step_def split: option.splits)
  next
    case True
    then obtain j where j: "worker_job w s = Some j" "jb_current j = None" by blast
    note w = worker_jobD [OF j(1)]
    have mem: "Some j \<in> set (ws_workers s)" using w by (metis nth_mem)
    have jset: "job_settled lead (leaders (ws_router s)) j" using sends mem by (simp add: sends_inv_def)
    have fin: "sends_inv lead (finish w j r s)" for r
      using sends_update [of w "ws_workers s" None] w sends jset
      by (auto simp: sends_inv_def job_sends_def job_settled_def dest!: set_update_workers)
    have "sends_inv lead (set_worker w (Some (j\<lparr>jb_current := Some n\<rparr>)) s)"
      if "choose_node (leaders (ws_router s)) (cluster_name (jb_node j)) ns (jb_retries j) = Inr n" for ns n
    proof -
      have "job_settled lead (leaders (ws_router s)) (j\<lparr>jb_current := Some n\<rparr>)"
        using jset that by (auto simp: job_settled_def choose_node_def)
      then show ?thesis using sends_update [of w "ws_workers s" "Some (j\<lparr>jb_current := Some n\<rparr>)"] w sends
        by (auto simp: sends_inv_def job_sends_def dest!: set_update_workers)
    qed
    then show ?thesis using j fin by (auto simp: s' choose_step_def split: sum.splits)
  qed
next
  case (Attempt w env)
  then show ?thesis using sends_attempt [OF inv led ev(1) [unfolded Attempt] sends] step by simp
qed

lemma sends_run:
  assumes "\<forall>c \<in> set (dict_keys cs). cluster_led cs srv lead c" and "0 < cf_max_retries cfg"
  shows "delivery_inv cfg cs lead s \<Longrightarrow> sends_inv lead s \<Longrightarrow> run_served digest cfg cs srv evs s \<Longrightarrow>
    list_all no_leader_op evs \<Longrightarrow> write_run digest cfg cs evs s = Some s' \<Longrightarrow> sends_inv lead s'"
proof (induction evs arbitrary: s)
  case (Cons ev evs)
  obtain s1 where s1: "write_step digest cfg cs s ev = Some s1" "delivery_inv cfg cs lead s1"
    using session_step [OF Cons.prems(1) assms, of ev digest] Cons.prems(3) by auto
  have "sends_inv lead s1"
    using sends_step [OF Cons.prems(1) assms _ _ Cons.prems(2) s1(1)] Cons.prems(3,4) by simp
  then show ?case using Cons.IH [OF s1(2)] Cons.prems(3-5) s1(1) by simp
qed simp

end
