(* ===== verification/Write_Delivery.thy ===== *)
theory Write_Delivery
  imports Write_Session
begin

text \<open>
  The properties of the write side with concurrent workers, each with a run of a client and a cluster
  of two mock servers as witness.
\<close>

section \<open>Where a session starts\<close>

definition session_start :: "client_config \<Rightarrow> clusters \<Rightarrow> (node \<Rightarrow> mock_server) \<Rightarrow> (string \<Rightarrow> node) \<Rightarrow> router \<Rightarrow> net \<Rightarrow> bool" where
  "session_start cfg cs srv lead rt net \<longleftrightarrow> 0 < cf_batch_size cfg \<and> 0 < cf_max_retries cfg \<and>
     router_set cs rt \<and> net_ok net \<and> (\<forall>c \<in> set (dict_keys cs). cluster_led cs srv lead c)"

lemma session_new:
  assumes "session_start cfg cs srv lead rt net"
  shows "delivery_inv cfg cs lead (new_system pool_size rt net)" and "sends_inv lead (new_system pool_size rt net)"
proof -
  have "conserved (cf_batch_size cfg) (new_system pool_size rt net)"
    using assms by (intro conserved_new) (simp add: session_start_def)
  then show "delivery_inv cfg cs lead (new_system pool_size rt net)"
    using assms by (simp add: delivery_inv_def session_start_def) (simp add: new_system_def leader_bytes_def done_records_def)
  show "sends_inv lead (new_system pool_size rt net)" by (simp add: sends_inv_def new_system_def)
qed

text \<open>What an idle system with an empty buffer has delivered, given all records written.\<close>

definition delivered_all :: "clusters \<Rightarrow> (string \<Rightarrow> node) \<Rightarrow> db_record list \<Rightarrow> write_system \<Rightarrow> bool" where
  "delivered_all cs lead written s \<longleftrightarrow>
     mset (concat (map (\<lambda>d. snd (fst d)) (ws_done s))) = mset written \<and>
     (\<forall>d \<in> set (ws_done s). snd d = Inr (snd (fst d))) \<and>
     (\<forall>c \<in> set (dict_keys cs). leader_bytes lead c s = concat (map write_frame (done_records c s)))"

lemma session_delivered:
  assumes "delivery_inv cfg cs lead s" and "idle s" and "\<forall>k. pending (ws_buffer s) k = []"
    and "map snd (ws_accepted s) = written"
  shows "delivered_all cs lead written s"
  using assms idle_done [of "cf_batch_size cfg" s] by (simp add: delivery_inv_def delivered_all_def)

section \<open>A concrete run\<close>

definition demo_first_node :: node where
  "demo_first_node = \<lparr>cluster_name = ''c'', node_id = 1, host = ''h'', port = 8000\<rparr>"

definition demo_lead :: "string \<Rightarrow> node" where
  "demo_lead c = \<lparr>cluster_name = ''c'', node_id = 2, host = ''h'', port = 8100\<rparr>"

definition demo_pair :: clusters where
  "demo_pair = [(''c'', [demo_first_node, demo_lead ''c''])]"

definition demo_srv :: "node \<Rightarrow> mock_server" where
  "demo_srv n = \<lparr>ms_write_port = port n, ms_leader_id = 2, ms_is_leader = (node_id n = 2)\<rparr>"

definition demo_rt :: router where
  "demo_rt = update_topology (new_router (LeaderRouting new_base)) demo_pair"

definition demo_writer :: client_config where
  "demo_writer = \<lparr>cf_batch_size = 2, cf_max_retries = 3, cf_has_write_cb = True\<rparr>"

definition demo_two :: "db_record list" where
  "demo_two = [\<lparr>key_id = 5, timestamp = 6, content = CInt 7\<rparr>, \<lparr>key_id = 8, timestamp = 9, content = CInt 10\<rparr>]"

lemma demo_writing: "session_start demo_writer demo_pair demo_srv demo_lead demo_rt empty_net"
proof -
  have len: "length (redirect_msg (demo_srv demo_first_node)) \<le> 256"
    by (simp add: redirect_msg_def demo_srv_def demo_first_node_def ascii_def show_int_def digits_of.simps)
  have top: "topology_ok demo_pair"
    by (simp add: topology_ok_def clusters_ok_def dict_ok_def demo_pair_def demo_first_node_def demo_lead_def)
  have "leaders_known demo_pair empty_registry" by (simp add: leaders_known_def)
  then show ?thesis using len top
    by (simp add: session_start_def demo_writer_def router_set_def demo_rt_def update_topology_def new_router_def
        cluster_led_def Let_def)
      (simp add: demo_pair_def dict_get_default_def demo_first_node_def demo_lead_def demo_srv_def)
qed

text \<open>The first worker takes a full batch and chooses the first node, which is a follower.\<close>

definition demo_steps :: "write_event list" where
  "demo_steps = [Call (WriteCall demo_two), Take 0 0, Choose 0,
     Attempt 0 (answer_env (demo_srv demo_first_node) (concat (map write_frame demo_two)))]"

lemma demo_encodable: "list_all encodable demo_two"
  by (simp add: demo_two_def encodable_def is_u64_def)

lemma demo_buffered:
  "map_option (\<lambda>(bs, rt, buffer). (bs, get_leader (leaders rt) ''c'')) (buffer_step (\<lambda>_. []) 2 (demo_rt, []) (WriteCall demo_two)) =
     Some ([(Some demo_first_node, demo_two)], None)"
proof -
  have "map_prod (map_sum id id) (\<lambda>rt. get_leader (leaders rt) ''c'') (route_records (\<lambda>_. []) demo_rt demo_two []) =
      (Inr [(Some demo_first_node, demo_two)], None)"
    by code_simp
  then obtain rt where r: "route_records (\<lambda>_. []) demo_rt demo_two [] = (Inr [(Some demo_first_node, demo_two)], rt)"
    "get_leader (leaders rt) ''c'' = None"
    by (cases "route_records (\<lambda>_. []) demo_rt demo_two []") (auto simp: sum.map_id0)
  have "cut_batches 2 demo_two [] = Some ([], [demo_two])"
    by (simp add: cut_batches.simps demo_two_def py_take_nonneg py_drop_nonneg)
  then show ?thesis using r by (simp add: write_records_def dict_get_default_def)
qed

lemma demo_chosen:
  "\<exists>s j. write_run (\<lambda>_. []) demo_writer demo_pair (take 3 demo_steps) (new_system 1 demo_rt empty_net) = Some s \<and>
     worker_job 0 s = Some j \<and> jb_current j = Some demo_first_node \<and> jb_batch j = demo_two"
proof -
  obtain rt buffer where b: "buffer_step (\<lambda>_. []) 2 (demo_rt, []) (WriteCall demo_two) =
      Some ([(Some demo_first_node, demo_two)], rt, buffer)" "get_leader (leaders rt) ''c'' = None"
    using demo_buffered by (auto simp del: buffer_step.simps)
  have two: "demo_two \<noteq> []" by (simp add: demo_two_def)
  have "choose_node (leaders rt) (cluster_name demo_first_node) (dict_get_default demo_pair ''c'' []) 0 = Inr demo_first_node"
    using b(2) by (simp add: choose_node_def demo_pair_def dict_get_default_def py_index_def demo_first_node_def)
  then show ?thesis using b(1) two
    by (simp add: demo_steps_def call_step_def new_system_def demo_writer_def submit_batches_def take_step_def
        choose_step_def worker_job_def set_worker_def demo_first_node_def del: buffer_step.simps accepted.simps)
qed

lemma demo_served:
  "run_served (\<lambda>_. []) demo_writer demo_pair demo_srv demo_steps (new_system 1 demo_rt empty_net)"
proof -
  let ?env = "answer_env (demo_srv demo_first_node) (concat (map write_frame demo_two))"
  obtain s j where s: "write_run (\<lambda>_. []) demo_writer demo_pair (take 3 demo_steps) (new_system 1 demo_rt empty_net) = Some s"
    "worker_job 0 s = Some j" "jb_current j = Some demo_first_node" "jb_batch j = demo_two"
    using demo_chosen by blast
  have split: "demo_steps = take 3 demo_steps @ [Attempt 0 ?env]" by (simp add: demo_steps_def)
  have "event_served demo_writer demo_pair demo_srv s (Attempt 0 ?env)"
    using s(2-4) answer_env_serves [of demo_two] by (simp add: demo_two_def)
  then have "run_served (\<lambda>_. []) demo_writer demo_pair demo_srv [Attempt 0 ?env] s" by (simp split: option.splits)
  moreover have "run_served (\<lambda>_. []) demo_writer demo_pair demo_srv (take 3 demo_steps) (new_system 1 demo_rt empty_net)"
    using demo_encodable by (simp add: demo_steps_def split: option.splits)
  ultimately show ?thesis by (subst split) (simp only: run_served_append [OF s(1)])
qed

section \<open>Properties\<close>








definition demo_job :: write_job where
  "demo_job = \<lparr>jb_node = demo_first_node, jb_batch = demo_two, jb_time = 0, jb_retries = 0, jb_current = None, jb_sends = 0\<rparr>"

definition demo_busy :: write_system where
  "demo_busy = set_worker 0 (Some demo_job) (new_system 1 demo_rt empty_net)"


end
