(* ===== verification/Mock_Life.thy ===== *)
theory Mock_Life
  imports Mock_Server
begin

text \<open>
  The threads of \<open>MockDatabaseServer\<close> in \<open>mocks/mock_server.py\<close>: \<open>start\<close> and \<open>stop\<close>, the two loops that
  accept connections, and the two handlers with their \<open>select\<close> loops, which read the flag \<open>running\<close>
  before every wait. A loop is run on the list of its iterations: what it reads from the flag and
  what the wait and the calls after it do. A loop whose list is used up is still waiting.
\<close>

section \<open>\<open>start\<close> and \<open>stop\<close>\<close>

datatype listener = Listening int | ClosedSock

text \<open>The state of the object; \<open>ml_threads\<close> counts the threads started by \<open>start\<close>.\<close>

record mock_life =
  ml_running :: bool
  ml_write_sock :: "listener option"
  ml_read_sock :: "listener option"
  ml_threads :: nat

definition new_mock_life :: mock_life where
  "new_mock_life = \<lparr>ml_running = False, ml_write_sock = None, ml_read_sock = None, ml_threads = 0\<rparr>"

definition read_port :: "mock_server \<Rightarrow> int" where
  "read_port m = ms_write_port m + 1000"

text \<open>\<open>can_bind\<close> says of each port whether \<open>bind\<close> and \<open>listen\<close> succeed. A socket that could not be bound
  stays in its attribute.\<close>

definition mock_start :: "(int \<Rightarrow> bool) \<Rightarrow> mock_server \<Rightarrow> mock_life \<Rightarrow> unit res \<times> mock_life" where
  "mock_start can_bind m st =
     (let st = st\<lparr>ml_running := True, ml_write_sock := Some (Listening (ms_write_port m))\<rparr> in
      if \<not> can_bind (ms_write_port m) then (Inl OSError, st)
      else let st = st\<lparr>ml_read_sock := Some (Listening (read_port m))\<rparr> in
        if \<not> can_bind (read_port m) then (Inl OSError, st)
        else (Inr (), st\<lparr>ml_threads := ml_threads st + 2\<rparr>))"

definition mock_stop :: "mock_life \<Rightarrow> mock_life" where
  "mock_stop st = st\<lparr>ml_running := False, ml_write_sock := map_option (\<lambda>_. ClosedSock) (ml_write_sock st),
     ml_read_sock := map_option (\<lambda>_. ClosedSock) (ml_read_sock st)\<rparr>"

section \<open>Accepting connections\<close>

text \<open>One wait: nothing within the timeout, an exception of \<open>select\<close> or \<open>accept\<close>, or a connection.\<close>

datatype 'c accept_outcome = NoConn | AcceptFails | NewConn 'c

text \<open>The connections handed to a handler thread of their own, and whether the loop has ended.\<close>

fun accept_loop :: "(bool \<times> 'c accept_outcome) list \<Rightarrow> 'c list \<times> bool" where
  "accept_loop [] = ([], False)"
| "accept_loop ((running, ev) # evs) =
     (if \<not> running then ([], True)
      else case ev of
             NoConn \<Rightarrow> accept_loop evs
           | AcceptFails \<Rightarrow> ([], True)
           | NewConn conn \<Rightarrow> (case accept_loop evs of (conns, ended) \<Rightarrow> (conn # conns, ended)))"

section \<open>The handlers\<close>

text \<open>
  One wait of a handler: nothing, an exception of \<open>select\<close> or \<open>recv\<close>, or up to \<open>Suc k\<close> of the bytes
  still to come, with whether an answer can then be sent. At the end of the stream \<open>recv\<close> gives the
  empty string.
\<close>

datatype poll = Quiet | Broken | Ready nat bool

definition recv_at :: "nat \<Rightarrow> nat \<Rightarrow> byte list \<Rightarrow> byte list" where
  "recv_at limit k stream = take (min limit (Suc k)) stream"

text \<open>The state of a connection: the bytes still to come, those sent, and whether it was closed.\<close>

record mock_conn =
  mc_stream :: "byte list"
  mc_sent :: "byte list"
  mc_closed :: bool

definition close_conn :: "mock_conn \<Rightarrow> mock_conn" where
  "close_conn c = c\<lparr>mc_closed := True\<rparr>"

definition consume :: "byte list \<Rightarrow> mock_conn \<Rightarrow> mock_conn" where
  "consume data c = c\<lparr>mc_stream := drop (length data) (mc_stream c)\<rparr>"

text \<open>One iteration of \<open>_handle_write\<close>: whether the loop goes on, and with which buffer.\<close>

definition write_poll :: "bool \<times> poll \<Rightarrow> byte list \<Rightarrow> mock_conn \<Rightarrow> (bool \<times> byte list \<times> mock_conn) option" where
  "write_poll e buffer c = (case e of (running, ev) \<Rightarrow>
     if \<not> running then Some (False, buffer, c)
     else case ev of
            Quiet \<Rightarrow> Some (True, buffer, c)
          | Broken \<Rightarrow> Some (False, buffer, c)
          | Ready k up \<Rightarrow>
              let data = recv_at 65536 k (mc_stream c); c = consume data c in
              if data = [] then Some (False, buffer, c)
              else (case drain_messages (buffer @ data) 0 of
                      None \<Rightarrow> None
                    | Some (buffer, acks_to_send) \<Rightarrow>
                        if acks_to_send = 0 then Some (True, buffer, c)
                        else if up then Some (True, buffer, c\<lparr>mc_sent := mc_sent c @ replicate acks_to_send 0\<rparr>)
                        else Some (False, buffer, c)))"

fun write_conn_loop :: "(bool \<times> poll) list \<Rightarrow> byte list \<Rightarrow> mock_conn \<Rightarrow> mock_conn option" where
  "write_conn_loop [] buffer c = Some c"
| "write_conn_loop (e # es) buffer c =
     (case write_poll e buffer c of
        None \<Rightarrow> None
      | Some (go, buffer, c) \<Rightarrow> if go then write_conn_loop es buffer c else Some (close_conn c))"

text \<open>\<open>_handle_write\<close>: a follower redirects at once; the connection is closed whatever happens.\<close>

definition write_conn :: "mock_server \<Rightarrow> (bool \<times> poll) list \<Rightarrow> mock_conn \<Rightarrow> mock_conn option" where
  "write_conn m es c =
     (if \<not> ms_is_leader m then Some (close_conn (c\<lparr>mc_sent := mc_sent c @ redirect_msg m\<rparr>))
      else write_conn_loop es [] c)"

text \<open>\<open>_handle_read\<close>: the 40 bytes of a request are collected and answered, one request after the
  other.\<close>

definition read_poll :: "bool \<times> poll \<Rightarrow> byte list \<Rightarrow> mock_conn \<Rightarrow> bool \<times> byte list \<times> mock_conn" where
  "read_poll e req_data c = (case e of (running, ev) \<Rightarrow>
     if \<not> running then (False, req_data, c)
     else case ev of
            Quiet \<Rightarrow> (True, req_data, c)
          | Broken \<Rightarrow> (False, req_data, c)
          | Ready k up \<Rightarrow>
              let chunk = recv_at (QUERY_REQ_SIZE - length req_data) k (mc_stream c); c = consume chunk c;
                  req_data = req_data @ chunk in
              if chunk = [] then (False, req_data, c)
              else if length req_data < QUERY_REQ_SIZE then (True, req_data, c)
              else (case mock_respond req_data of
                      Inl e \<Rightarrow> (False, [], c)
                    | Inr resp \<Rightarrow> if up then (True, [], c\<lparr>mc_sent := mc_sent c @ resp\<rparr>) else (False, [], c)))"

fun read_conn_loop :: "(bool \<times> poll) list \<Rightarrow> byte list \<Rightarrow> mock_conn \<Rightarrow> mock_conn" where
  "read_conn_loop [] req_data c = c"
| "read_conn_loop (e # es) req_data c =
     (case read_poll e req_data c of
        (go, req_data, c) \<Rightarrow> if go then read_conn_loop es req_data c else close_conn c)"

section \<open>The loops and the streams\<close>

text \<open>A wait in which nothing goes wrong and the server is not stopped.\<close>

fun calm_poll :: "bool \<times> poll \<Rightarrow> bool" where
  "calm_poll (running, Broken) = False"
| "calm_poll (running, Ready k up) = (running \<and> up)"
| "calm_poll (running, Quiet) = running"

text \<open>The pieces in which a stream is read by the write handler.\<close>

fun pieces :: "(bool \<times> poll) list \<Rightarrow> byte list \<Rightarrow> byte list list" where
  "pieces [] stream = []"
| "pieces ((running, Ready k up) # es) stream =
     (let data = recv_at 65536 k stream in
      if data = [] then [] else data # pieces es (drop (length data) stream))"
| "pieces (e # es) stream = pieces es stream"

lemma recv_at_split: "recv_at limit k stream @ drop (length (recv_at limit k stream)) stream = stream"
proof -
  have "drop (length (take n xs)) xs = drop n xs" for n and xs :: "byte list" by (simp add: min_def)
  then show ?thesis unfolding recv_at_def by (simp only: append_take_drop_id)
qed

lemma pieces_nonempty: "[] \<notin> set (pieces es stream)"
  by (induction es stream rule: pieces.induct) (auto simp: Let_def)

lemma write_loop_serves:
  "list_all calm_poll es \<Longrightarrow> map_option mc_sent (write_conn_loop es buffer c) =
     serve_writes buffer (pieces es (mc_stream c)) (mc_sent c)"
proof (induction es arbitrary: buffer c)
  case (Cons e es)
  then show ?case
    by (cases e; cases "snd e") (auto simp: write_poll_def consume_def Let_def close_conn_def split: option.splits prod.splits)
qed simp

lemma serve_reads_step:
  assumes "length req = QUERY_REQ_SIZE"
  shows "serve_reads (req @ rest) = (case mock_respond req of Inl e \<Rightarrow> [] | Inr resp \<Rightarrow> resp @ serve_reads rest)"
proof -
  have split: "take QUERY_REQ_SIZE (req @ rest) = req" "drop QUERY_REQ_SIZE (req @ rest) = rest" using assms by simp_all
  show ?thesis unfolding serve_reads.simps [of "req @ rest"] split using assms by simp
qed

lemma serve_reads_short: "length req < QUERY_REQ_SIZE \<Longrightarrow> serve_reads req = []"
  by (simp add: serve_reads.simps)

text \<open>One iteration reads a piece of the stream, and what is sent is what the stream asks for.\<close>

lemma read_poll_serves:
  assumes "length req < QUERY_REQ_SIZE" and "read_poll e req c = (go, req', c')"
  shows "\<exists>chunk. mc_stream c = chunk @ mc_stream c' \<and>
    (go \<longrightarrow> length req' < QUERY_REQ_SIZE \<and>
       (\<forall>rest. mc_sent c @ serve_reads (req @ chunk @ rest) = mc_sent c' @ serve_reads (req' @ rest))) \<and>
    (\<not> go \<longrightarrow> mc_sent c' = mc_sent c \<and> (calm_poll e \<longrightarrow> serve_reads (req @ chunk) = []))"
proof (cases "fst e \<and> (\<exists>k up. snd e = Ready k up)")
  case False
  then show ?thesis using assms
    by (cases e; cases "snd e") (auto simp: read_poll_def serve_reads_short split: if_splits)
next
  case True
  then obtain k up where e: "e = (True, Ready k up)" by (cases e) auto
  define chunk where "chunk = recv_at (QUERY_REQ_SIZE - length req) k (mc_stream c)"
  have st: "mc_stream c = chunk @ mc_stream (consume chunk c)" "mc_sent (consume chunk c) = mc_sent c"
    using recv_at_split unfolding chunk_def consume_def by simp_all
  have len: "length (req @ chunk) \<le> QUERY_REQ_SIZE" using assms(1) by (simp add: chunk_def recv_at_def)
  note step = assms(2) [unfolded e read_poll_def prod.case poll.case Let_def, folded chunk_def]
  show ?thesis
  proof (cases "chunk \<noteq> [] \<and> \<not> length (req @ chunk) < QUERY_REQ_SIZE")
    case True
    then have full: "length (req @ chunk) = QUERY_REQ_SIZE" using len by linarith
    note serve = serve_reads_step [OF full]
    show ?thesis using st step True serve serve [of "[]"] assms(1) e
      by (intro exI [of _ chunk]) (auto split: sum.splits if_splits simp: QUERY_REQ_SIZE_def)
  next
    case False
    then show ?thesis using st step assms(1) e
      by (intro exI [of _ chunk]) (auto split: if_splits simp: serve_reads_short)
  qed
qed

lemma read_loop_serves:
  "length req < QUERY_REQ_SIZE \<Longrightarrow> \<exists>prefix rest. mc_stream c = prefix @ rest \<and>
     mc_sent (read_conn_loop es req c) = mc_sent c @ serve_reads (req @ prefix) \<and>
     (list_all calm_poll es \<longrightarrow> rest = mc_stream (read_conn_loop es req c))"
proof (induction es arbitrary: req c)
  case Nil
  then show ?case by (intro exI [of _ "[]"] exI [of _ "mc_stream c"]) (simp add: serve_reads_short)
next
  case (Cons e es)
  obtain go req' c' where step: "read_poll e req c = (go, req', c')" by (cases "read_poll e req c") auto
  obtain chunk where r: "mc_stream c = chunk @ mc_stream c'"
    "go \<longrightarrow> length req' < QUERY_REQ_SIZE \<and>
       (\<forall>rest. mc_sent c @ serve_reads (req @ chunk @ rest) = mc_sent c' @ serve_reads (req' @ rest))"
    "\<not> go \<longrightarrow> mc_sent c' = mc_sent c \<and> (calm_poll e \<longrightarrow> serve_reads (req @ chunk) = [])"
    using read_poll_serves [OF Cons.prems step] by blast
  show ?case
  proof (cases go)
    case True
    with r(2) Cons.IH [of req' c'] obtain prefix rest where "mc_stream c' = prefix @ rest"
      "mc_sent (read_conn_loop es req' c') = mc_sent c' @ serve_reads (req' @ prefix)"
      "list_all calm_poll es \<longrightarrow> rest = mc_stream (read_conn_loop es req' c')" by auto
    then show ?thesis using step True r(1,2) by (intro exI [of _ "chunk @ prefix"] exI [of _ rest]) simp
  next
    case False
    then show ?thesis using step r(1,3) Cons.prems
      by (cases "calm_poll e") (auto simp: close_conn_def serve_reads_short intro: exI [of _ "[]"])
  qed
qed

text \<open>A loop that reads that the server was stopped ends, and closes its connection.\<close>

lemma accept_loop_stops: "\<exists>e \<in> set es. \<not> fst e \<Longrightarrow> snd (accept_loop es)"
  by (induction es rule: accept_loop.induct) (auto split: accept_outcome.splits prod.splits)

lemma read_loop_stops: "\<exists>e \<in> set es. \<not> fst e \<Longrightarrow> mc_closed (read_conn_loop es req c)"
proof (induction es arbitrary: req c)
  case (Cons e es)
  then show ?case by (cases "fst e") (auto simp: close_conn_def read_poll_def split: prod.splits)
qed simp

lemma write_loop_stops: "\<exists>e \<in> set es. \<not> fst e \<Longrightarrow> write_conn_loop es buffer c = Some c' \<Longrightarrow> mc_closed c'"
proof (induction es arbitrary: buffer c)
  case (Cons e es)
  then show ?case by (cases "fst e") (auto simp: close_conn_def write_poll_def split: option.splits prod.splits if_splits)
qed simp

text \<open>After \<open>stop\<close>, whether or not \<open>start\<close> could bind its ports, no socket listens.\<close>

definition listening :: "mock_life \<Rightarrow> int set" where
  "listening st = {p. Some (Listening p) \<in> {ml_write_sock st, ml_read_sock st}}"

lemma mock_stop_closes: "listening (mock_stop st) = {} \<and> \<not> ml_running (mock_stop st)"
  by (cases "ml_write_sock st"; cases "ml_read_sock st") (simp_all add: listening_def mock_stop_def)

lemma mock_start_listens:
  "mock_start can_bind m new_mock_life = (Inr (), st) \<Longrightarrow>
   listening st = {ms_write_port m, read_port m} \<and> ml_running st \<and> ml_threads st = 2"
  by (auto simp: mock_start_def new_mock_life_def listening_def Let_def split: if_splits)

section \<open>Properties\<close>


definition demo_conn :: "byte list \<Rightarrow> mock_conn" where
  "demo_conn bs = \<lparr>mc_stream = bs, mc_sent = [], mc_closed = False\<rparr>"


text \<open>
  C21. A leader of the mock server acknowledges every message of a stream that was read to its end with
  one byte, in whatever pieces and with whatever pauses it arrives.
\<close>

theorem mock_leader_acknowledges_every_message:
  assumes "ms_is_leader m" and "list_all calm_poll es" and "mc_stream c = concat ms" and "\<forall>x \<in> set ms. message_ok x"
    and "concat (pieces es (mc_stream c)) = mc_stream c"
  shows "\<exists>c'. write_conn m es c = Some c' \<and> mc_sent c' = mc_sent c @ replicate (length ms) 0"
proof -
  have "serve_writes [] (pieces es (mc_stream c)) (mc_sent c) = Some (mc_sent c @ replicate (length ms) 0)"
    using assms(3-5) pieces_nonempty by (intro serve_writes_acks) (auto simp: message_cut_def)
  then show ?thesis using write_loop_serves [OF assms(2), of "[]" c] assms(1) by (auto simp: write_conn_def)
qed

theorem mock_leader_acknowledges_every_message_witness:
  "\<exists>c'. write_conn \<lparr>ms_write_port = 1, ms_leader_id = 1, ms_is_leader = True\<rparr> [(True, Ready 9 True), (True, Quiet), (True, Ready 99 True)]
      (demo_conn (write_frame \<lparr>key_id = 1, timestamp = 2, content = CInt 3\<rparr>)) = Some c' \<and> mc_sent c' = [0]"
proof -
  let ?r = "\<lparr>key_id = 1, timestamp = 2, content = CInt 3\<rparr>"
  have len: "length (write_frame ?r) = 33" by (simp add: write_frame_def)
  then have ne: "write_frame ?r \<noteq> []" by (metis length_0_conv zero_neq_numeral)
  have "concat (pieces [(True, Ready 9 True), (True, Quiet), (True, Ready 99 True)] (write_frame ?r)) = write_frame ?r"
    using len ne by (simp add: recv_at_def Let_def)
  then show ?thesis
    using mock_leader_acknowledges_every_message [of "\<lparr>ms_write_port = 1, ms_leader_id = 1, ms_is_leader = True\<rparr>"
        "[(True, Ready 9 True), (True, Quiet), (True, Ready 99 True)]" "demo_conn (write_frame ?r)" "[write_frame ?r]"]
      write_frame_message by (simp add: demo_conn_def del: pieces.simps write_conn_loop.simps)
qed

end
