(* ===== verification/Bench_Output.thy ===== *)
theory Bench_Output
  imports Cli Read_Bench Write_Bench
begin

text \<open>
  What the benchmarks write: the CSV file of requests and the status lines of \<open>read_benchmark.py\<close>, and
  the CSV rows of the report thread of \<open>write-bench.py\<close>. A float is formatted from the exact rational
  it denotes, rounded half to even as Python does.
\<close>

section \<open>Formatting\<close>

text \<open>A number of units of \<open>10 ^ (- d)\<close>, with leading zeros after the point.\<close>

definition pad_zeros :: "nat \<Rightarrow> string \<Rightarrow> string" where
  "pad_zeros d s = replicate (d - length s) (CHR ''0'') @ s"

definition fixed_units :: "nat \<Rightarrow> rat \<Rightarrow> int" where
  "fixed_units d x = (case quotient_of x of (a, b) \<Rightarrow> round_half_even (\<bar>a\<bar> * 10 ^ d) b)"

text \<open>\<open>{x:.df}\<close> for a positive \<open>d\<close>.\<close>

definition show_fixed :: "nat \<Rightarrow> rat \<Rightarrow> string" where
  "show_fixed d x =
     (let u = fixed_units d x in
      (if x < 0 then ''-'' else '''') @ show_int (u div 10 ^ d) @ ''.'' @
      pad_zeros d (digits_of (nat (u mod 10 ^ d))))"

text \<open>\<open>{i:,}\<close>: a comma before every group of three digits.\<close>

fun group_digits :: "string \<Rightarrow> string" where
  "group_digits (a # b # c # d # ds) = a # b # c # CHR '','' # group_digits (d # ds)"
| "group_digits ds = ds"

definition show_commas :: "int \<Rightarrow> string" where
  "show_commas i = (if i < 0 then ''-'' else '''') @ rev (group_digits (rev (digits_of (nat \<bar>i\<bar>))))"

section \<open>The CSV file of requests\<close>

definition csv_head :: string where
  "csv_head = ''Request_ID,Query_ID,Send_Timestamp_ms,Recv_Timestamp_ms,Record_Count,Records_Bytes''"

definition csv_fields :: "read_request_metrics \<Rightarrow> string list" where
  "csv_fields req = [show_int (rm_req_id req), show_int (rm_query_id req), show_fixed 3 (rm_send_time_ms req),
     show_fixed 3 (rm_recv_time_ms req), show_int (rm_record_count req), show_int (rm_records_bytes req)]"

fun join_with :: "char \<Rightarrow> string list \<Rightarrow> string" where
  "join_with c [] = []"
| "join_with c [s] = s"
| "join_with c (s # ss) = s @ c # join_with c ss"

definition newline :: char where
  "newline = char_of (10 :: nat)"

definition dump_requests :: "read_request_metrics list \<Rightarrow> string" where
  "dump_requests reqs = csv_head @ [newline] @
     concat (map (\<lambda>req. join_with (CHR '','') (csv_fields req) @ [newline]) reqs)"

section \<open>Reports\<close>

text \<open>The status line of one tick of the read benchmark's thread; \<open>clock\<close> is what \<open>strftime\<close> gives.\<close>

definition status_line :: "string \<Rightarrow> int \<Rightarrow> int \<times> int \<times> int \<Rightarrow> string" where
  "status_line clock seconds_elapsed obs = (case obs of (curr_queries, curr_records, curr_bytes) \<Rightarrow>
     ''['' @ clock @ ''] Elapsed: '' @ show_int seconds_elapsed @ ''s | Total Queries: '' @ show_commas curr_queries @
     '' | Total Records: '' @ show_commas curr_records @ '' | Total Bytes: '' @ show_commas curr_bytes)"

text \<open>One entry per wait of five seconds in which the stop event was not set.\<close>

fun read_reporter :: "int \<Rightarrow> (string \<times> int \<times> int \<times> int) list \<Rightarrow> string list" where
  "read_reporter seconds_elapsed [] = []"
| "read_reporter seconds_elapsed ((clock, obs) # ticks) =
     status_line clock (seconds_elapsed + 1) obs # read_reporter (seconds_elapsed + 1) ticks"

definition write_csv_line :: "csv_row \<Rightarrow> string" where
  "write_csv_line row = join_with (CHR '','') [show_int (cv_time row), show_int (cv_records row),
     show_int (cv_bytes row), show_int (cv_delta_ops row), show_fixed 2 (cv_delta_mb row)] @ [newline]"

definition write_csv_file :: "csv_row list \<Rightarrow> string" where
  "write_csv_file rows = ''Timestamp,Total_ACKed_Records,Total_ACKed_Bytes,OPS,MBps'' @ [newline] @
     concat (map write_csv_line rows)"

section \<open>Reading back\<close>

text \<open>A reader of the format: lines, fields, and decimals as a number of units.\<close>

definition read_fixed :: "nat \<Rightarrow> ptext \<Rightarrow> int res" where
  "read_fixed d t = (case split_on 46 t of
     [i, f] \<Rightarrow> if length f = d then bind_res (py_int i) (\<lambda>i. bind_res (py_int f) (\<lambda>f. Inr (i * 10 ^ d + f)))
               else Inl ValueError
   | _ \<Rightarrow> Inl ValueError)"

type_synonym csv_request = "int \<times> int \<times> int \<times> int \<times> int \<times> int"

definition read_row :: "ptext \<Rightarrow> csv_request res" where
  "read_row t = (case split_on 44 t of
     [i, q, s, r, n, b] \<Rightarrow> bind_res (py_int i) (\<lambda>i. bind_res (py_int q) (\<lambda>q. bind_res (read_fixed 3 s) (\<lambda>s.
       bind_res (read_fixed 3 r) (\<lambda>r. bind_res (py_int n) (\<lambda>n. bind_res (py_int b) (\<lambda>b. Inr (i, q, s, r, n, b)))))))
   | _ \<Rightarrow> Inl ValueError)"

definition read_dump :: "ptext \<Rightarrow> csv_request list res" where
  "read_dump t = map_res read_row (butlast (tl (split_on 10 t)))"

definition csv_request_of :: "read_request_metrics \<Rightarrow> csv_request" where
  "csv_request_of req = (rm_req_id req, rm_query_id req, fixed_units 3 (rm_send_time_ms req),
     fixed_units 3 (rm_recv_time_ms req), rm_record_count req, rm_records_bytes req)"

lemma lit_append [simp]: "lit (s @ t) = lit s @ lit t" and lit_Cons: "lit (c # s) = of_char c # lit s"
  and lit_Nil [simp]: "lit [] = []"
  by (simp_all add: lit_def)

text \<open>The characters of a printed number.\<close>

lemma show_int_chars: "c \<in> set (lit (show_int i)) \<Longrightarrow> digit c \<or> c = 45"
  using digits_of_digit by (auto simp: show_int_def lit_def split: if_splits)

lemma pad_zeros_digit: "c \<in> set (lit (pad_zeros d (digits_of n))) \<Longrightarrow> digit c"
  using digits_of_digit by (auto simp: pad_zeros_def lit_def digit_def)

lemma fixed_units_nonneg: "0 \<le> fixed_units d x"
proof -
  obtain a b where q: "quotient_of x = (a, b)" by force
  then have "0 < b" by (rule quotient_of_denom_pos)
  then show ?thesis by (auto simp: fixed_units_def q round_half_even_def Let_def pos_imp_zdiv_nonneg_iff)
qed

lemma show_fixed_chars: "c \<in> set (lit (show_fixed d x)) \<Longrightarrow> digit c \<or> c = 45 \<or> c = 46"
  using show_int_chars pad_zeros_digit by (auto simp: show_fixed_def Let_def lit_Cons split: if_splits)

lemma digits_val_zeros: "digits_val (replicate n 48 @ t) 0 True = (if t = [] then (if n = 0 then None else Some 0)
    else digits_val t 0 (n = 0))"
proof -
  have "digits_val (replicate n 48 @ t) 0 False = digits_val t 0 False" for t
    by (induction n) simp_all
  then show ?thesis by (cases n) auto
qed

lemma digits_val_need: "c \<in> set t \<Longrightarrow> digit (hd t) \<Longrightarrow> digits_val t 0 False = digits_val t 0 True"
  by (cases t) (auto simp: digit_def)

lemma py_int_padded: "py_int (lit (pad_zeros d (digits_of n))) = Inr (int n)"
proof -
  let ?w = "lit (pad_zeros d (digits_of n))"
  have w: "?w = replicate (d - length (digits_of n)) 48 @ lit (digits_of n)" by (simp add: pad_zeros_def lit_def)
  have ne: "lit (digits_of n) \<noteq> []" using digits_of_nonempty by (simp add: lit_def)
  have d: "\<forall>c \<in> set ?w. digit c" using pad_zeros_digit by blast
  have "strip ?w = ?w" using w ne d digit_not_space by (intro strip_word) auto
  moreover have "?w \<noteq> []" using w ne by simp
  then obtain c cs where c: "?w = c # cs" by (meson neq_Nil_conv)
  moreover have "c \<noteq> 45" "c \<noteq> 43" using d c digit_not_space by force+
  moreover have "digits_val ?w 0 True = Some (int n)"
  proof -
    have "digit (hd (lit (digits_of n)))" using ne digits_of_digit by (metis hd_in_set)
    then have "digits_val (lit (digits_of n)) 0 False = digits_val (lit (digits_of n)) 0 True"
      using ne digits_val_need by (metis hd_in_set)
    then show ?thesis unfolding w digits_val_zeros using ne digits_val_append [of n "[]"]
      by (cases "d \<le> length (digits_of n)") auto
  qed
  ultimately show ?thesis by (simp add: py_int_def Let_def)
qed

lemma digits_of_short: "n < 10 ^ d \<Longrightarrow> 0 < d \<Longrightarrow> length (digits_of n) \<le> d"
proof (induction n arbitrary: d rule: digits_of.induct)
  case (1 n)
  show ?case
  proof (cases "n < 10")
    case True
    then show ?thesis using 1 by (simp add: digits_of.simps [of n] Suc_le_eq)
  next
    case False
    then obtain e where d: "d = Suc e" "0 < e" using 1(2,3) by (cases d; cases "d - 1") auto
    then have "length (digits_of (n div 10)) \<le> e" using 1 False by (simp add: less_mult_imp_div_less mult.commute)
    then show ?thesis using False d by (simp add: digits_of.simps [of n])
  qed
qed

lemma pad_zeros_length: "n < 10 ^ d \<Longrightarrow> 0 < d \<Longrightarrow> length (lit (pad_zeros d (digits_of n))) = d"
  using digits_of_short by (simp add: pad_zeros_def lit_def)

lemma read_show_fixed:
  assumes x: "0 \<le> x" and d: "0 < d"
  shows "read_fixed d (lit (show_fixed d x)) = Inr (fixed_units d x)"
proof -
  let ?u = "fixed_units d x"
  let ?i = "lit (show_int (?u div 10 ^ d))"
  let ?f = "lit (pad_zeros d (digits_of (nat (?u mod 10 ^ d))))"
  have t: "lit (show_fixed d x) = ?i @ 46 # ?f"
    using x by (simp add: show_fixed_def Let_def lit_Cons)
  have m: "0 \<le> ?u mod 10 ^ d" "?u mod 10 ^ d < 10 ^ d" by simp_all
  have "46 \<notin> set ?i" using show_int_chars by (fastforce simp: digit_def)
  moreover have "46 \<notin> set ?f" using pad_zeros_digit by (fastforce simp: digit_def)
  ultimately have "split_on 46 (lit (show_fixed d x)) = [?i, ?f]" by (simp add: t split_on_word split_on_last)
  moreover have "length ?f = d" using m d by (intro pad_zeros_length) (simp_all add: nat_less_iff)
  moreover have "?u div 10 ^ d * 10 ^ d + ?u mod 10 ^ d = ?u" by (rule div_mult_mod_eq)
  ultimately show ?thesis using m by (simp add: read_fixed_def py_int_show py_int_padded)
qed

lemma fixed_units_close:
  assumes "0 \<le> x"
  shows "\<bar>of_int (fixed_units d x) / 10 ^ d - x\<bar> \<le> 1 / (2 * 10 ^ d)"
proof -
  obtain a b where q: "quotient_of x = (a, b)" by force
  have b: "0 < b" using q by (rule quotient_of_denom_pos)
  have x: "x = of_int a / of_int b" using q by (rule quotient_of_div)
  have a: "0 \<le> a" using assms b x by (simp add: zero_le_divide_iff)
  let ?u = "fixed_units d x"
  have u: "?u = round_half_even (a * 10 ^ d) b" using a by (simp add: fixed_units_def q)
  have e: "2 * \<bar>?u * b - a * 10 ^ d\<bar> \<le> b" using round_half_even_error [OF b, of "a * 10 ^ d"] unfolding u [symmetric] abs_if by simp
  have "of_int ?u / 10 ^ d - x = of_int (?u * b - a * 10 ^ d) / (of_int b * 10 ^ d)"
    using b by (simp add: x field_simps)
  then have "\<bar>of_int ?u / 10 ^ d - x\<bar> = of_int \<bar>?u * b - a * 10 ^ d\<bar> / (of_int b * 10 ^ d)"
    using b by (simp add: abs_mult)
  also have "\<dots> \<le> (of_int b / 2) / (of_int b * 10 ^ d)"
  proof (rule divide_right_mono)
    have "rat_of_int (2 * \<bar>?u * b - a * 10 ^ d\<bar>) \<le> of_int b" using e by (rule of_int_le_iff [THEN iffD2])
    then show "rat_of_int \<bar>?u * b - a * 10 ^ d\<bar> \<le> of_int b / 2" by simp
    show "0 \<le> rat_of_int b * 10 ^ d" using b by simp
  qed
  finally show ?thesis using b by simp
qed

text \<open>Rows and lines.\<close>

lemma join_chars: "c \<in> set (lit (join_with s fs)) \<Longrightarrow> c = of_char s \<or> (\<exists>f \<in> set fs. c \<in> set (lit f))"
  by (induction s fs rule: join_with.induct) (auto simp: lit_Cons)

lemma split_join:
  assumes "fs \<noteq> []" and "\<forall>f \<in> set fs. of_char s \<notin> set (lit f)"
  shows "split_on (of_char s) (lit (join_with s fs)) = map lit fs"
  using assms by (induction s fs rule: join_with.induct) (auto simp: lit_Cons split_on_word split_on_last)

lemma csv_field_chars: "f \<in> set (csv_fields req) \<Longrightarrow> c \<in> set (lit f) \<Longrightarrow> digit c \<or> c = 45 \<or> c = 46"
  using show_int_chars [of c] show_fixed_chars [of c] by (fastforce simp: csv_fields_def)

lemma csv_field_plain: "f \<in> set (csv_fields req) \<Longrightarrow> 44 \<notin> set (lit f) \<and> 10 \<notin> set (lit f)"
  using csv_field_chars [of f req 44] csv_field_chars [of f req 10] by (auto simp: digit_def)

lemma split_lines:
  assumes "\<forall>w \<in> set ws. 10 \<notin> set (lit w)"
  shows "split_on 10 (lit (concat (map (\<lambda>w. w @ [newline]) ws))) = map lit ws @ [[]]"
  using assms by (induction ws) (auto simp: lit_Cons newline_def split_on_word)

lemma read_row_of:
  assumes "0 \<le> rm_send_time_ms req" and "0 \<le> rm_recv_time_ms req"
  shows "read_row (lit (join_with (CHR '','') (csv_fields req))) = Inr (csv_request_of req)"
proof -
  have "split_on (of_char CHR '','') (lit (join_with (CHR '','') (csv_fields req))) = map lit (csv_fields req)"
    using csv_field_plain by (intro split_join) (auto simp: csv_fields_def)
  then show ?thesis
    using assms by (simp add: read_row_def csv_fields_def py_int_show read_show_fixed csv_request_of_def)
qed

lemma csv_line_plain: "10 \<notin> set (lit (join_with (CHR '','') (csv_fields req)))"
  using join_chars [of 10] csv_field_plain by fastforce

lemma read_reporter_nth:
  "k < length ticks \<Longrightarrow> read_reporter s ticks ! k = status_line (fst (ticks ! k)) (s + int k + 1) (snd (ticks ! k))"
proof (induction ticks arbitrary: s k)
  case (Cons t ticks)
  then show ?case by (cases t; cases k) (auto simp: algebra_simps)
qed simp

section \<open>Properties\<close>

text \<open>C24. The CSV file of requests can be read back: a reader that splits the text the benchmark writes
  into lines, fields and decimals finds, after the heading, one row per recorded request, in order, with
  its ids and counts exactly and its two times in thousandths, each within half a thousandth of the time
  recorded.\<close>

theorem dump_reads_back:
  assumes "\<forall>req \<in> set reqs. 0 \<le> rm_send_time_ms req \<and> 0 \<le> rm_recv_time_ms req"
  shows "read_dump (lit (dump_requests reqs)) = Inr (map csv_request_of reqs) \<and>
    (\<forall>req \<in> set reqs. \<bar>of_int (fixed_units 3 (rm_send_time_ms req)) / 1000 - rm_send_time_ms req\<bar> \<le> 1 / 2000
      \<and> \<bar>of_int (fixed_units 3 (rm_recv_time_ms req)) / 1000 - rm_recv_time_ms req\<bar> \<le> 1 / 2000)"
proof (rule conjI)
  let ?row = "\<lambda>req. join_with (CHR '','') (csv_fields req)"
  have "dump_requests reqs = concat (map (\<lambda>w. w @ [newline]) (csv_head # map ?row reqs))"
    by (simp add: dump_requests_def comp_def)
  moreover have "\<forall>w \<in> set (csv_head # map ?row reqs). 10 \<notin> set (lit w)"
    using csv_line_plain by (auto simp: csv_head_def lit_def)
  ultimately have "split_on 10 (lit (dump_requests reqs)) = map lit (csv_head # map ?row reqs) @ [[]]"
    using split_lines by presburger
  then have "read_dump (lit (dump_requests reqs)) = map_res read_row (map (\<lambda>req. lit (?row req)) reqs)"
    by (simp add: read_dump_def butlast_append comp_def)
  also have "\<dots> = map_res (\<lambda>req. read_row (lit (?row req))) reqs" by (induction reqs) simp_all
  also have "\<dots> = Inr (map csv_request_of reqs)" using assms by (intro map_res_total) (simp add: read_row_of)
  finally show "read_dump (lit (dump_requests reqs)) = Inr (map csv_request_of reqs)" .
  show "\<forall>req \<in> set reqs. \<bar>of_int (fixed_units 3 (rm_send_time_ms req)) / 1000 - rm_send_time_ms req\<bar> \<le> 1 / 2000
      \<and> \<bar>of_int (fixed_units 3 (rm_recv_time_ms req)) / 1000 - rm_recv_time_ms req\<bar> \<le> 1 / 2000"
    using assms fixed_units_close [where d = 3] by (simp add: eval_nat_numeral)
qed

theorem dump_reads_back_witness:
  "read_dump (lit (dump_requests [\<lparr>rm_query_id = 3, rm_req_id = 17, rm_send_time_ms = 2000125 / 1000,
       rm_recv_time_ms = 20071259 / 10000, rm_record_count = 12, rm_records_bytes = 480\<rparr>]))
     = Inr [(17, 3, 2000125, 2007126, 12, 480)]"
proof -
  let ?req = "\<lparr>rm_query_id = 3, rm_req_id = 17, rm_send_time_ms = 2000125 / 1000,
       rm_recv_time_ms = 20071259 / 10000, rm_record_count = 12, rm_records_bytes = 480\<rparr>"
  have "read_dump (lit (dump_requests [?req])) = Inr (map csv_request_of [?req])"
    using dump_reads_back [of "[?req]"] by simp
  moreover have "csv_request_of ?req = (17, 3, 2000125, 2007126, 12, 480)" by code_simp
  ultimately show ?thesis by simp
qed

end
