(* ===== verification/Zipf.thy ===== *)
theory Zipf
  imports Streams Py_Float
begin

text \<open>
  \<open>ZipfGenerator\<close> of \<open>write-bench.py\<close> and \<open>read_benchmark.py\<close> (the two are the same text) down to its
  floating-point arithmetic. The logarithm, the exponential and the power come from the C library and are
  arguments, which may raise; every other operation is the exact one rounded to a double. Whatever the
  library computes, a draw is the clipped integer that the streams of Streams take.
\<close>

section \<open>The generator\<close>

record libm =
  lm_log :: "int \<Rightarrow> rat res"
  lm_exp :: "rat \<Rightarrow> rat res"
  lm_pow :: "rat \<Rightarrow> rat \<Rightarrow> rat res"

record zipf_state =
  zs_n :: int
  zs_alpha :: rat
  zs_is_alpha_one :: bool
  zs_c :: rat

definition zipf_init :: "libm \<Rightarrow> int \<Rightarrow> rat \<Rightarrow> zipf_state res" where
  "zipf_init lm n alpha =
     (let n = max 1 n; is_alpha_one = \<bar>rnd (alpha - 1)\<bar> < rnd (1 / 1000000000) in
      bind_res (if is_alpha_one then lm_log lm n
                else bind_res (lm_pow lm (rnd (of_int n)) (rnd (1 - alpha))) (\<lambda>p. Inr (rnd (rnd (p - 1) / rnd (1 - alpha)))))
        (\<lambda>c. Inr \<lparr>zs_n = n, zs_alpha = alpha, zs_is_alpha_one = is_alpha_one, zs_c = c\<rparr>))"

text \<open>\<open>int\<close> of a float: towards zero.\<close>

definition py_trunc :: "rat \<Rightarrow> int" where
  "py_trunc x = (if x < 0 then - \<lfloor>- x\<rfloor> else \<lfloor>x\<rfloor>)"

definition zipf_value :: "libm \<Rightarrow> zipf_state \<Rightarrow> rat \<Rightarrow> rat res" where
  "zipf_value lm z u =
     (if zs_is_alpha_one z then lm_exp lm (rnd (u * zs_c z))
      else lm_pow lm (rnd (rnd (rnd (u * zs_c z) * rnd (1 - zs_alpha z)) + 1)) (rnd (1 / rnd (1 - zs_alpha z))))"

definition zipf_draw :: "libm \<Rightarrow> zipf_state \<Rightarrow> rat \<Rightarrow> int res" where
  "zipf_draw lm z u = bind_res (zipf_value lm z u) (\<lambda>val. Inr (min (zs_n z) (max 1 (py_trunc val))))"

text \<open>The keys of a zipfian stream, from the uniform numbers \<open>us\<close> it draws.\<close>

definition zipf_keys :: "libm \<Rightarrow> int \<Rightarrow> int \<Rightarrow> int \<Rightarrow> (nat \<Rightarrow> rat) \<Rightarrow> int list res" where
  "zipf_keys lm amount key_start key_end us =
     bind_res (zipf_init lm (key_end - key_start + 1) 1) (\<lambda>zipf.
       map_res (\<lambda>i. bind_res (zipf_draw lm zipf (us i)) (\<lambda>k. Inr (key_start + k - 1))) [0..<nat amount])"

section \<open>Facts\<close>

lemma zipf_init_n: "zipf_init lm n alpha = Inr z \<Longrightarrow> zs_n z = max 1 n"
  by (auto simp: zipf_init_def Let_def res_simps)

lemma zipf_draw_range: "zipf_init lm n alpha = Inr z \<Longrightarrow> zipf_draw lm z u = Inr k \<Longrightarrow> 1 \<le> k \<and> k \<le> max 1 n"
  by (auto simp: zipf_draw_def res_simps dest: zipf_init_n)

lemma zipf_draw_is_next:
  assumes "zipf_init lm n alpha = Inr z" and "zipf_value lm z u = Inr v"
  shows "zipf_draw lm z u = Inr (zipf_next (new_zipf n) (py_trunc v))"
  using assms by (simp add: zipf_draw_def zipf_next_def new_zipf_def zipf_init_n)

text \<open>With the exponent 1, which is the default and the only one the programs use, only \<open>log\<close> and \<open>exp\<close> are called,
  each once: for the constant and per draw.\<close>

lemma zipf_init_one: "zipf_init lm n 1 = bind_res (lm_log lm (max 1 n))
    (\<lambda>c. Inr \<lparr>zs_n = max 1 n, zs_alpha = 1, zs_is_alpha_one = True, zs_c = c\<rparr>)"
proof -
  have "0 < rnd (1 / 1000000000)" by code_simp
  then show ?thesis by (simp add: zipf_init_def Let_def)
qed

lemma zipf_keys_stream:
  assumes "lm_log lm (max 1 (key_end - key_start + 1)) = Inr c"
    and "\<And>i. i < nat amount \<Longrightarrow> lm_exp lm (rnd (us i * c)) = Inr (vs i)"
  shows "zipf_keys lm amount key_start key_end us =
    stream_keys amount ''zipfian'' key_start key_end (\<lambda>i. py_trunc (vs i))"
proof -
  let ?z = "\<lparr>zs_n = max 1 (key_end - key_start + 1), zs_alpha = 1, zs_is_alpha_one = True, zs_c = c\<rparr>"
  have "map_res (\<lambda>i. bind_res (zipf_draw lm ?z (us i)) (\<lambda>k. Inr (key_start + k - 1))) [0..<nat amount] =
      Inr (map (\<lambda>i. key_start + zipf_next (new_zipf (key_end - key_start + 1)) (py_trunc (vs i)) - 1) [0..<nat amount])"
    using assms(2) by (intro map_res_total) (simp add: zipf_draw_def zipf_value_def zipf_next_def new_zipf_def)
  then show ?thesis using assms(1) by (simp add: zipf_keys_def zipf_init_one stream_keys_def Let_def)
qed

text \<open>If the exponential of zero is one, the smallest uniform number draws the first key.\<close>

lemma zipf_zero: "lm_exp lm 0 = Inr 1 \<Longrightarrow> zipf_init lm n 1 = Inr z \<Longrightarrow> zipf_draw lm z 0 = Inr 1"
  by (auto simp: zipf_init_one res_simps zipf_draw_def zipf_value_def py_trunc_def)

end
