(* ===== verification/Bench_Loop.thy ===== *)
theory Bench_Loop
  imports Read_Bench
begin

text \<open>
  The loop of \<open>bench\<close> in \<open>read_benchmark.py\<close> with the futures it keeps: one per batch handed to
  \<open>read_batch\<close>, and a wait whenever there are more than 512. A future is the number of its batch; what
  a wait finds complete is an argument.
\<close>

section \<open>Waiting\<close>

text \<open>\<open>wait(futures, return_when=FIRST_COMPLETED)\<close> returns when one future is done, here the one at \<open>k\<close>, with
  all that are done by then. Python gives the rest as a set; as \<open>k\<close> is arbitrary, keeping its order loses no run.\<close>

type_synonym completion = "nat \<times> (nat \<Rightarrow> bool)"

definition is_done :: "completion \<Rightarrow> nat list \<Rightarrow> nat \<Rightarrow> bool" where
  "is_done c futures f = (case c of (k, settled) \<Rightarrow> f = futures ! (k mod length futures) \<or> settled f)"

definition wait_first :: "completion \<Rightarrow> nat list \<Rightarrow> nat list \<times> nat list" where
  "wait_first c futures = partition (is_done c futures) futures"

section \<open>The loop\<close>

record bench_loop =
  bl_buffer :: "query_request list"
  bl_batches :: "query_request list list"
  bl_futures :: "nat list"

definition new_bench_loop :: bench_loop where
  "new_bench_loop = \<lparr>bl_buffer = [], bl_batches = [], bl_futures = []\<rparr>"

definition max_pending_futures :: nat where
  "max_pending_futures = 512"

definition submit_buffer :: "bench_loop \<Rightarrow> bench_loop" where
  "submit_buffer st = st\<lparr>bl_batches := bl_batches st @ [bl_buffer st],
     bl_futures := bl_futures st @ [length (bl_batches st)], bl_buffer := []\<rparr>"

definition apply_backpressure :: "completion \<Rightarrow> bench_loop \<Rightarrow> bench_loop" where
  "apply_backpressure c st =
     (if max_pending_futures < length (bl_futures st) then st\<lparr>bl_futures := snd (wait_first c (bl_futures st))\<rparr> else st)"

definition bench_loop_step :: "int \<Rightarrow> bench_loop \<Rightarrow> query_request \<times> completion \<Rightarrow> bench_loop" where
  "bench_loop_step batch_size st qc = (case qc of (query, c) \<Rightarrow>
     let st = st\<lparr>bl_buffer := bl_buffer st @ [query]\<rparr> in
     if batch_size \<le> int (length (bl_buffer st)) then apply_backpressure c (submit_buffer st) else st)"

definition bench_loop_end :: "bench_loop \<Rightarrow> bench_loop" where
  "bench_loop_end st = (if bl_buffer st \<noteq> [] then submit_buffer st else st)"

section \<open>Facts\<close>

lemma wait_first_fewer:
  assumes "futures \<noteq> []"
  shows "length (snd (wait_first c futures)) < length futures" and "set (snd (wait_first c futures)) \<subseteq> set futures"
proof -
  obtain k settled where c: "c = (k, settled)" by (cases c)
  have "futures ! (k mod length futures) \<in> set futures" using assms by simp
  then show "length (snd (wait_first c futures)) < length futures"
    unfolding wait_first_def partition_filter2 by (rule length_filter_less) (simp add: c is_done_def)
  show "set (snd (wait_first c futures)) \<subseteq> set futures" by (auto simp: wait_first_def)
qed

lemma submit_simps [simp]:
  "bl_buffer (submit_buffer st) = []" "bl_batches (submit_buffer st) = bl_batches st @ [bl_buffer st]"
  "bl_futures (submit_buffer st) = bl_futures st @ [length (bl_batches st)]"
  by (simp_all add: submit_buffer_def)

lemma backpressure_simps [simp]:
  "bl_buffer (apply_backpressure c st) = bl_buffer st" "bl_batches (apply_backpressure c st) = bl_batches st"
  by (simp_all add: apply_backpressure_def)

lemma backpressure_bound:
  "length (bl_futures st) \<le> Suc max_pending_futures \<Longrightarrow> length (bl_futures (apply_backpressure c st)) \<le> max_pending_futures"
  using wait_first_fewer(1) [of "bl_futures st" c]
  by (cases "bl_futures st = []") (auto simp: apply_backpressure_def)

lemma bench_loop_batches:
  "bl_batches (bench_loop_end (foldl (bench_loop_step batch_size) st qcs)) =
     bl_batches st @ feed_queries batch_size (bl_buffer st) (map fst qcs)"
proof (induction qcs arbitrary: st)
  case Nil
  then show ?case by (simp add: bench_loop_end_def)
next
  case (Cons qc qcs)
  obtain q c where "qc = (q, c)" by (cases qc)
  then show ?case using Cons.IH [of "bench_loop_step batch_size st qc"] by (simp add: bench_loop_step_def Let_def)
qed

text \<open>What the loop keeps: at most 512 futures, each of a batch that was submitted, each once.\<close>

definition loop_ok :: "bench_loop \<Rightarrow> bool" where
  "loop_ok st \<longleftrightarrow> length (bl_futures st) \<le> max_pending_futures \<and>
     set (bl_futures st) \<subseteq> {0..<length (bl_batches st)} \<and> distinct (bl_futures st)"

lemma bench_loop_step_ok:
  assumes "loop_ok st"
  shows "loop_ok (bench_loop_step batch_size st qc)"
proof -
  obtain q c where qc: "qc = (q, c)" by (cases qc)
  let ?st = "submit_buffer (st\<lparr>bl_buffer := bl_buffer st @ [q]\<rparr>)"
  have f: "length (bl_futures ?st) \<le> Suc max_pending_futures" "set (bl_futures ?st) \<subseteq> {0..<length (bl_batches ?st)}"
    "distinct (bl_futures ?st)"
    using assms by (auto simp: loop_ok_def)
  have "loop_ok (apply_backpressure c ?st)"
    using backpressure_bound [OF f(1), of c] f(2,3) wait_first_fewer(2) [of "bl_futures ?st" c]
    by (auto simp: loop_ok_def apply_backpressure_def wait_first_def)
  then show ?thesis using assms by (simp add: bench_loop_step_def qc Let_def loop_ok_def)
qed

lemma bench_loop_ok: "loop_ok st \<Longrightarrow> loop_ok (foldl (bench_loop_step batch_size) st qcs)"
  by (induction qcs arbitrary: st) (simp_all add: bench_loop_step_ok)

text \<open>A future that is no longer kept was done at a wait.\<close>

definition released :: "bench_loop \<Rightarrow> nat set" where
  "released st = {0..<length (bl_batches st)} - set (bl_futures st)"

lemma released_done:
  assumes "f \<in> released (bench_loop_step batch_size st (q, c))" and "f \<notin> released st"
  shows "is_done c (bl_futures st @ [length (bl_batches st)]) f"
  using assms by (cases "f = length (bl_batches st)")
    (auto simp: released_def bench_loop_step_def Let_def apply_backpressure_def wait_first_def split: if_splits)

section \<open>Properties\<close>

text \<open>
  C23. The read benchmark never keeps more than 512 futures from one query to the next, whatever the
  batch size and whichever futures complete at its waits; it keeps each once, gives up only futures
  that a wait on all it keeps finds done, and the back-pressure changes nothing of what is sent: the batches are those
  of the queries in their order.
\<close>

theorem backpressure_bounds_futures:
  "(let st = foldl (bench_loop_step batch_size) new_bench_loop qcs in
     length (bl_futures st) \<le> 512 \<and> distinct (bl_futures st) \<and>
     (\<forall>f \<in> released (bench_loop_step batch_size st (q, c)) - released st.
        is_done c (bl_futures st @ [length (bl_batches st)]) f) \<and>
     bl_batches (bench_loop_end st) = feed_queries batch_size [] (map fst qcs))"
proof -
  let ?st = "foldl (bench_loop_step batch_size) new_bench_loop qcs"
  have "loop_ok new_bench_loop" by (simp add: loop_ok_def new_bench_loop_def)
  then have "loop_ok ?st" by (rule bench_loop_ok)
  moreover have "bl_batches (bench_loop_end ?st) = feed_queries batch_size [] (map fst qcs)"
    by (simp add: bench_loop_batches) (simp add: new_bench_loop_def)
  ultimately show ?thesis using released_done [of _ batch_size ?st q c]
    unfolding Let_def loop_ok_def max_pending_futures_def by blast
qed

definition demo_queries :: "nat \<Rightarrow> (query_request \<times> completion) list" where
  "demo_queries n = map (\<lambda>i. (\<lparr>min_id = int i, min_ts = 0, max_id = int i, max_ts = 0, query_id = int i\<rparr>, (i, \<lambda>_. False))) [0..<n]"

theorem backpressure_bounds_futures_witness:
  "length (bl_futures (foldl (bench_loop_step 2) new_bench_loop (demo_queries 9))) \<le> 512 \<and>
   bl_batches (bench_loop_end (foldl (bench_loop_step 2) new_bench_loop (demo_queries 9))) =
     feed_queries 2 [] (map fst (demo_queries 9))"
  using backpressure_bounds_futures [of 2 "demo_queries 9"] by (simp add: Let_def)

end
