(* ===== verification/Write_Throttle.thy ===== *)
theory Write_Throttle
  imports Bench_Loop Write_Bench
begin

text \<open>
  The loop of \<open>bench\<close> in \<open>write-bench.py\<close> with the futures it keeps: one per batch that \<open>write\<close> hands out, a
  wait after a chunk when there are more than 512, and the wait for what is left at the end. A future is the
  position of its batch among all handed out; what a wait finds complete is an argument. The batches are
  those of the feeding loop of Write_Bench.
\<close>

section \<open>The loop\<close>

record feeder =
  fd_buffer :: "db_record list"
  fd_state :: bench_state
  fd_futures :: "nat list"

definition new_feeder :: "bench_state \<Rightarrow> feeder" where
  "new_feeder st = \<lparr>fd_buffer = [], fd_state = st, fd_futures = []\<rparr>"

definition fresh_bench :: "router \<Rightarrow> bench_state" where
  "fresh_bench rt = \<lparr>bn_sent = [], bn_router = rt, bn_buffer = []\<rparr>"

definition throttle :: "completion \<Rightarrow> feeder \<Rightarrow> feeder" where
  "throttle c fd = (if 512 < length (fd_futures fd) then fd\<lparr>fd_futures := snd (wait_first c (fd_futures fd))\<rparr> else fd)"

text \<open>\<open>futures.extend(dbclient.write(batch_buffer))\<close> and the emptied chunk.\<close>

definition write_chunk ::
  "(byte list \<Rightarrow> byte list) \<Rightarrow> int \<Rightarrow> feeder \<Rightarrow> (unit res \<times> feeder) option" where
  "write_chunk digest batch_size fd =
     (case client_write digest batch_size (fd_buffer fd) (fd_state fd) of
        None \<Rightarrow> None
      | Some (Inl e, st) \<Rightarrow> Some (Inl e, fd\<lparr>fd_state := st\<rparr>)
      | Some (Inr _, st) \<Rightarrow> Some (Inr (), fd\<lparr>fd_buffer := [], fd_state := st,
          fd_futures := fd_futures fd @ [length (bn_sent (fd_state fd))..<length (bn_sent st)]\<rparr>))"

fun feed_throttled ::
  "(byte list \<Rightarrow> byte list) \<Rightarrow> int \<Rightarrow> nat \<Rightarrow> (db_record \<times> completion) list \<Rightarrow> feeder \<Rightarrow>
     (unit res \<times> feeder) option" where
  "feed_throttled digest batch_size buffer_size [] fd = Some (Inr (), fd)"
| "feed_throttled digest batch_size buffer_size ((record, c) # stream) fd =
     (let fd = fd\<lparr>fd_buffer := fd_buffer fd @ [record]\<rparr> in
      if buffer_size \<le> length (fd_buffer fd)
      then (case write_chunk digest batch_size fd of
              None \<Rightarrow> None
            | Some (Inl e, fd) \<Rightarrow> Some (Inl e, fd)
            | Some (Inr _, fd) \<Rightarrow> feed_throttled digest batch_size buffer_size stream (throttle c fd))
      else feed_throttled digest batch_size buffer_size stream fd)"

text \<open>\<open>for f in done: try: f.result()\<close>: the failures are printed, in this order, and none is raised.\<close>

fun collect_failures :: "'a res list \<Rightarrow> exc list" where
  "collect_failures [] = []"
| "collect_failures (Inl e # settled) = e # collect_failures settled"
| "collect_failures (Inr _ # settled) = collect_failures settled"

text \<open>The end of \<open>bench\<close>: the outcomes of the last chunk's flush, in the order in which they complete, may raise;
  those of the futures kept from before are only reported.\<close>

definition bench_outcome :: "'a res list \<Rightarrow> 'a res list \<Rightarrow> unit res \<times> exc list" where
  "bench_outcome flushed trailing =
     (case await_flush flushed of Inl e \<Rightarrow> (Inl e, []) | Inr _ \<Rightarrow> (Inr (), collect_failures trailing))"

text \<open>A run can end well although batches failed.\<close>

lemma bench_outcome_ignores_trailing: "fst (bench_outcome flushed trailing) = await_flush flushed"
  by (simp add: bench_outcome_def split: sum.splits)

section \<open>The same batches\<close>

lemma throttle_simps [simp]:
  "fd_buffer (throttle c fd) = fd_buffer fd" "fd_state (throttle c fd) = fd_state fd"
  by (simp_all add: throttle_def)

lemma feed_throttled_state:
  "feed_records digest batch_size buffer_size (fd_buffer fd) (map fst stream) (fd_state fd) =
     map_option (\<lambda>(r, fd). (map_sum id (\<lambda>_. fd_buffer fd) r, fd_state fd))
       (feed_throttled digest batch_size buffer_size stream fd)"
proof (induction digest batch_size buffer_size stream fd rule: feed_throttled.induct)
  case (2 digest batch_size buffer_size r c stream fd)
  then show ?case
    by (auto simp: Let_def write_chunk_def split: option.splits sum.splits prod.splits)
qed simp

section \<open>Counting records\<close>

definition buffered :: "write_buffer \<Rightarrow> nat" where
  "buffered d = sum_list (map (length \<circ> snd) d)"

definition in_batches :: "batch list \<Rightarrow> nat" where
  "in_batches bs = sum_list (map (length \<circ> snd) bs)"

lemma buffered_update: "buffered (AList.update k v d) + length (pending d k) = buffered d + length v"
  by (induction d) (auto simp: buffered_def pending_def dict_get_default_def)

lemma buffered_extend: "buffered (extend_at k vs d) = buffered d + length vs"
  using buffered_update [of k "pending d k @ vs" d] by (simp add: extend_at_def pending_def)

lemma buffered_route: "route_records digest rt rs acc = (Inr nr, rt') \<Longrightarrow> buffered nr = buffered acc + length rs"
  by (induction rs arbitrary: rt acc) (auto simp: buffered_extend split: prod.splits sum.splits)

lemma length_update_le: "length d \<le> length (AList.update k v d)"
  by (induction d) auto

lemma in_batches_simps [simp]: "in_batches (bs @ cs) = in_batches bs + in_batches cs"
  "in_batches (map (Pair k) ws) = length (concat ws)" "in_batches [] = 0"
  by (simp_all add: in_batches_def length_concat comp_def)

lemma buffered_records:
  assumes "0 < batch_size"
  shows "buffer_records batch_size nr buffer acc = Some (buffer', bs) \<Longrightarrow>
    buffered buffer' + in_batches bs = buffered buffer + buffered nr + in_batches acc \<and> length buffer \<le> length buffer'"
proof (induction nr arbitrary: buffer acc)
  case (Cons p nr)
  obtain k recs where p: "p = (k, recs)" by (cases p)
  obtain rest ws where cut: "cut_batches batch_size (pending buffer k @ recs) [] = Some (rest, ws)"
    "concat ws @ rest = pending buffer k @ recs"
    using cut_batches_spec [OF assms, of "pending buffer k @ recs" "[]"] by auto
  have "length (concat ws) + length rest = length (pending buffer k) + length recs"
    using cut(2) by (metis length_append)
  moreover have "buffered buffer' + in_batches bs =
      buffered (AList.update k rest buffer) + buffered nr + in_batches (acc @ map (Pair k) ws)"
    "length (AList.update k rest buffer) \<le> length buffer'"
    using Cons cut(1) by (simp_all add: p pending_def)
  moreover have "buffered (p # nr) = length recs + buffered nr" by (simp add: p buffered_def)
  ultimately show ?case
    using buffered_update [of k rest buffer] length_update_le [of buffer k rest] by simp
qed (simp add: buffered_def)

lemma in_batches_full: "\<forall>b \<in> set bs. int (length (snd b)) = n \<Longrightarrow> int (in_batches bs) = n * int (length bs)"
  by (induction bs) (simp_all add: in_batches_def algebra_simps)

lemma buffered_bound:
  assumes "dict_ok d" and "\<forall>k. int (length (pending d k)) < n"
  shows "int (buffered d) \<le> int (length d) * (n - 1)"
proof -
  have "int (length (snd p)) \<le> n - 1" if "p \<in> set d" for p
  proof -
    have "map_of d (fst p) = Some (snd p)" using that assms(1) by (intro map_of_is_SomeI) (auto simp: dict_ok_def)
    then show ?thesis using assms(2) [rule_format, of "fst p"] by (simp add: pending_def dict_get_default_def)
  qed
  then have "\<forall>p \<in> set d. int (length (snd p)) \<le> n - 1" by blast
  then show ?thesis unfolding buffered_def by (induction d) (auto simp: algebra_simps)
qed

section \<open>The bound\<close>

text \<open>Batches in flight beyond the 512 are paid for by buffered records.\<close>

definition feeder_ok :: "int \<Rightarrow> feeder \<Rightarrow> bool" where
  "feeder_ok batch_size fd \<longleftrightarrow> dict_ok (bn_buffer (fd_state fd)) \<and>
     (\<forall>k. int (length (pending (bn_buffer (fd_state fd)) k)) < batch_size) \<and>
     batch_size * int (length (fd_futures fd)) + int (buffered (bn_buffer (fd_state fd)))
       \<le> batch_size * 512 + int (length (bn_buffer (fd_state fd))) * (batch_size - 1)"

lemma feeder_ok_bound:
  assumes "feeder_ok batch_size fd" and "0 < batch_size"
  shows "length (fd_futures fd) \<le> 512 + length (bn_buffer (fd_state fd))"
proof (rule ccontr)
  let ?f = "int (length (fd_futures fd))" and ?n = "int (length (bn_buffer (fd_state fd)))"
  assume "\<not> ?thesis"
  then have "batch_size * (513 + ?n) \<le> batch_size * ?f" using assms(2) by (intro mult_left_mono) auto
  moreover have "batch_size * ?f \<le> batch_size * 512 + ?n * (batch_size - 1)" using assms(1) by (auto simp: feeder_ok_def)
  ultimately show False using assms(2) by (simp add: algebra_simps)
qed

lemma client_write_count:
  assumes "client_write digest batch_size rs st = Some (Inr (), st')" and "0 < batch_size"
    and "dict_ok (bn_buffer st)" and "\<forall>k. int (length (pending (bn_buffer st) k)) < batch_size"
  shows "batch_size * (int (length (bn_sent st')) - int (length (bn_sent st))) + int (buffered (bn_buffer st')) =
      int (buffered (bn_buffer st)) + int (length rs)"
    and "length (bn_buffer st) \<le> length (bn_buffer st')" and "length (bn_sent st) \<le> length (bn_sent st')"
    and "dict_ok (bn_buffer st')" and "\<forall>k. int (length (pending (bn_buffer st') k)) < batch_size"
proof -
  obtain bs rt' buffer' where w: "write_records digest batch_size rs (bn_router st) (bn_buffer st) = Some (Inr bs, rt', buffer')"
    and st': "st' = st\<lparr>bn_sent := bn_sent st @ bs, bn_router := rt', bn_buffer := buffer'\<rparr>"
    using assms(1) by (auto simp: client_write_def split: option.splits prod.splits sum.splits)
  obtain nr where nr: "route_records digest (bn_router st) rs [] = (Inr nr, rt')"
    and b: "buffer_records batch_size nr (bn_buffer st) [] = Some (buffer', bs)"
    using w by (auto simp: write_records_def split: prod.splits sum.splits)
  obtain t where t: "route_trace digest (bn_router st) rs = (Inr t, rt')"
  proof -
    obtain u rt1 where u: "route_trace digest (bn_router st) rs = (u, rt1)" by force
    then show ?thesis using that route_records_trace [OF dict_ok_Nil u] nr by (cases u) auto
  qed
  have spec: "(\<forall>b \<in> set bs. int (length (snd b)) = batch_size) \<and> (\<forall>k. int (length (pending buffer' k)) < batch_size) \<and> dict_ok buffer'"
    using write_records_spec [OF assms(2) t, of "bn_buffer st"] w assms(3,4) by auto
  have "int (in_batches bs) = batch_size * int (length bs)" using spec in_batches_full by blast
  moreover have "buffered buffer' + in_batches bs = buffered (bn_buffer st) + length rs" "length (bn_buffer st) \<le> length buffer'"
    using buffered_records [OF assms(2) b] buffered_route [OF nr] by (simp_all add: buffered_def in_batches_def)
  ultimately show "batch_size * (int (length (bn_sent st')) - int (length (bn_sent st))) + int (buffered (bn_buffer st')) =
      int (buffered (bn_buffer st)) + int (length rs)"
    and "length (bn_buffer st) \<le> length (bn_buffer st')" and "length (bn_sent st) \<le> length (bn_sent st')"
    and "dict_ok (bn_buffer st')" and "\<forall>k. int (length (pending (bn_buffer st') k)) < batch_size"
    using spec by (simp_all add: st')
qed

lemma throttle_keeps:
  assumes "feeder_ok batch_size fd" and "write_chunk digest batch_size fd = Some (Inr (), fd')"
    and "0 < batch_size" and "int (length (fd_buffer fd)) \<le> batch_size"
  shows "feeder_ok batch_size (throttle c fd')"
proof -
  let ?st = "fd_state fd" and ?st' = "fd_state fd'"
  have w: "client_write digest batch_size (fd_buffer fd) ?st = Some (Inr (), ?st')"
    and f: "fd_futures fd' = fd_futures fd @ [length (bn_sent ?st)..<length (bn_sent ?st')]"
    using assms(2) by (auto simp: write_chunk_def split: option.splits prod.splits sum.splits)
  have ok: "dict_ok (bn_buffer ?st)" "\<forall>k. int (length (pending (bn_buffer ?st) k)) < batch_size"
    "batch_size * int (length (fd_futures fd)) + int (buffered (bn_buffer ?st))
       \<le> batch_size * 512 + int (length (bn_buffer ?st)) * (batch_size - 1)"
    using assms(1) by (simp_all add: feeder_ok_def)
  note cnt = client_write_count [OF w assms(3) ok(1,2)]
  have bound: "int (buffered (bn_buffer ?st')) \<le> int (length (bn_buffer ?st')) * (batch_size - 1)"
    using cnt(4,5) by (rule buffered_bound)
  have grow: "int (length (bn_buffer ?st)) * (batch_size - 1) \<le> int (length (bn_buffer ?st')) * (batch_size - 1)"
    using cnt(2) assms(3) by (intro mult_right_mono) auto
  have "batch_size * int (length (fd_futures (throttle c fd'))) + int (buffered (bn_buffer ?st'))
       \<le> batch_size * 512 + int (length (bn_buffer ?st')) * (batch_size - 1)"
  proof (cases "512 < length (fd_futures fd')")
    case False
    then have "batch_size * int (length (fd_futures fd')) \<le> batch_size * 512" using assms(3) by (intro mult_left_mono) auto
    then show ?thesis using bound False by (simp add: throttle_def)
  next
    case True
    let ?g = "snd (wait_first c (fd_futures fd'))"
    have "length ?g < length (fd_futures fd')" using True by (intro wait_first_fewer(1)) auto
    then have "int (length ?g) + 1 \<le> int (length (fd_futures fd)) + (int (length (bn_sent ?st')) - int (length (bn_sent ?st)))"
      using f cnt(3) by simp
    then have "batch_size * (int (length ?g) + 1) \<le>
        batch_size * (int (length (fd_futures fd)) + (int (length (bn_sent ?st')) - int (length (bn_sent ?st))))"
      using assms(3) by (intro mult_left_mono) auto
    then show ?thesis using True ok(3) cnt(1) grow assms(4) by (simp add: throttle_def distrib_left)
  qed
  then show ?thesis using cnt(4,5) by (simp add: feeder_ok_def)
qed

lemma feed_throttled_ok:
  "feed_throttled digest batch_size buffer_size stream fd = Some (Inr (), fd') \<Longrightarrow> feeder_ok batch_size fd \<Longrightarrow>
   0 < batch_size \<Longrightarrow> 0 < buffer_size \<Longrightarrow> int buffer_size \<le> batch_size \<Longrightarrow> length (fd_buffer fd) < buffer_size \<Longrightarrow>
   feeder_ok batch_size fd' \<and> length (fd_buffer fd') < buffer_size"
proof (induction stream arbitrary: fd)
  case (Cons p stream)
  obtain r c where p: "p = (r, c)" by (cases p)
  let ?fd = "fd\<lparr>fd_buffer := fd_buffer fd @ [r]\<rparr>"
  have ok: "feeder_ok batch_size ?fd" using Cons.prems(2) by (simp add: feeder_ok_def)
  show ?case
  proof (cases "buffer_size \<le> length (fd_buffer ?fd)")
    case False
    then show ?thesis using Cons.IH [OF _ ok] Cons.prems by (simp add: p Let_def)
  next
    case True
    then obtain fd1 where w: "write_chunk digest batch_size ?fd = Some (Inr (), fd1)"
      and f: "feed_throttled digest batch_size buffer_size stream (throttle c fd1) = Some (Inr (), fd')"
      using Cons.prems(1) by (auto simp: p Let_def split: option.splits sum.splits prod.splits)
    have "feeder_ok batch_size (throttle c fd1)"
      using ok w Cons.prems(3,5,6) by (intro throttle_keeps) auto
    moreover have "fd_buffer fd1 = []" using w by (auto simp: write_chunk_def split: option.splits prod.splits sum.splits)
    ultimately show ?thesis using Cons.IH [OF f] Cons.prems(3-5) by simp
  qed
qed simp

text \<open>The last chunk, which is not throttled.\<close>

definition feed_rest ::
  "(byte list \<Rightarrow> byte list) \<Rightarrow> int \<Rightarrow> feeder \<Rightarrow> (unit res \<times> feeder) option" where
  "feed_rest digest batch_size fd = (if fd_buffer fd = [] then Some (Inr (), fd) else write_chunk digest batch_size fd)"

section \<open>Properties\<close>

text \<open>C22. Throttling does not change what the write benchmark sends: with it the loop ends exactly as the
  plain feeding loop does, with the same batches, router and buffer. And it bounds what is in flight: with chunks
  no larger than a batch, as in the program, the futures kept after any part of the stream are at most 512
  and one per node written to so far, whichever futures complete at its waits, although one chunk may
  hand out several batches and a wait may free only one future.\<close>

theorem throttle_bounds_futures:
  assumes "routable rt" and "list_all (strategy_accepts (strategy rt)) (map fst stream)"
    and "0 < buffer_size" and "int buffer_size \<le> batch_size"
  shows "\<exists>fd. feed_throttled digest batch_size buffer_size stream (new_feeder (fresh_bench rt)) = Some (Inr (), fd) \<and>
    feed_records digest batch_size buffer_size [] (map fst stream) (fresh_bench rt) = Some (Inr (fd_buffer fd), fd_state fd) \<and>
    length (fd_futures fd) \<le> 512 + length (bn_buffer (fd_state fd))"
proof -
  let ?new = "new_feeder (fresh_bench rt)"
  have pos: "0 < batch_size" using assms(3,4) by linarith
  then have "bench_ok batch_size (fresh_bench rt)" by (simp add: bench_ok_def fresh_bench_def)
  moreover obtain t rt' where "route_trace digest rt (map fst stream) = (Inr t, rt')"
    using route_trace_total [OF assms(1,2)] by blast
  ultimately obtain rest st where plain:
    "feed_records digest batch_size buffer_size [] (map fst stream) (fresh_bench rt) = Some (Inr rest, st)"
    using feed_records_spec [of batch_size "fresh_bench rt" digest "[]" "map fst stream" t rt' buffer_size]
    by (auto simp: fresh_bench_def)
  have "map_option (\<lambda>(r, fd). (map_sum id (\<lambda>_. fd_buffer fd) r, fd_state fd))
      (feed_throttled digest batch_size buffer_size stream ?new) = Some (Inr rest, st)"
    using feed_throttled_state [of digest batch_size buffer_size ?new stream] plain by (simp add: new_feeder_def)
  then obtain r fd where "feed_throttled digest batch_size buffer_size stream ?new = Some (r, fd)"
    and "map_sum id (\<lambda>_. fd_buffer fd) r = Inr rest" and same: "st = fd_state fd" by auto
  then have run: "feed_throttled digest batch_size buffer_size stream ?new = Some (Inr (), fd)" and rest: "rest = fd_buffer fd"
    by (auto simp: map_sum_Inr)
  have "feeder_ok batch_size ?new"
    using pos by (simp add: feeder_ok_def new_feeder_def fresh_bench_def buffered_def)
  then have "feeder_ok batch_size fd"
    using feed_throttled_ok [OF run _ pos assms(3,4)] assms(3) by (simp add: new_feeder_def)
  then show ?thesis
    using run same rest plain feeder_ok_bound [OF _ pos] by blast
qed

theorem throttle_bounds_futures_witness:
  "\<exists>fd. feed_throttled (\<lambda>_. []) 3 2 (map (\<lambda>i. (demo_rec i, (0, \<lambda>_. False))) [0, 1, 2, 3, 4])
      (new_feeder (fresh_bench demo_router)) = Some (Inr (), fd) \<and>
    length (fd_futures fd) \<le> 512 + length (bn_buffer (fd_state fd))"
proof -
  let ?stream = "map (\<lambda>i. (demo_rec i, (0, \<lambda>_. False))) [0, 1, 2, 3, 4] :: (db_record \<times> completion) list"
  have "list_all (strategy_accepts (strategy demo_router)) (map fst ?stream)"
    by (simp add: demo_router_def update_topology_def new_router_def)
  from throttle_bounds_futures [OF demo_router_routable this, of 2 3 "\<lambda>_. []"] show ?thesis by auto
qed

end
