(* ===== verification/Program_End.thy ===== *)
theory Program_End
  imports Programs Write_Throttle
begin

text \<open>
  How the benchmarks end: \<open>bench\<close> disconnects the client as its last act; \<open>main\<close> catches what leaves
  \<open>bench\<close>, prints it, disconnects and exits with status 1.
\<close>

section \<open>Exit\<close>

text \<open>The status of the process: \<open>sys.exit(1)\<close>, or the return from \<open>main\<close>, which is status 0.\<close>

definition main_end :: "unit res \<Rightarrow> net \<Rightarrow> int \<times> net" where
  "main_end outcome net = (case outcome of Inl e \<Rightarrow> (1, disconnect net) | Inr _ \<Rightarrow> (0, disconnect net))"

text \<open>The write benchmark after its last chunk: \<open>flush\<close>, the trailing futures, and the end; also what it prints
  as \<open>Trailing batch failed\<close>.\<close>

definition write_bench_end :: "'a res list \<Rightarrow> 'a res list \<Rightarrow> net \<Rightarrow> (int \<times> net) \<times> exc list" where
  "write_bench_end flushed trailing net =
     (case bench_outcome flushed trailing of (outcome, printed) \<Rightarrow> (main_end outcome net, printed))"

section \<open>Facts\<close>

lemma collect_failures_set: "set (collect_failures outcomes) = {e. Inl e \<in> set outcomes}"
  by (induction outcomes rule: collect_failures.induct) auto

lemma await_flush_ok: "await_flush outcomes = Inr () \<longleftrightarrow> (\<forall>e. Inl e \<notin> set outcomes)"
  by (induction outcomes rule: await_flush.induct) auto

lemma main_end_disconnects: "snd (main_end outcome net) = disconnect net"
  by (simp add: main_end_def split: sum.split)

section \<open>Properties\<close>

text \<open>The exit status of the write benchmark speaks of the batches of the last \<open>flush\<close> only: it is 0 exactly
  when none of them failed. Then every failure among the futures kept from before is printed, and
  changes nothing else; when one of them failed, the futures kept from before are not looked at and the
  status is 1. The client is disconnected either way.\<close>

theorem exit_status_is_that_of_flush:
  "fst (fst (write_bench_end flushed trailing net)) = (if \<exists>e. Inl e \<in> set flushed then 1 else 0) \<and>
   snd (fst (write_bench_end flushed trailing net)) = disconnect net \<and>
   set (snd (write_bench_end flushed trailing net)) =
     (if \<exists>e. Inl e \<in> set flushed then {} else {e. Inl e \<in> set trailing})"
proof (cases "\<exists>e. Inl e \<in> set flushed")
  case True
  then obtain e where "await_flush flushed = Inl e" using await_flush_ok [of flushed] by (cases "await_flush flushed") auto
  then show ?thesis using True by (simp add: write_bench_end_def bench_outcome_def main_end_def)
next
  case False
  then have "await_flush flushed = Inr ()" using await_flush_ok by blast
  then show ?thesis using False by (simp add: write_bench_end_def bench_outcome_def main_end_def collect_failures_set)
qed

end
