(* ===== verification/Bench_Delivery.thy ===== *)
theory Bench_Delivery
  imports Program_End Write_Delivery
begin

text \<open>
  The write benchmark from the options to the leaders: the calls its loop makes are fed to the concurrent
  write side of the client it started, against clusters of mock servers.
\<close>

section \<open>The calls of the benchmark\<close>

text \<open>\<open>bench\<close> of \<open>write-bench.py\<close> as the calls it makes: a \<open>write\<close> per full chunk, one for the rest, \<open>flush\<close>.\<close>

fun bench_calls :: "nat \<Rightarrow> db_record list \<Rightarrow> db_record list \<Rightarrow> buffer_event list" where
  "bench_calls buffer_size batch_buffer [] = (if batch_buffer = [] then [] else [WriteCall batch_buffer]) @ [FlushCall]"
| "bench_calls buffer_size batch_buffer (r # stream) =
     (let batch_buffer = batch_buffer @ [r] in
      if buffer_size \<le> length batch_buffer then WriteCall batch_buffer # bench_calls buffer_size [] stream
      else bench_calls buffer_size batch_buffer stream)"

text \<open>The calls of \<open>write\<close> and \<open>flush\<close> among the events of the client.\<close>

fun client_call :: "write_event \<Rightarrow> buffer_event list" where
  "client_call (Call (WriteCall records)) = [WriteCall records]"
| "client_call (Call FlushCall) = [FlushCall]"
| "client_call ev = []"

text \<open>The configuration \<open>main\<close> builds; the number of retries is the default.\<close>

definition bench_config :: client_config where
  "bench_config = \<lparr>cf_batch_size = 8192, cf_max_retries = 10, cf_has_write_cb = False\<rparr>"

section \<open>Facts\<close>

lemma bench_calls_records:
  "concat (map (\<lambda>e. written_by (Call e)) (bench_calls buffer_size batch_buffer stream)) = batch_buffer @ stream"
  by (induction buffer_size batch_buffer stream rule: bench_calls.induct) (simp_all add: Let_def)

lemma bench_calls_end: "\<exists>es. bench_calls buffer_size batch_buffer stream = es @ [FlushCall]"
  by (induction buffer_size batch_buffer stream rule: bench_calls.induct) (auto simp: Let_def)

lemma client_call_records: "concat (map (\<lambda>e. written_by (Call e)) (client_call ev)) = written_by ev"
  by (cases ev rule: client_call.cases) simp_all

lemma client_calls_records:
  "concat (map (\<lambda>e. written_by (Call e)) (concat (map client_call evs))) = concat (map written_by evs)"
  by (induction evs) (simp_all add: client_call_records)

lemma last_call:
  "concat (map client_call evs) = es @ [e] \<Longrightarrow>
   \<exists>pre ev post. evs = pre @ ev # post \<and> client_call ev = [e] \<and> concat (map client_call post) = []"
proof (induction evs rule: rev_induct)
  case (snoc ev evs)
  show ?case
  proof (cases "client_call ev = []")
    case True
    then obtain pre v post where "evs = pre @ v # post" "client_call v = [e]" "concat (map client_call post) = []"
      using snoc by auto
    then show ?thesis using True by (intro exI [of _ pre] exI [of _ v] exI [of _ "post @ [ev]"]) simp
  next
    case False
    then have "client_call ev = [e]" using snoc.prems by (cases ev rule: client_call.cases) auto
    then show ?thesis by (intro exI [of _ evs] exI [of _ ev] exI [where x = "[]"]) simp
  qed
qed simp

lemma client_call_flush: "client_call ev = [FlushCall] \<Longrightarrow> ev = Call FlushCall"
  by (cases ev rule: client_call.cases) auto

text \<open>Only \<open>write\<close> and \<open>flush\<close> touch the buffer.\<close>

lemma step_buffer:
  "write_step digest cfg cs s ev = Some s' \<Longrightarrow> client_call ev = [] \<Longrightarrow> ws_buffer s' = ws_buffer s"
  by (cases ev rule: client_call.cases)
    (auto simp: call_step_def submit_batches_def take_step_def choose_step_def attempt_step_def finish_def set_worker_def
      put_send_def Let_def split: option.splits prod.splits sum.splits list.splits attempt.splits if_splits)

lemma run_buffer:
  "write_run digest cfg cs evs s = Some s' \<Longrightarrow> concat (map client_call evs) = [] \<Longrightarrow> ws_buffer s' = ws_buffer s"
  by (induction evs arbitrary: s) (auto split: option.splits dest!: step_buffer)

lemma flush_step_empties:
  assumes "delivery_inv cfg cs lead s" and "write_step digest cfg cs s (Call FlushCall) = Some s'"
  shows "pending (ws_buffer s') k = []"
proof -
  obtain bs buffer where f: "flush_buffer (ws_buffer s) = (bs, buffer)" by force
  have "dict_ok (ws_buffer s)" using assms(1) by (simp add: delivery_inv_def conserved_def buffer_well_def)
  from flush_buffer_spec [OF this f] have "pending buffer k = []" by blast
  then show ?thesis using assms(2) f by (auto simp: call_step_def submit_batches_def)
qed

lemma run_flushed:
  assumes start: "session_start cfg cs srv lead rt net"
    and served: "run_served digest cfg cs srv evs (new_system pool_size rt net)"
    and calls: "concat (map client_call evs) = es @ [FlushCall]"
    and run: "write_run digest cfg cs evs (new_system pool_size rt net) = Some s"
  shows "pending (ws_buffer s) k = []"
proof -
  let ?new = "new_system pool_size rt net"
  have led: "\<forall>c \<in> set (dict_keys cs). cluster_led cs srv lead c" "0 < cf_max_retries cfg"
    using start by (simp_all add: session_start_def)
  from last_call [OF calls] obtain pre post where e: "evs = pre @ Call FlushCall # post"
    and post: "concat (map client_call post) = []" using client_call_flush by blast
  obtain s0 where s0: "write_run digest cfg cs pre ?new = Some s0"
    using run by (auto simp: e write_run_append split: option.splits)
  have "run_served digest cfg cs srv pre ?new" using served by (simp add: e run_served_append [OF s0])
  then have inv: "delivery_inv cfg cs lead s0"
    using session_run [OF led session_new(1) [OF start]] s0 by fastforce
  obtain s1 where s1: "write_step digest cfg cs s0 (Call FlushCall) = Some s1" "write_run digest cfg cs post s1 = Some s"
    using run s0 by (auto simp: e write_run_append split: option.splits)
  then show ?thesis using flush_step_empties [OF inv s1(1)] run_buffer [OF s1(2) post] by simp
qed

text \<open>A client the benchmark started can begin such a session.\<close>

lemma started_session:
  assumes "full_config cfg" and "name \<in> set (dict_keys (strategy_map WriteBench max_key))"
    and "0 < max_key" and "max_key < 2 ^ 53" and cl: "start_client WriteBench name max_key 3 cfg env = Inr cl"
    and led: "\<forall>c \<in> set (dict_keys (cl_clusters cl)). cluster_led (cl_clusters cl) srv lead c"
  shows "session_start bench_config (cl_clusters cl) srv lead (cl_router cl) (cl_net cl)"
proof -
  have "dict_ok cfg" using assms(1) by (simp add: full_config_def)
  note started = started_client_leaders [OF this cl]
  have rt: "routable (cl_router cl)"
    using started_client_routable [OF assms(1,2) _ assms(3,4), of 3 env] cl by auto
  have "leaders_known (cl_clusters cl) (leaders (cl_router cl))"
    unfolding leaders_known_def
  proof (intro allI impI)
    fix c l assume "get_leader (leaders (cl_router cl)) c = Some l"
    from started(4) [OF this] obtain ns where "(c, ns) \<in> set (cl_clusters cl)" "l \<in> set ns" using started(3) by auto
    then show "l \<in> set (dict_get_default (cl_clusters cl) c [])"
      using started(1,3) by (simp add: dict_get_default_def clusters_ok_def dict_ok_def)
  qed
  then show ?thesis
    using rt started led by (simp add: session_start_def bench_config_def router_set_def routable_def)
qed

section \<open>Properties\<close>


definition demo_leader :: "string \<Rightarrow> node" where
  "demo_leader c = (if c = ''B'' then \<lparr>cluster_name = ''B'', node_id = 1, host = ''h'', port = 7000\<rparr>
     else \<lparr>cluster_name = ''A'', node_id = 3, host = ''h'', port = 7002\<rparr>)"

definition demo_servers :: "node \<Rightarrow> mock_server" where
  "demo_servers n = \<lparr>ms_write_port = port n, ms_leader_id = node_id (demo_leader (cluster_name n)),
     ms_is_leader = (n = demo_leader (cluster_name n))\<rparr>"

definition demo_loaded :: clusters where
  "demo_loaded = [(''B'', [demo_leader ''B'']),
     (''A'', [\<lparr>cluster_name = ''A'', node_id = 2, host = ''h'', port = 7001\<rparr>, demo_leader ''A''])]"

lemma demo_config_loads: "load_clusters demo_config [] = Inr demo_loaded"
  by (simp add: demo_config_def load_node_def json_item_def demo_loaded_def demo_leader_def)

lemma demo_redirect:
  "length (redirect_msg (demo_servers \<lparr>cluster_name = ''A'', node_id = 2, host = ''h'', port = 7001\<rparr>)) \<le> 256"
  by (simp add: redirect_msg_def demo_servers_def demo_leader_def ascii_def show_int_def digits_of.simps)

lemma demo_loaded_led: "c \<in> {''B'', ''A''} \<Longrightarrow> cluster_led demo_loaded demo_servers demo_leader c"
  using demo_redirect
  by (auto simp: cluster_led_def demo_loaded_def dict_get_default_def Let_def) (simp_all add: demo_leader_def demo_servers_def)

lemma demo_led:
  assumes "start_client WriteBench ''hash'' 5 3 demo_config calm_env = Inr cl"
  shows "\<forall>c \<in> set (dict_keys (cl_clusters cl)). cluster_led (cl_clusters cl) demo_servers demo_leader c"
proof -
  have "cl_clusters cl = demo_loaded" using start_client_parts [OF assms] demo_config_loads by (metis sum.inject(2))
  then show ?thesis using demo_loaded_led by (simp add: demo_loaded_def)
qed


end
