(* ===== verification/Spec2Isabelle.thy ===== *)
theory Spec2Isabelle
  imports Routing_Theorems Work_Queue Codec_Theorems Send_Theorems Query_Theorems Read_Theorems
    Batch_Theorems Batch_Session Programs Write_Delivery Mock_Life Bench_Output Zipf Bench_Delivery
begin

text \<open>
  A model of the Python client of a sharded, Raft-replicated LSM store (\<open>client/\<close>), of the
  command-line tools built on it (\<open>cli.py\<close>, \<open>read_benchmark.py\<close>, \<open>write-bench.py\<close>) and of
  the mock server its tests run against (\<open>mocks/mock_server.py\<close>).

  The program. A \<open>Router\<close> holds the topology - the clusters and their nodes - a leader registry and
  one of four routing strategies. \<open>DbClient.write\<close> routes records to nodes, buffers them per node and
  cuts batches; each batch is sent by a worker that follows redirects and retries. \<open>read\<close> and
  \<open>read_batch\<close> ask one node per cluster, fail over inside the cluster, and follow the pages of an
  answer. Workers share the registry and the pools of sockets; a priority queue lets pages overtake
  first requests.

  Theories and the code they model (every operation is a definition named as in the code):

    Prelude: Python exceptions as values of \<open>exc\<close>, results \<open>exc + 'a\<close>, indexing, slices, integer
      division, insertion-ordered dictionaries.
    Wire_Format: \<open>struct.pack\<close> and \<open>unpack\<close> for the formats used.
    Db_Datatypes: \<open>client/db_datatypes.py\<close>.
    Record_Codec, Framing, Response_Codec, Codec_Theorems: \<open>_serialize_batch\<close>, the query request,
      the response header and \<open>_parse_response\<close>; locale \<open>framing\<close> is the contract of a
      self-delimiting record format, interpreted on the response records.
    Py_Float: the rounded quotient behind \<open>math.ceil(a / b)\<close>, and \<open>rnd\<close>, the rounding of a rational
      to the nearest double.
    Router: \<open>LeaderRegistry\<close>; locale \<open>leader_directory\<close>.
    Routing_Strats, Routing_Contract, Routing_Props, Routing_Theorems: \<open>client/routing_strats.py\<close>
      and the class \<open>Router\<close>; locale \<open>routing_contract\<close> is what inserts and queries of a strategy
      promise each other, \<open>routing_session\<close> adds accepted records, and both are interpreted on the
      four strategies and their dispatch.
    Mock_Server: the two connection handlers of the mock server as functions of what they receive.
    Byte_Stream: \<open>recv\<close> and \<open>_recv_exact\<close> over a list of events.
    Work_Queue: \<open>PrioritizedItem\<close>, \<open>PriorityWorkQueue\<close>, \<open>submit\<close>; locale \<open>least_first_bag\<close>.
    Socket_Pool: \<open>connect\<close>, \<open>disconnect\<close>, \<open>_get_socket\<close>, \<open>_return_socket\<close>; locale
      \<open>resource_pool\<close> with the step relation \<open>worker_step\<close> of any number of workers.
    Py_Text: \<open>decode\<close>, \<open>strip\<close>, \<open>split\<close>, \<open>int\<close> and the parsing of a redirect.
    Send_Batch, Send_Props, Send_Theorems: \<open>_flush_batch\<close> and \<open>_send_batch\<close>.
    Write_Buffer: \<open>write\<close> and \<open>flush\<close>; locale \<open>keyed_batcher\<close>.
    Query_Node, Query_Props, Query_Theorems: \<open>_query_single_node\<close>, \<open>_query_batch_single_node\<close>.
    Read_Pages, Read_Props, Read_Theorems: \<open>read\<close>; locale \<open>page_server\<close> is the contract of a
      server of pages, interpreted on the mock server.
    Read_Batch, Batch_Grouping, Batch_Props, Batch_Theorems: \<open>read_batch\<close>; its aggregator under the
      contract of \<open>page_server\<close>.
    Mock_Pages: the mock server meets \<open>page_server\<close>.
    Read_Session, Batch_Session: \<open>read\<close> and \<open>read_batch\<close> whole, from the router through sockets and wire format
      to the result.
    Client_Setup: \<open>DbClient.__init__\<close>, \<open>connect\<close>, the configuration file and the strategies by name.
    Streams: \<open>record_stream\<close>, \<open>query_stream\<close>, \<open>bulk_records\<close> and their random draws.
    Bench_Metrics, Write_Bench: \<open>write-bench.py\<close>: the callback, the feeding loop and the report thread.
    Read_Bench: \<open>read_benchmark.py\<close>: batches of queries, the callback, latencies and percentiles.
    Cli_Show: \<open>show\<close> of \<open>cli.py\<close>; Cli: the commands, \<open>write_sync\<close> and the loop, whose sessions are runs of
      the buffer of Write_Buffer.
    Programs: the \<open>main\<close> functions, from the configuration file to the batches.
    Write_Workers, Write_Session, Write_Delivery: the write side while the threads of the io pool run: calls
      fill a queue, and each worker runs \<open>_send_batch\<close> in two steps per iteration, the choice of the node and the
      attempt, on the registry and the sockets all share. A run is any sequence of calls and steps
      (\<open>write_run\<close>), the nodes are mock servers; every record is delivered once to the leader of its
      cluster, no batch is transmitted more than twice, and any run can be brought to its end.
    Mock_Life: \<open>start\<close>, \<open>stop\<close>, the accept loops and the handlers with their \<open>select\<close> loops.
    Bench_Loop, Write_Throttle: the loops of the two benchmarks with the futures they keep and the waits that
      bound them; the batches are those of Read_Bench and Write_Bench.
    Bench_Output: the text of the CSV files and of the status lines, and a reader of the dump.
    Zipf: \<open>ZipfGenerator\<close> of the benchmarks, over any \<open>log\<close>, \<open>exp\<close> and \<open>pow\<close> of the C library.
    Program_End: the end of the benchmarks and their exit status.
    Bench_Delivery: the write benchmark from its options to the leaders, over the workers of Write_Workers.

  What the groups of lemmas show. The \<open>_Props\<close> theories hold the invariants and the functional
  behaviour of the operations; the \<open>_Theorems\<close> theories the properties, each stated over the
  model's own definitions, with a witness where it has hypotheses. Together: an inserted record is
  found by every later query that covers it; records are neither lost nor duplicated between
  \<open>write\<close> and the batches, nor between the batches and the leaders of healthy clusters, however the workers
  interleave; a batch that is returned was acknowledged byte by byte; sockets are never
  shared; the answers of the mock server arrive as they were meant, in any pieces; a paginated read
  collects every record once; the programs write every record of their stream, ask for every key of
  their range, show every record of an answer, and add up their metrics in any order; and where the code departs from what it means to do, a theorem shows
  the run.

  The environment. What is outside the client is an argument: the digest function of hash routing,
  the events a socket delivers, which connections fail, which sockets \<open>select\<close> calls readable, the
  clock, the registry operations of other threads between two attempts, and the order in which
  futures complete. A lock held over a whole operation makes the operation one step. A run of the
  retry loop (\<open>send_loop\<close>) consumes a list of environments, one per attempt, and \<open>None\<close> is a run
  still looping at the end of the list; \<open>send_loop_terminates\<close> says how many attempts are enough. The
  loops of \<open>write\<close> and of the mock server's write handler that may run for ever are
  \<open>partial_function (option)\<close>. A run of an aggregator consumes the completions of its futures.

  Abstractions. Floats are the rationals the doubles denote; every operation on them is rounded with
  \<open>rnd\<close>, which has no smallest or largest exponent: the times and counts here stay far from both. The
  streams take the value of a Zipf generator as a draw that \<open>next\<close> clips; theory Zipf computes it. What
  \<open>cli.py\<close> prints is kept as values, without the layout of the text. The random jitter of a sleep is left out, the delay it scales is kept. Of
  an exception only the class is kept. \<open>int\<close> accepts only ASCII digits here. Cancelling futures after
  an error of an aggregator is not modelled.

  Not modelled. The C server, its Raft core and its storage library (the client sees them through
  the wire formats), build files, deployment scripts and the Python tests; of the tools
  also argparse, reading the file, the jitter between batches, the progress lines and the layout of the
  printed summaries (the \<open>__init__.py\<close> of the package only re-exports).
\<close>

end
